(* ===== verification/Prelude.thy ===== *)
theory Prelude
  imports Main "HOL-Library.Word"
begin

text \<open>
  Shared vocabulary of the Columbia development: the JavaScript values, strings, numbers and
  insertion-ordered maps the services use, each with the few laws the component proofs rest on.

  \<^item> A byte is an \<open>8 word\<close>; a \<open>Buffer\<close> is a list of bytes.
  \<^item> A header value is a \<open>string\<close>: Node decodes header bytes as latin-1, one character per byte.
  \<^item> A JavaScript number that is an integer is an \<open>int\<close>; where the code tests
    \<open>Number.isSafeInteger\<close> the test is written out.
  \<^item> A value of unknown shape (the result of \<open>JSON.parse\<close>, a stored row) is a \<open>jv\<close>.
  \<^item> A \<open>Map\<close> is an association list in insertion order (\<open>jmap\<close>).
\<close>

unbundle bit_operations_syntax

named_theorems jmap_simps \<open>what get, has and size return after set and delete\<close>
named_theorems js_defs \<open>definitions of the JavaScript primitives\<close>

section \<open>JavaScript values\<close>

type_synonym byte = "8 word"
type_synonym bytes = "byte list"

text \<open>
  \<open>JInt\<close> is a number with an integral value, \<open>JFrac\<close> every other number that
  \<open>JSON.parse\<close> can produce (a fraction or an infinity, never NaN). The services only ask of a
  \<open>JFrac\<close> whether it is a safe integer, whether it equals one, and whether it is truthy.
\<close>

datatype jv =
    JUndef
  | JNull
  | JBool bool
  | JInt int
  | JFrac
  | JStr string
  | JArr "jv list"
  | JObj "(string \<times> jv) list"

fun truthy :: "jv \<Rightarrow> bool" where
  "truthy JUndef = False"
| "truthy JNull = False"
| "truthy (JBool b) = b"
| "truthy (JInt n) = (n \<noteq> 0)"
| "truthy JFrac = True"
| "truthy (JStr s) = (s \<noteq> [])"
| "truthy (JArr xs) = True"
| "truthy (JObj fs) = True"

text \<open>
  Property access \<open>v.name\<close> for the (own) names the services read; \<open>undefined\<close> where the
  property is absent. The services only access properties of values they have checked to be truthy.
\<close>

fun jget :: "jv \<Rightarrow> string \<Rightarrow> jv" where
  "jget (JObj fs) name = (case map_of fs name of None \<Rightarrow> JUndef | Some v \<Rightarrow> v)"
| "jget _ name = JUndef"

definition max_safe :: int where
  [js_defs]: "max_safe = 9007199254740991"

definition safe_int :: "int \<Rightarrow> bool" where
  [js_defs]: "safe_int n \<longleftrightarrow> - max_safe \<le> n \<and> n \<le> max_safe"

lemma safe_int_max [simp]: "safe_int a \<Longrightarrow> safe_int b \<Longrightarrow> safe_int (max a b)"
  by (simp add: max_def)

fun isSafeInteger :: "jv \<Rightarrow> bool" where
  "isSafeInteger (JInt n) = safe_int n"
| "isSafeInteger _ = False"

fun jint :: "jv \<Rightarrow> int" where
  "jint (JInt n) = n"
| "jint _ = 0"

text \<open>\<open>typeof v === 'string'\<close>, \<open>Array.isArray(v)\<close> and "is a plain object", each with its contents.\<close>

fun jstr :: "jv \<Rightarrow> string option" where
  "jstr (JStr s) = Some s"
| "jstr _ = None"

fun jarr :: "jv \<Rightarrow> jv list option" where
  "jarr (JArr xs) = Some xs"
| "jarr _ = None"

fun jobj :: "jv \<Rightarrow> (string \<times> jv) list option" where
  "jobj (JObj fs) = Some fs"
| "jobj _ = None"

lemma jstr_Some_iff [simp]: "jstr v = Some s \<longleftrightarrow> v = JStr s"
  by (cases v) auto

lemma jarr_Some_iff [simp]: "jarr v = Some xs \<longleftrightarrow> v = JArr xs"
  by (cases v) auto

lemma jobj_Some_iff [simp]: "jobj v = Some fs \<longleftrightarrow> v = JObj fs"
  by (cases v) auto

lemma isSafeInteger_iff: "isSafeInteger v \<longleftrightarrow> v = JInt (jint v) \<and> safe_int (jint v)"
  by (cases v) auto

section \<open>Numbers as strings\<close>

text \<open>\<open>String(n)\<close> of an integer below \<open>10^21\<close>: its decimal digits, with a sign.\<close>

definition digit_char :: "nat \<Rightarrow> char" where
  "digit_char d = char_of (48 + d)"

fun js_nat_string :: "nat \<Rightarrow> string" where
  "js_nat_string n =
     (if n < 10 then [digit_char n] else js_nat_string (n div 10) @ [digit_char (n mod 10)])"

declare js_nat_string.simps [simp del]

definition js_int_string :: "int \<Rightarrow> string" where
  "js_int_string n =
     (if n < 0 then CHR ''-'' # js_nat_string (nat (- n)) else js_nat_string (nat n))"

definition read_dec :: "string \<Rightarrow> nat" where
  "read_dec s = foldl (\<lambda>a c. 10 * a + (of_char c - 48)) 0 s"

lemma of_char_digit [simp]: "d < 10 \<Longrightarrow> (of_char (digit_char d) :: nat) = 48 + d"
  by (simp add: digit_char_def)

lemma read_dec_snoc: "read_dec (s @ [c]) = 10 * read_dec s + (of_char c - 48)"
  by (simp add: read_dec_def)

lemma read_dec_js_nat_string: "read_dec (js_nat_string n) = n"
proof (induction n rule: js_nat_string.induct)
  case (1 n)
  show ?case
  proof (cases "n < 10")
    case True
    then show ?thesis by (simp add: js_nat_string.simps [of n] read_dec_def)
  next
    case False
    with 1 have "read_dec (js_nat_string (n div 10)) = n div 10" by simp
    with False show ?thesis by (simp add: js_nat_string.simps [of n] read_dec_snoc)
  qed
qed

lemma js_nat_string_inj [simp]: "js_nat_string m = js_nat_string n \<longleftrightarrow> m = n"
  by (metis read_dec_js_nat_string)

lemma js_nat_string_digits: "c \<in> set (js_nat_string n) \<Longrightarrow> \<exists>d < 10. c = digit_char d"
proof (induction n rule: js_nat_string.induct)
  case (1 n)
  have "n mod 10 < 10" by simp
  with 1 show ?case
    by (cases "n < 10") (force simp: js_nat_string.simps [of n])+
qed

lemma js_nat_string_nonempty [simp]: "js_nat_string n \<noteq> []"
  by (subst js_nat_string.simps) simp

lemma js_nat_string_not_minus: "CHR ''-'' \<notin> set (js_nat_string n)"
proof
  assume "CHR ''-'' \<in> set (js_nat_string n)"
  then obtain d where "d < 10" "CHR ''-'' = digit_char d"
    by (auto dest: js_nat_string_digits)
  then have "(of_char CHR ''-'' :: nat) = 48 + d" by simp
  then show False by simp
qed

lemma js_int_string_inj [simp]: "js_int_string a = js_int_string b \<longleftrightarrow> a = b"
proof
  assume eq: "js_int_string a = js_int_string b"
  have no: "js_nat_string n \<noteq> CHR ''-'' # s" for n s
    using js_nat_string_not_minus [of n] by auto
  have no': "CHR ''-'' # s \<noteq> js_nat_string n" for n s
    using no [of n s] by metis
  from eq show "a = b"
    by (auto simp: js_int_string_def no no' split: if_splits)
qed simp

section \<open>Strings\<close>

text \<open>
  \<open>String.prototype.trim\<close>, \<open>toLowerCase\<close> and \<open>split\<close> (with a one-character separator) on
  latin-1 strings: the white space below code 256 is tab to carriage return, space and
  no-break space; the upper-case letters are A-Z and the letters 192-222 other than the
  multiplication sign.
\<close>

definition js_ws :: "char \<Rightarrow> bool" where
  [js_defs]: "js_ws c \<longleftrightarrow>
     (let n = (of_char c :: nat) in (9 \<le> n \<and> n \<le> 13) \<or> n = 32 \<or> n = 160)"

definition js_trim :: "string \<Rightarrow> string" where
  [js_defs]: "js_trim s = rev (dropWhile js_ws (rev (dropWhile js_ws s)))"

definition js_lower_char :: "char \<Rightarrow> char" where
  [js_defs]: "js_lower_char c =
     (let n = (of_char c :: nat)
      in if (65 \<le> n \<and> n \<le> 90) \<or> (192 \<le> n \<and> n \<le> 222 \<and> n \<noteq> 215) then char_of (n + 32) else c)"

definition js_lower :: "string \<Rightarrow> string" where
  [js_defs]: "js_lower s = map js_lower_char s"

text \<open>\<open>parseInt(x, 10)\<close>; \<open>None\<close> is NaN.\<close>

definition is_digit :: "char \<Rightarrow> bool" where
  "is_digit c \<longleftrightarrow> 48 \<le> (of_char c :: nat) \<and> (of_char c :: nat) \<le> 57"

definition parseInt10 :: "string \<Rightarrow> int option" where
  "parseInt10 x =
     (let s = dropWhile js_ws x;
          neg = (s \<noteq> [] \<and> hd s = CHR ''-'');
          t = (if s \<noteq> [] \<and> hd s \<in> {CHR ''-'', CHR ''+''} then tl s else s);
          ds = takeWhile is_digit t
      in if ds = [] then None else Some (if neg then - int (read_dec ds) else int (read_dec ds)))"

fun js_split :: "char \<Rightarrow> string \<Rightarrow> string list" where
  "js_split c [] = [[]]"
| "js_split c (x # xs) =
     (if x = c then [] # js_split c xs
      else case js_split c xs of [] \<Rightarrow> [[x]] | w # ws \<Rightarrow> (x # w) # ws)"

lemma js_split_nonempty [simp]: "js_split c s \<noteq> []"
  by (induction s) (auto split: list.splits)

lemma js_split_no_sep: "w \<in> set (js_split c s) \<Longrightarrow> c \<notin> set w"
  by (induction s arbitrary: w) (auto split: if_splits list.splits)

lemma js_split_single: "c \<notin> set s \<Longrightarrow> js_split c s = [s]"
  by (induction s) auto

lemma js_split_append: "js_split c (a @ c # b) = js_split c a @ js_split c b"
  by (induction a) (auto split: list.splits)

lemma dropWhile_idem_last:
  "xs \<noteq> [] \<Longrightarrow> \<not> P (last xs) \<Longrightarrow> dropWhile P xs \<noteq> [] \<and> last (dropWhile P xs) = last xs"
  by (induction xs) auto

lemma js_trim_no_ws: "(\<forall>c \<in> set s. \<not> js_ws c) \<Longrightarrow> js_trim s = s"
proof -
  assume a: "\<forall>c \<in> set s. \<not> js_ws c"
  have keep: "dropWhile js_ws xs = xs" if "\<forall>c \<in> set xs. \<not> js_ws c" for xs
    using that by (cases xs) auto
  show ?thesis using keep [of s] keep [of "rev s"] a by (simp add: js_trim_def)
qed

text \<open>Counting the elements with a property after one is replaced.\<close>

lemma length_filter_update:
  "i < length xs \<Longrightarrow> length (filter P (xs[i := x])) + (if P (xs ! i) then 1 else 0)
     = length (filter P xs) + (if P x then 1 else 0)"
proof (induction xs arbitrary: i)
  case (Cons y xs)
  then show ?case using Cons.IH [of "i - 1"] by (cases i) auto
qed simp

section \<open>Insertion-ordered maps\<close>

type_synonym ('k, 'v) jmap = "('k \<times> 'v) list"

definition jm_wf :: "('k, 'v) jmap \<Rightarrow> bool" where
  "jm_wf m \<longleftrightarrow> distinct (map fst m)"

definition jm_get :: "('k, 'v) jmap \<Rightarrow> 'k \<Rightarrow> 'v option" where
  "jm_get m k = map_of m k"

text \<open>\<open>Map.prototype.set\<close> keeps the position of a key that is present and appends a new one.\<close>

fun jm_set :: "'k \<Rightarrow> 'v \<Rightarrow> ('k, 'v) jmap \<Rightarrow> ('k, 'v) jmap" where
  "jm_set k v [] = [(k, v)]"
| "jm_set k v (p # m) = (if fst p = k then (k, v) # m else p # jm_set k v m)"

definition jm_delete :: "'k \<Rightarrow> ('k, 'v) jmap \<Rightarrow> ('k, 'v) jmap" where
  "jm_delete k m = filter (\<lambda>p. fst p \<noteq> k) m"

text \<open>\<open>map.delete(map.keys().next().value)\<close>: drop the oldest key; nothing on an empty map.\<close>

definition jm_drop_oldest :: "('k, 'v) jmap \<Rightarrow> ('k, 'v) jmap" where
  "jm_drop_oldest m = (case m of [] \<Rightarrow> [] | (k, _) # _ \<Rightarrow> jm_delete k m)"

lemma jm_get_empty [jmap_simps]: "jm_get [] k = None"
  by (simp add: jm_get_def)

lemma jm_get_Cons [jmap_simps]: "jm_get (p # m) k = (if fst p = k then Some (snd p) else jm_get m k)"
  by (cases p) (simp add: jm_get_def)

lemma jm_get_set [jmap_simps]: "jm_get (jm_set k v m) k' = (if k' = k then Some v else jm_get m k')"
  by (induction m) (auto simp: jm_get_def)

lemma jm_get_delete [jmap_simps]: "jm_get (jm_delete k m) k' = (if k' = k then None else jm_get m k')"
  by (induction m) (auto simp: jm_get_def jm_delete_def)

lemma jm_keys_set: "fst ` set (jm_set k v m) = insert k (fst ` set m)"
  by (induction m) auto

lemma jm_wf_empty [simp]: "jm_wf []"
  by (simp add: jm_wf_def)

lemma jm_wf_set [simp]: "jm_wf m \<Longrightarrow> jm_wf (jm_set k v m)"
proof (induction m)
  case (Cons p m)
  then have "fst p \<notin> fst ` set m" and "jm_wf m" by (auto simp: jm_wf_def)
  with Cons.IH show ?case by (auto simp: jm_wf_def jm_keys_set)
qed (simp add: jm_wf_def)

lemma jm_wf_delete [simp]: "jm_wf m \<Longrightarrow> jm_wf (jm_delete k m)"
  unfolding jm_wf_def jm_delete_def by (induction m) auto

lemma jm_wf_drop_oldest [simp]: "jm_wf m \<Longrightarrow> jm_wf (jm_drop_oldest m)"
  by (auto simp: jm_drop_oldest_def split: list.split)

lemma jm_get_None_iff: "jm_get m k = None \<longleftrightarrow> k \<notin> fst ` set m"
  by (simp add: jm_get_def map_of_eq_None_iff)

lemma jm_get_in_set: "jm_get m k = Some v \<Longrightarrow> (k, v) \<in> set m"
  by (auto simp: jm_get_def dest: map_of_SomeD)

lemma jm_get_wf: "jm_wf m \<Longrightarrow> (k, v) \<in> set m \<Longrightarrow> jm_get m k = Some v"
  by (simp add: jm_get_def jm_wf_def)

lemma jm_set_entries: "p \<in> set (jm_set k v m) \<Longrightarrow> p = (k, v) \<or> p \<in> set m"
  by (induction m) (auto split: if_splits)

lemma jm_length_le:
  assumes "jm_wf m" and "fst ` set m \<subseteq> K" and "finite K"
  shows "length m \<le> card K"
proof -
  have "length m = card (set (map fst m))"
    using assms(1) distinct_card [of "map fst m"] by (simp add: jm_wf_def)
  also have "\<dots> \<le> card K" using assms by (intro card_mono) auto
  finally show ?thesis .
qed

lemma jm_size_set [jmap_simps]:
  "length (jm_set k v m) = (if jm_get m k = None then Suc (length m) else length m)"
  by (induction m) (auto simp: jm_get_def)

lemma jm_drop_oldest_wf: "jm_wf m \<Longrightarrow> jm_drop_oldest m = tl m"
proof (cases m)
  case (Cons p m')
  assume "jm_wf m"
  with Cons have "fst p \<notin> fst ` set m'" by (auto simp: jm_wf_def)
  then have "filter (\<lambda>q. fst q \<noteq> fst p) m' = m'" by (intro filter_True) (metis imageI)
  with Cons show ?thesis by (cases p) (simp add: jm_drop_oldest_def jm_delete_def)
qed (simp add: jm_drop_oldest_def)

lemma jm_set_absent: "jm_get m k = None \<Longrightarrow> jm_set k v m = m @ [(k, v)]"
  by (induction m) (auto simp: jm_get_def split: if_splits)

section \<open>Results\<close>

text \<open>A thrown exception is \<open>Inl\<close>, a returned value \<open>Inr\<close>; \<open>guard\<close> throws unless its condition holds.\<close>

definition bind_res :: "'e + 'a \<Rightarrow> ('a \<Rightarrow> 'e + 'b) \<Rightarrow> 'e + 'b" where
  "bind_res r f = (case r of Inl e \<Rightarrow> Inl e | Inr x \<Rightarrow> f x)"

lemma bind_res_simps [simp]:
  "bind_res (Inl e) f = Inl e"
  "bind_res (Inr x) f = f x"
  by (simp_all add: bind_res_def)

lemma map_sum_eq_Inr [simp]: "map_sum f g s = Inr y \<longleftrightarrow> (\<exists>x. s = Inr x \<and> y = g x)"
  by (cases s) auto

lemma map_sum_eq_Inl [simp]: "map_sum f g s = Inl y \<longleftrightarrow> (\<exists>x. s = Inl x \<and> y = f x)"
  by (cases s) auto

lemma bind_res_Inr_iff: "bind_res r f = Inr y \<longleftrightarrow> (\<exists>x. r = Inr x \<and> f x = Inr y)"
  by (cases r) auto

end
