(* ===== verification/StateStore.thy ===== *)
theory StateStore
  imports Prelude
begin

text \<open>
  The issuer's device state (\<^verbatim>\<open>token-issuer/state-store.js\<close>): one row per salted device
  key holding the registered public key, the assertion counter and the per-epoch issuance counts.
  \<open>reserve\<close> is the only operation that changes a row; it reads the row, decides, and writes
  back under compare-and-set on the row's etag, up to four times.

  Modelled here: \<open>checked\<close>, \<open>getAttestedKey\<close>, \<open>reserve\<close>, and the in-memory backend; the table
  backend is in \<open>TableBackend\<close>. The interface between \<open>reserve\<close> and a backend is
  the locale \<open>device_backend\<close>. Several concurrent reservations are the step relation
  \<open>rsv_step\<close>: every \<open>await\<close> is a point where another reservation may run.
\<close>

section \<open>Rows\<close>

datatype state_error = StateUnavailable | TypeError

text \<open>
  The checked view of a stored row. \<open>quota\<close> is the object whose keys are decimal epoch numbers.
\<close>

record device_record =
  commitID :: jv
  publicKeyPem :: string
  signCount :: int
  latestEpoch :: int
  quota_of :: "(string, int) jmap"

definition quota_entry_bad :: "int \<Rightarrow> string \<times> jv \<Rightarrow> bool" where
  "quota_entry_bad latest e \<longleftrightarrow>
     fst e \<notin> {js_int_string latest, js_int_string (latest - 1)}
     \<or> \<not> isSafeInteger (snd e) \<or> jint (snd e) < 0"

text \<open>\<open>checked(record)\<close>: every test of the source, in its order; \<open>Inl\<close> where it throws.\<close>

definition checked :: "jv \<Rightarrow> state_error + device_record" where
  "checked rec =
     (if \<not> truthy rec \<or> jget rec ''version'' \<noteq> JInt 1 then Inl StateUnavailable
      else case jstr (jget rec ''publicKeyPem'') of
        None \<Rightarrow> Inl StateUnavailable
      | Some pem \<Rightarrow>
          if int (length pem) > 4096 then Inl StateUnavailable
          else if \<not> isSafeInteger (jget rec ''signCount'') \<or> jint (jget rec ''signCount'') < 0
            then Inl StateUnavailable
          else if \<not> isSafeInteger (jget rec ''latestEpoch'') \<or> jint (jget rec ''latestEpoch'') < 0
            then Inl StateUnavailable
          else (case jobj (jget rec ''quota'') of
            None \<Rightarrow> Inl StateUnavailable
          | Some es \<Rightarrow>
              if length es > 2 \<or> (\<exists>e \<in> set es. quota_entry_bad (jint (jget rec ''latestEpoch'')) e)
              then Inl StateUnavailable
              else Inr \<lparr>commitID = jget rec ''commitID'', publicKeyPem = pem,
                        signCount = jint (jget rec ''signCount''),
                        latestEpoch = jint (jget rec ''latestEpoch''),
                        quota_of = map (\<lambda>(k, v). (k, jint v)) es\<rparr>))"

text \<open>The object literal \<open>{ version: 1, commitID, publicKeyPem, signCount, latestEpoch, quota }\<close>.\<close>

definition encode_record :: "device_record \<Rightarrow> jv" where
  "encode_record r = JObj
     [(''version'', JInt 1), (''commitID'', commitID r), (''publicKeyPem'', JStr (publicKeyPem r)),
      (''signCount'', JInt (signCount r)), (''latestEpoch'', JInt (latestEpoch r)),
      (''quota'', JObj (map (\<lambda>(k, c). (k, JInt c)) (quota_of r)))]"

text \<open>The invariant of a row: what \<open>checked\<close> accepts, read back as a record.\<close>

definition record_wf :: "device_record \<Rightarrow> bool" where
  "record_wf r \<longleftrightarrow>
     int (length (publicKeyPem r)) \<le> 4096
     \<and> safe_int (signCount r) \<and> 0 \<le> signCount r
     \<and> safe_int (latestEpoch r) \<and> 0 \<le> latestEpoch r
     \<and> length (quota_of r) \<le> 2
     \<and> (\<forall>(k, c) \<in> set (quota_of r).
          k \<in> {js_int_string (latestEpoch r), js_int_string (latestEpoch r - 1)}
          \<and> safe_int c \<and> 0 \<le> c)"

lemma checked_wf:
  assumes "checked v = Inr r"
  shows "record_wf r"
  using assms unfolding checked_def
  by (auto simp: record_wf_def quota_entry_bad_def isSafeInteger_iff
      split: if_splits option.splits) fastforce+

lemma checked_encode: "record_wf r \<Longrightarrow> checked (encode_record r) = Inr r"
  by (cases r) (force simp: checked_def encode_record_def record_wf_def quota_entry_bad_def
      comp_def case_prod_beta)

section \<open>The reservation decision\<close>

record reserve_request =
  rq_keyId :: string
  rq_mode :: string
  rq_pem :: string
  rq_signCount :: int
  rq_epoch :: int
  rq_count :: int

datatype reserve_result = ReserveOk | ReserveFail string

datatype decision = Throw | Reject string | Commit device_record

text \<open>The argument check at the head of \<open>reserve\<close>.\<close>

definition request_ok :: "reserve_request \<Rightarrow> bool" where
  "request_ok q \<longleftrightarrow>
     rq_mode q \<in> {''attestation'', ''assertion''}
     \<and> safe_int (rq_signCount q) \<and> 0 \<le> rq_signCount q
     \<and> safe_int (rq_epoch q) \<and> 0 \<le> rq_epoch q
     \<and> safe_int (rq_count q) \<and> 1 \<le> rq_count q
     \<and> int (length (rq_pem q)) \<le> 4096"

text \<open>\<open>a || b\<close> on numbers: the left operand unless it is zero.\<close>

definition num_or :: "int \<Rightarrow> int \<Rightarrow> int" where
  "num_or a b = (if a = 0 then b else a)"

definition used_count :: "device_record option \<Rightarrow> int \<Rightarrow> int" where
  "used_count rec epoch =
     (case rec of None \<Rightarrow> 0
      | Some r \<Rightarrow> (case jm_get (quota_of r) (js_int_string epoch) of None \<Rightarrow> 0 | Some c \<Rightarrow> num_or c 0))"

text \<open>
  The loop \<open>for (const id of [latestEpoch, latestEpoch - 1])\<close> that copies the counts still live,
  followed by \<open>counts[epoch] = used + count\<close>.
\<close>

definition live_counts :: "device_record option \<Rightarrow> int \<Rightarrow> (string, int) jmap" where
  "live_counts rec latest =
     fold (\<lambda>id m. if used_count rec id \<noteq> 0 then jm_set (js_int_string id) (used_count rec id) m else m)
       [latest, latest - 1] []"

definition latest_of :: "reserve_request \<Rightarrow> device_record option \<Rightarrow> int" where
  "latest_of q rec =
     max (rq_epoch q) (case rec of None \<Rightarrow> rq_epoch q | Some r \<Rightarrow> num_or (latestEpoch r) (rq_epoch q))"

text \<open>The value a successful reservation stores.\<close>

definition commit_record :: "reserve_request \<Rightarrow> string \<Rightarrow> device_record option \<Rightarrow> device_record" where
  "commit_record q cid rec =
     \<lparr>commitID = JStr cid, publicKeyPem = rq_pem q,
      signCount = max (rq_signCount q) (case rec of None \<Rightarrow> 0 | Some r \<Rightarrow> num_or (signCount r) 0),
      latestEpoch = latest_of q rec,
      quota_of = jm_set (js_int_string (rq_epoch q)) (used_count rec (rq_epoch q) + rq_count q)
                   (live_counts rec (latest_of q rec))\<rparr>"

text \<open>
  One iteration of the loop of \<open>reserve\<close> between the read and the write: \<open>prior\<close> is the row just
  read (its value), \<open>cid\<close> the \<open>commitID\<close> drawn for this call, \<open>quota\<close> the per-epoch limit
  (zero switches it off).
\<close>

definition reserve_decide :: "int \<Rightarrow> reserve_request \<Rightarrow> string \<Rightarrow> jv option \<Rightarrow> decision" where
  "reserve_decide quota q cid prior =
     (case (case prior of None \<Rightarrow> Inr None | Some v \<Rightarrow> map_sum id Some (checked v)) of
        Inl _ \<Rightarrow> Throw
      | Inr rec \<Rightarrow>
          if rq_mode q = ''assertion'' \<and> rec = None then Reject ''unknown_device_key''
          else if (case rec of None \<Rightarrow> False | Some r \<Rightarrow> publicKeyPem r \<noteq> rq_pem q) then Reject ''key_mismatch''
          else if rq_mode q = ''assertion'' \<and> (case rec of None \<Rightarrow> False | Some r \<Rightarrow> rq_signCount q \<le> signCount r)
            then Reject ''replayed_assertion''
          else if rq_epoch q < latest_of q rec - 1 then Reject ''expired_epoch''
          else if \<not> safe_int (used_count rec (rq_epoch q) + rq_count q) then Throw
          else if quota > 0 \<and> used_count rec (rq_epoch q) + rq_count q > quota then Reject ''quota_exceeded''
          else Commit (commit_record q cid rec))"

lemma num_or_zero [simp]: "num_or a 0 = a"
  by (simp add: num_or_def)

lemma used_count_None [simp]: "used_count None e = 0"
  by (simp add: used_count_def)

text \<open>The row a decision was taken from, as the optional record \<open>checked\<close> returned.\<close>

definition prior_record :: "jv option \<Rightarrow> device_record option \<Rightarrow> bool" where
  "prior_record prior rec \<longleftrightarrow>
     (case prior of None \<Rightarrow> rec = None | Some v \<Rightarrow> (\<exists>r. checked v = Inr r \<and> rec = Some r))"

lemma prior_record_simps [simp]:
  "prior_record None rec \<longleftrightarrow> rec = None"
  "prior_record (Some v) rec \<longleftrightarrow> (\<exists>r. checked v = Inr r \<and> rec = Some r)"
  by (simp_all add: prior_record_def)

lemma prior_record_wf: "prior_record prior (Some r) \<Longrightarrow> record_wf r"
  by (cases prior) (auto dest: checked_wf)

lemma latest_of_eq:
  "rq_epoch q \<ge> 0 \<Longrightarrow> (\<And>r. rec = Some r \<Longrightarrow> record_wf r) \<Longrightarrow>
   latest_of q rec = (case rec of None \<Rightarrow> rq_epoch q | Some r \<Rightarrow> max (rq_epoch q) (latestEpoch r))"
  by (auto simp: latest_of_def num_or_def record_wf_def split: option.splits)

text \<open>What a committed decision guarantees, with the conditions of every earlier branch.\<close>

lemma decide_CommitE:
  assumes "reserve_decide quota q cid prior = Commit r'"
  obtains rec where "prior_record prior rec"
    and "rq_mode q = ''assertion'' \<Longrightarrow> \<exists>r. rec = Some r \<and> signCount r < rq_signCount q"
    and "\<And>r. rec = Some r \<Longrightarrow> publicKeyPem r = rq_pem q"
    and "latest_of q rec - 1 \<le> rq_epoch q"
    and "safe_int (used_count rec (rq_epoch q) + rq_count q)"
    and "quota > 0 \<Longrightarrow> used_count rec (rq_epoch q) + rq_count q \<le> quota"
    and "r' = commit_record q cid rec"
proof -
  obtain rec where prior: "prior_record prior rec"
    and rec: "(case prior of None \<Rightarrow> Inr None | Some v \<Rightarrow> map_sum id Some (checked v)) = (Inr rec :: state_error + _)"
    using assms unfolding reserve_decide_def prior_record_def
    by (cases prior) (auto split: sum.splits simp: map_sum_def)
  show ?thesis
    using assms prior unfolding reserve_decide_def rec
    by (intro that [of rec]) (auto split: if_splits option.splits)
qed

lemma used_count_live:
  "jm_get (live_counts rec latest) (js_int_string e) =
     (if e \<in> {latest, latest - 1} \<and> used_count rec e \<noteq> 0 then Some (used_count rec e) else None)"
  by (auto simp: live_counts_def jmap_simps)

lemma used_count_Commit:
  assumes "quota_of r' = jm_set (js_int_string e0) n (live_counts rec latest)"
  shows "used_count (Some r') e =
     (if e = e0 then n else if e \<in> {latest, latest - 1} then used_count rec e else 0)"
  unfolding used_count_def [of "Some r'"] using assms
  by (simp add: jmap_simps used_count_live)

lemma live_counts_entries:
  "(k, c) \<in> set (live_counts rec latest) \<Longrightarrow>
   \<exists>id \<in> {latest, latest - 1}. k = js_int_string id \<and> c = used_count rec id"
  by (auto simp: live_counts_def split: if_splits)

lemma live_counts_length: "length (live_counts rec latest) \<le> 2"
  by (simp add: live_counts_def)

lemma live_counts_wf: "jm_wf (live_counts rec latest)"
  by (simp add: live_counts_def jm_wf_def)

lemma used_count_safe:
  assumes "\<And>r. rec = Some r \<Longrightarrow> record_wf r"
  shows "0 \<le> used_count rec e" and "safe_int (used_count rec e)"
  using assms
  by (auto simp: used_count_def record_wf_def safe_int_def max_safe_def
      split: option.splits dest!: jm_get_in_set)

lemma commit_wf:
  assumes c: "reserve_decide quota q cid prior = Commit r'" and ok: "request_ok q"
  shows "record_wf r'"
proof -
  from c obtain rec where rec: "prior_record prior rec"
    and live: "latest_of q rec - 1 \<le> rq_epoch q"
    and safe: "safe_int (used_count rec (rq_epoch q) + rq_count q)"
    and r'_eq: "r' = commit_record q cid rec"
    by (rule decide_CommitE) blast
  note r' = r'_eq [unfolded commit_record_def num_or_zero]
  have wf: "record_wf r" if "rec = Some r" for r
    using rec that prior_record_wf by blast
  define L where "L = latest_of q rec"
  have L: "L = (case rec of None \<Rightarrow> rq_epoch q | Some r \<Rightarrow> max (rq_epoch q) (latestEpoch r))"
    unfolding L_def using ok wf by (intro latest_of_eq) (auto simp: request_ok_def)
  have Lsafe: "safe_int L" "0 \<le> L"
    using ok wf unfolding L by (auto simp: request_ok_def record_wf_def split: option.splits)
  have mem: "rq_epoch q \<in> {L, L - 1}"
    using live unfolding L_def [symmetric] by (auto simp: L split: option.splits)
  let ?K = "{js_int_string L, js_int_string (L - 1)}"
  have entries: "k \<in> ?K \<and> safe_int n \<and> 0 \<le> n" if "(k, n) \<in> set (quota_of r')" for k n
    using that mem safe ok used_count_safe [of rec, OF wf]
    by (auto simp: r' L_def [symmetric] request_ok_def dest!: jm_set_entries live_counts_entries)
  have "fst ` set (quota_of r') \<subseteq> ?K" using entries by (auto dest!: entries)
  then have "length (quota_of r') \<le> card ?K"
    by (intro jm_length_le) (auto simp: r' live_counts_wf)
  also have "card ?K \<le> 2" by (simp add: card_insert_if)
  finally have len: "length (quota_of r') \<le> 2" .
  have sc: "safe_int (signCount r')" "0 \<le> signCount r'"
    using ok wf by (auto simp: r' request_ok_def record_wf_def max_def split: option.splits)
  show ?thesis
    unfolding record_wf_def using entries len sc Lsafe ok
    by (auto simp: r' L_def request_ok_def)
qed

section \<open>The backend interface\<close>

text \<open>
  What \<open>reserve\<close> relies on. \<open>bget\<close> and \<open>bput\<close> are the two operations, \<open>row\<close> the rows a
  backend holds and \<open>etag_for\<close> says that an etag, once handed out for a value, is never reused
  for another. A write that returns \<open>true\<close> replaced the row whose etag the caller named; one
  that returns \<open>false\<close> changed nothing; one that throws may or may not have been applied.
\<close>

locale device_backend =
  fixes bget :: "'s \<Rightarrow> string \<Rightarrow> (state_error + (string \<times> jv) option) \<times> 's"
    and bput :: "'s \<Rightarrow> string \<Rightarrow> string option \<Rightarrow> jv \<Rightarrow> (state_error + bool) \<times> 's"
    and row :: "'s \<Rightarrow> string \<Rightarrow> (string \<times> jv) option"
    and inv :: "'s \<Rightarrow> bool"
    and etag_for :: "'s \<Rightarrow> string \<Rightarrow> string \<Rightarrow> jv \<Rightarrow> bool"
  assumes get_row: "inv s \<Longrightarrow> bget s k = (Inr r, s') \<Longrightarrow> r = row s k"
    and get_keep: "inv s \<Longrightarrow> bget s k = (x, s') \<Longrightarrow> inv s' \<and> row s' = row s"
    and get_etag: "inv s \<Longrightarrow> bget s k = (x, s') \<Longrightarrow> etag_for s l e v \<Longrightarrow> etag_for s' l e v"
    and put_inv: "inv s \<Longrightarrow> bput s k eo v = (y, s') \<Longrightarrow> inv s'"
    and put_etag: "inv s \<Longrightarrow> bput s k eo v' = (y, s') \<Longrightarrow> etag_for s l e v \<Longrightarrow> etag_for s' l e v"
    and put_true: "inv s \<Longrightarrow> bput s k eo v = (Inr True, s') \<Longrightarrow>
          map_option fst (row s k) = eo \<and> (\<exists>e'. row s' = (row s)(k \<mapsto> (e', v)))"
    and put_false: "inv s \<Longrightarrow> bput s k eo v = (Inr False, s') \<Longrightarrow> row s' = row s"
    and put_throw: "inv s \<Longrightarrow> bput s k eo v = (Inl z, s') \<Longrightarrow> row s' = row s \<or>
          map_option fst (row s k) = eo \<and> (\<exists>e'. row s' = (row s)(k \<mapsto> (e', v)))"
    and etag_row: "inv s \<Longrightarrow> row s k = Some (e, v) \<Longrightarrow> etag_for s k e v"
    and etag_unique: "inv s \<Longrightarrow> etag_for s k e v \<Longrightarrow> row s k = Some (e, v') \<Longrightarrow> v' = v"

section \<open>The in-memory backend\<close>

record mem_backend =
  mb_rows :: "(string, string \<times> jv) jmap"
  mb_revision :: nat

definition memoryDeviceBackend :: mem_backend where
  "memoryDeviceBackend = \<lparr>mb_rows = [], mb_revision = 0\<rparr>"

definition mem_get :: "mem_backend \<Rightarrow> string \<Rightarrow> (state_error + (string \<times> jv) option) \<times> mem_backend" where
  "mem_get s k = (Inr (jm_get (mb_rows s) k), s)"

definition mem_put :: "nat \<Rightarrow> mem_backend \<Rightarrow> string \<Rightarrow> string option \<Rightarrow> jv
    \<Rightarrow> (state_error + bool) \<times> mem_backend" where
  "mem_put maxKeys s k etag v =
     (if map_option fst (jm_get (mb_rows s) k) \<noteq> etag then (Inr False, s)
      else if jm_get (mb_rows s) k = None \<and> length (mb_rows s) \<ge> maxKeys then (Inl StateUnavailable, s)
      else (Inr True, s\<lparr>mb_rows := jm_set k (js_nat_string (Suc (mb_revision s)), v) (mb_rows s),
                         mb_revision := Suc (mb_revision s)\<rparr>))"

definition mem_inv :: "mem_backend \<Rightarrow> bool" where
  "mem_inv s \<longleftrightarrow> jm_wf (mb_rows s) \<and>
     (\<forall>k e v. jm_get (mb_rows s) k = Some (e, v) \<longrightarrow> (\<exists>n \<le> mb_revision s. e = js_nat_string n))"

definition mem_etag_for :: "mem_backend \<Rightarrow> string \<Rightarrow> string \<Rightarrow> jv \<Rightarrow> bool" where
  "mem_etag_for s k e v \<longleftrightarrow> (\<exists>n \<le> mb_revision s. e = js_nat_string n) \<and>
     (\<forall>v'. jm_get (mb_rows s) k = Some (e, v') \<longrightarrow> v' = v)"

interpretation mem: device_backend mem_get "mem_put maxKeys" "\<lambda>s. jm_get (mb_rows s)" mem_inv mem_etag_for
  for maxKeys
proof (unfold_locales, goal_cases)
  case (6 s k e v s')
  then show ?case by (auto simp: mem_put_def fun_eq_iff jmap_simps split: if_splits)
next
  case (4 s k e v x s')
  then show ?case
    by (auto simp: mem_put_def mem_inv_def jmap_simps split: if_splits) (metis le_SucI)+
next
  case (5 s k e' v' x s' l e v)
  then show ?case
    by (auto simp: mem_put_def mem_etag_for_def jmap_simps split: if_splits)
qed (auto simp: mem_get_def mem_put_def mem_inv_def mem_etag_for_def split: if_splits)

section \<open>reserve and getAttestedKey\<close>

text \<open>
  One call of \<open>reserve\<close> alone: \<open>others n\<close> is what the rest of the system does to the backend at
  the \<open>n\<close>-th \<open>await\<close> of this call, so every interleaving with other calls is some \<open>others\<close>.
  \<open>fuel\<close> is the number of attempts left; the source makes four.
\<close>

fun reserve_loop :: "('s \<Rightarrow> string \<Rightarrow> (state_error + (string \<times> jv) option) \<times> 's)
    \<Rightarrow> ('s \<Rightarrow> string \<Rightarrow> string option \<Rightarrow> jv \<Rightarrow> (state_error + bool) \<times> 's)
    \<Rightarrow> (nat \<Rightarrow> 's \<Rightarrow> 's) \<Rightarrow> int \<Rightarrow> reserve_request \<Rightarrow> string \<Rightarrow> string \<Rightarrow> nat \<Rightarrow> nat \<Rightarrow> 's
    \<Rightarrow> (state_error + reserve_result) \<times> 's" where
  "reserve_loop bget bput others quota q key cid attempt 0 s = (Inl StateUnavailable, s)"
| "reserve_loop bget bput others quota q key cid attempt (Suc fuel) s =
     (case bget (others (2 * attempt) s) key of
        (Inl e, s1) \<Rightarrow> (Inl e, s1)
      | (Inr prior, s1) \<Rightarrow>
          (case reserve_decide quota q cid (map_option snd prior) of
             Throw \<Rightarrow> (Inl StateUnavailable, s1)
           | Reject why \<Rightarrow> (Inr (ReserveFail why), s1)
           | Commit rec \<Rightarrow>
               (case bput (others (2 * attempt + 1) s1) key (map_option fst prior) (encode_record rec) of
                  (Inl e, s2) \<Rightarrow> (Inl e, s2)
                | (Inr ok, s2) \<Rightarrow>
                    if ok then (Inr ReserveOk, s2)
                    else reserve_loop bget bput others quota q key cid (Suc attempt) fuel s2)))"

definition reserve :: "('s \<Rightarrow> string \<Rightarrow> (state_error + (string \<times> jv) option) \<times> 's)
    \<Rightarrow> ('s \<Rightarrow> string \<Rightarrow> string option \<Rightarrow> jv \<Rightarrow> (state_error + bool) \<times> 's)
    \<Rightarrow> (nat \<Rightarrow> 's \<Rightarrow> 's) \<Rightarrow> int \<Rightarrow> (string \<Rightarrow> string) \<Rightarrow> reserve_request \<Rightarrow> string \<Rightarrow> 's
    \<Rightarrow> (state_error + reserve_result) \<times> 's" where
  "reserve bget bput others quota keyFor q cid s =
     (if \<not> request_ok q then (Inl StateUnavailable, s)
      else reserve_loop bget bput others quota q (keyFor (rq_keyId q)) cid 0 4 s)"

definition getAttestedKey :: "('s \<Rightarrow> string \<Rightarrow> (state_error + (string \<times> jv) option) \<times> 's)
    \<Rightarrow> (string \<Rightarrow> string) \<Rightarrow> string \<Rightarrow> 's \<Rightarrow> (state_error + (string \<times> int) option) \<times> 's" where
  "getAttestedKey bget keyFor keyId s =
     (case bget s (keyFor keyId) of
        (Inl e, s') \<Rightarrow> (Inl e, s')
      | (Inr None, s') \<Rightarrow> (Inr None, s')
      | (Inr (Some (_, v)), s') \<Rightarrow>
          (map_sum id (\<lambda>r. Some (publicKeyPem r, signCount r)) (checked v), s'))"

section \<open>Concurrent reservations\<close>

text \<open>
  A reservation in flight is waiting for its read (\<open>Reading\<close>) or for its write (\<open>Writing\<close>, with
  the row it read and the record it wants to store). \<open>commits\<close> is a ghost log of the writes that
  changed a row, newest first, with the session that made each.
\<close>

datatype phase =
    Idle
  | Reading reserve_request string nat
  | Writing reserve_request string nat "(string \<times> jv) option" device_record
  | Finished reserve_request "state_error + reserve_result"

record 's rsv_sys =
  store :: 's
  sess :: "nat \<Rightarrow> phase"
  commits :: "(nat \<times> reserve_request) list"

fun after_read :: "int \<Rightarrow> reserve_request \<Rightarrow> string \<Rightarrow> nat \<Rightarrow> state_error + (string \<times> jv) option \<Rightarrow> phase" where
  "after_read quota q cid n (Inl e) = Finished q (Inl e)"
| "after_read quota q cid n (Inr prior) =
     (case reserve_decide quota q cid (map_option snd prior) of
        Throw \<Rightarrow> Finished q (Inl StateUnavailable)
      | Reject why \<Rightarrow> Finished q (Inr (ReserveFail why))
      | Commit rec \<Rightarrow> Writing q cid n prior rec)"

fun after_write :: "reserve_request \<Rightarrow> string \<Rightarrow> nat \<Rightarrow> state_error + bool \<Rightarrow> phase" where
  "after_write q cid n (Inl e) = Finished q (Inl e)"
| "after_write q cid n (Inr ok) =
     (if ok then Finished q (Inr ReserveOk)
      else if n < 3 then Reading q cid (Suc n) else Finished q (Inl StateUnavailable))"

inductive rsv_step for bget bput row keyFor quota where
  start: "sess \<sigma> i = Idle \<Longrightarrow> request_ok q \<Longrightarrow>
    rsv_step bget bput row keyFor quota \<sigma> (\<sigma>\<lparr>sess := (sess \<sigma>)(i := Reading q cid 0)\<rparr>)"
| refuse: "sess \<sigma> i = Idle \<Longrightarrow> \<not> request_ok q \<Longrightarrow>
    rsv_step bget bput row keyFor quota \<sigma> (\<sigma>\<lparr>sess := (sess \<sigma>)(i := Finished q (Inl StateUnavailable))\<rparr>)"
| get: "sess \<sigma> i = Reading q cid n \<Longrightarrow> bget (store \<sigma>) (keyFor (rq_keyId q)) = (res, s') \<Longrightarrow>
    rsv_step bget bput row keyFor quota \<sigma>
      (\<sigma>\<lparr>store := s', sess := (sess \<sigma>)(i := after_read quota q cid n res)\<rparr>)"
| put: "sess \<sigma> i = Writing q cid n prior rec \<Longrightarrow>
    bput (store \<sigma>) (keyFor (rq_keyId q)) (map_option fst prior) (encode_record rec) = (res, s') \<Longrightarrow>
    rsv_step bget bput row keyFor quota \<sigma>
      (\<sigma>\<lparr>store := s', sess := (sess \<sigma>)(i := after_write q cid n res),
         commits := (if res = Inr True \<or> row s' (keyFor (rq_keyId q)) \<noteq> row (store \<sigma>) (keyFor (rq_keyId q))
                     then [(i, q)] else []) @ commits \<sigma>\<rparr>)"

inductive rsv_reachable for bget bput row keyFor quota s0 where
  init: "rsv_reachable bget bput row keyFor quota s0 \<lparr>store = s0, sess = (\<lambda>_. Idle), commits = []\<rparr>"
| step: "rsv_reachable bget bput row keyFor quota s0 \<sigma> \<Longrightarrow>
    rsv_step bget bput row keyFor quota \<sigma> \<sigma>' \<Longrightarrow> rsv_reachable bget bput row keyFor quota s0 \<sigma>'"

subsection \<open>What the commit log says about a row\<close>

definition key_total :: "(string \<Rightarrow> string) \<Rightarrow> (nat \<times> reserve_request) list \<Rightarrow> string \<Rightarrow> int \<Rightarrow> int" where
  "key_total keyFor cs k e =
     sum_list (map (\<lambda>(i, q). if keyFor (rq_keyId q) = k \<and> rq_epoch q = e then rq_count q else 0) cs)"

lemma key_total_simps [simp]:
  "key_total keyFor [] k e = 0"
  "key_total keyFor ((i, q) # cs) k e =
     (if keyFor (rq_keyId q) = k \<and> rq_epoch q = e then rq_count q else 0) + key_total keyFor cs k e"
  by (simp_all add: key_total_def)

text \<open>Every assertion in the log carries a counter above all older ones of its device.\<close>

fun counters_increase :: "(string \<Rightarrow> string) \<Rightarrow> (nat \<times> reserve_request) list \<Rightarrow> bool" where
  "counters_increase keyFor [] = True"
| "counters_increase keyFor (c # cs) =
     (counters_increase keyFor cs \<and>
      (rq_mode (snd c) = ''assertion'' \<longrightarrow>
         (\<forall>(j, q) \<in> set cs. keyFor (rq_keyId q) = keyFor (rq_keyId (snd c)) \<longrightarrow>
            rq_signCount q < rq_signCount (snd c))))"

definition row_ok :: "(string \<Rightarrow> string) \<Rightarrow> int \<Rightarrow> (nat \<times> reserve_request) list \<Rightarrow> string \<Rightarrow> jv option \<Rightarrow> bool" where
  "row_ok keyFor quota cs k v \<longleftrightarrow>
     (quota > 0 \<longrightarrow> (\<forall>e. key_total keyFor cs k e \<le> quota)) \<and>
     (\<forall>(i, q) \<in> set cs. request_ok q) \<and>
     (case v of
        None \<Rightarrow> (\<forall>(i, q) \<in> set cs. keyFor (rq_keyId q) \<noteq> k)
      | Some v \<Rightarrow> (\<exists>r. checked v = Inr r \<and>
          (\<forall>e \<ge> latestEpoch r - 1. key_total keyFor cs k e = used_count (Some r) e) \<and>
          (\<forall>(i, q) \<in> set cs. keyFor (rq_keyId q) = k \<longrightarrow> rq_signCount q \<le> signCount r)))"

lemma key_total_absent:
  "\<forall>(i, q) \<in> set cs. keyFor (rq_keyId q) \<noteq> k \<Longrightarrow> key_total keyFor cs k e = 0"
  by (induction cs) auto

lemma used_count_above:
  assumes "record_wf r" and "e > latestEpoch r"
  shows "used_count (Some r) e = 0"
proof (cases "jm_get (quota_of r) (js_int_string e)")
  case (Some c)
  then have "(js_int_string e, c) \<in> set (quota_of r)" by (rule jm_get_in_set)
  with assms show ?thesis by (force simp: record_wf_def)
qed (simp add: used_count_def)

text \<open>
  Committing a decision taken from the current row keeps the relation between row and log: this
  is the whole argument for the quota, independent of any backend.
\<close>

lemma row_ok_commit:
  assumes ok: "row_ok keyFor quota cs k prior"
    and c: "reserve_decide quota q cid prior = Commit r'"
    and q: "request_ok q" and k: "keyFor (rq_keyId q) = k"
  shows "row_ok keyFor quota ((i, q) # cs) k (Some (encode_record r'))"
    and "rq_mode q = ''assertion'' \<Longrightarrow>
      \<forall>(j, q') \<in> set cs. keyFor (rq_keyId q') = k \<longrightarrow> rq_signCount q' < rq_signCount q"
proof -
  from c obtain rec where rec: "prior_record prior rec"
    and mode: "rq_mode q = ''assertion'' \<Longrightarrow> \<exists>r. rec = Some r \<and> signCount r < rq_signCount q"
    and live: "latest_of q rec - 1 \<le> rq_epoch q"
    and lim: "quota > 0 \<Longrightarrow> used_count rec (rq_epoch q) + rq_count q \<le> quota"
    and r'_eq: "r' = commit_record q cid rec"
    by (rule decide_CommitE) blast
  note r' = r'_eq [unfolded commit_record_def num_or_zero]
  have wf: "record_wf r" if "rec = Some r" for r
    using rec that prior_record_wf by blast
  have L: "latest_of q rec = (case rec of None \<Rightarrow> rq_epoch q | Some r \<Rightarrow> max (rq_epoch q) (latestEpoch r))"
    using q wf by (intro latest_of_eq) (auto simp: request_ok_def)
  have tot: "key_total keyFor cs k e = used_count rec e" if "e \<ge> latest_of q rec - 1" for e
    using ok rec that
    by (auto simp: row_ok_def L key_total_absent split: option.splits)
  have sc: "\<forall>(j, q') \<in> set cs. keyFor (rq_keyId q') = k \<longrightarrow>
      (\<exists>r. rec = Some r \<and> rq_signCount q' \<le> signCount r)"
    using ok rec by (auto simp: row_ok_def split: option.splits)
  show "\<forall>(j, q') \<in> set cs. keyFor (rq_keyId q') = k \<longrightarrow> rq_signCount q' < rq_signCount q"
    if "rq_mode q = ''assertion''"
    using sc mode [OF that] by fastforce
  have epochs: "e = latest_of q rec \<or> e = latest_of q rec - 1 \<or> used_count rec e = 0"
    if "e \<ge> latest_of q rec - 1" for e
  proof (cases rec)
    case (Some r)
    with L have "latestEpoch r \<le> latest_of q rec" by simp
    with that used_count_above [OF wf [OF Some], of e] show ?thesis
      unfolding Some [symmetric] by (cases "latestEpoch r < e") auto
  qed simp
  have used': "used_count (Some r') e = key_total keyFor ((i, q) # cs) k e"
    if "e \<ge> latest_of q rec - 1" for e
  proof -
    have "used_count (Some r') e = (if e = rq_epoch q then used_count rec (rq_epoch q) + rq_count q
        else if e \<in> {latest_of q rec, latest_of q rec - 1} then used_count rec e else 0)"
      by (rule used_count_Commit) (simp add: r')
    also have "\<dots> = key_total keyFor ((i, q) # cs) k e"
      using tot [OF that] epochs [OF that] k by (cases "e = rq_epoch q") auto
    finally show ?thesis .
  qed
  have "key_total keyFor ((i, q) # cs) k e \<le> quota" if "quota > 0" for e
    using ok lim [OF that] tot [OF live] that k by (auto simp: row_ok_def)
  moreover have "\<forall>(j, q') \<in> set ((i, q) # cs). keyFor (rq_keyId q') = k \<longrightarrow> rq_signCount q' \<le> signCount r'"
    using sc by (auto simp: r')
  ultimately show "row_ok keyFor quota ((i, q) # cs) k (Some (encode_record r'))"
    using ok q used' checked_encode [OF commit_wf [OF c q]]
    by (auto simp: row_ok_def) (auto simp: r')
qed

subsection \<open>The invariant of the concurrent system\<close>

definition session_ok :: "('s \<Rightarrow> string \<Rightarrow> string \<Rightarrow> jv \<Rightarrow> bool) \<Rightarrow> (string \<Rightarrow> string) \<Rightarrow> int \<Rightarrow> 's
    \<Rightarrow> (nat \<times> reserve_request) list \<Rightarrow> nat \<Rightarrow> phase \<Rightarrow> bool" where
  "session_ok etag_for keyFor quota s cs i p \<longleftrightarrow>
     (case p of
        Idle \<Rightarrow> i \<notin> fst ` set cs
      | Reading q cid n \<Rightarrow> i \<notin> fst ` set cs \<and> request_ok q \<and> n \<le> 3
      | Writing q cid n prior rec \<Rightarrow> i \<notin> fst ` set cs \<and> request_ok q \<and> n \<le> 3
          \<and> reserve_decide quota q cid (map_option snd prior) = Commit rec
          \<and> (case prior of None \<Rightarrow> True | Some (e, v) \<Rightarrow> etag_for s (keyFor (rq_keyId q)) e v)
      | Finished q res \<Rightarrow> res = Inr ReserveOk \<longrightarrow> (i, q) \<in> set cs)"

definition rsv_inv where
  "rsv_inv row good etag_for keyFor quota \<sigma> \<longleftrightarrow>
     good (store \<sigma>)
     \<and> (\<forall>k. row_ok keyFor quota (commits \<sigma>) k (map_option snd (row (store \<sigma>) k)))
     \<and> counters_increase keyFor (commits \<sigma>)
     \<and> distinct (map fst (commits \<sigma>))
     \<and> (\<forall>i. session_ok etag_for keyFor quota (store \<sigma>) (commits \<sigma>) i (sess \<sigma> i))"

lemma row_ok_other:
  "row_ok keyFor quota cs k v \<Longrightarrow> keyFor (rq_keyId q) \<noteq> k \<Longrightarrow> request_ok q \<Longrightarrow>
   row_ok keyFor quota ((i, q) # cs) k v"
  by (auto simp: row_ok_def split: option.splits)

lemma session_ok_mono:
  assumes "session_ok etag_for keyFor quota s cs j p" and "j \<noteq> i"
    and "\<And>k e v. etag_for s k e v \<Longrightarrow> etag_for s' k e v"
    and "cs' = cs \<or> cs' = (i, q) # cs"
  shows "session_ok etag_for keyFor quota s' cs' j p"
  using assms by (auto simp: session_ok_def split: phase.splits option.splits)

context device_backend
begin

lemma put_prior:
  assumes "inv s" and "case prior of None \<Rightarrow> True | Some (e, v) \<Rightarrow> etag_for s k e v"
    and "map_option fst (row s k) = map_option fst prior"
  shows "map_option snd (row s k) = map_option snd prior"
  using assms etag_unique [of s k] by (cases "row s k"; cases prior) auto

lemma put_cases:
  assumes "inv s" and "bput s k eo v = (res, s')"
  obtains (same) "res \<noteq> Inr True" and "row s' = row s"
    | (changed) e' where "map_option fst (row s k) = eo" and "row s' = (row s)(k \<mapsto> (e', v))"
proof (cases res)
  case (Inl x)
  with assms put_throw [of s k eo v x s'] that show ?thesis by auto
next
  case (Inr ok)
  with assms put_true [of s k eo v s'] put_false [of s k eo v s'] that show ?thesis
    by (cases ok) auto
qed

lemma step_get:
  assumes I: "rsv_inv row inv etag_for keyFor quota \<sigma>" and p: "sess \<sigma> i = Reading q cid n"
    and g: "bget (store \<sigma>) (keyFor (rq_keyId q)) = (res, s')"
  shows "rsv_inv row inv etag_for keyFor quota
           (\<sigma>\<lparr>store := s', sess := (sess \<sigma>)(i := after_read quota q cid n res)\<rparr>)"
proof -
  from I have inv: "inv (store \<sigma>)"
    and ses: "\<And>j. session_ok etag_for keyFor quota (store \<sigma>) (commits \<sigma>) j (sess \<sigma> j)"
    by (auto simp: rsv_inv_def)
  from get_keep [OF inv g] have inv': "inv s'" and row': "row s' = row (store \<sigma>)" by auto
  have pr: "case prior of None \<Rightarrow> True | Some (e, v) \<Rightarrow> etag_for s' (keyFor (rq_keyId q)) e v"
    if "res = Inr prior" for prior
    using get_row [OF inv g [unfolded that]] etag_row [OF inv] get_etag [OF inv g]
    by (auto split: option.splits)
  have "session_ok etag_for keyFor quota s' (commits \<sigma>) i (after_read quota q cid n res)"
    using ses [of i] p pr by (cases res) (auto simp: session_ok_def split: decision.splits)
  moreover have "session_ok etag_for keyFor quota s' (commits \<sigma>) j (sess \<sigma> j)" if "j \<noteq> i" for j
    using session_ok_mono [OF ses that get_etag [OF inv g]] by blast
  ultimately show ?thesis using I inv' row' by (auto simp: rsv_inv_def)
qed

lemma step_put:
  assumes I: "rsv_inv row inv etag_for keyFor quota \<sigma>" and p: "sess \<sigma> i = Writing q cid n prior rec"
    and w: "bput (store \<sigma>) (keyFor (rq_keyId q)) (map_option fst prior) (encode_record rec) = (res, s')"
    and cs: "cs' = (if res = Inr True \<or> row s' (keyFor (rq_keyId q)) \<noteq> row (store \<sigma>) (keyFor (rq_keyId q))
                    then [(i, q)] else []) @ commits \<sigma>"
  shows "rsv_inv row inv etag_for keyFor quota
           (\<sigma>\<lparr>store := s', sess := (sess \<sigma>)(i := after_write q cid n res), commits := cs'\<rparr>)"
proof -
  let ?k = "keyFor (rq_keyId q)"
  from I have inv: "inv (store \<sigma>)"
    and rows: "\<And>k. row_ok keyFor quota (commits \<sigma>) k (map_option snd (row (store \<sigma>) k))"
    and inc: "counters_increase keyFor (commits \<sigma>)" and dist: "distinct (map fst (commits \<sigma>))"
    and ses: "\<And>j. session_ok etag_for keyFor quota (store \<sigma>) (commits \<sigma>) j (sess \<sigma> j)"
    by (auto simp: rsv_inv_def)
  from ses [of i] p have fresh: "i \<notin> fst ` set (commits \<sigma>)" and q: "request_ok q" and n: "n \<le> 3"
    and dec: "reserve_decide quota q cid (map_option snd prior) = Commit rec"
    and et: "case prior of None \<Rightarrow> True | Some (e, v) \<Rightarrow> etag_for (store \<sigma>) ?k e v"
    by (auto simp: session_ok_def)
  have change: "map_option fst (row (store \<sigma>) ?k) = map_option fst prior \<and>
      (\<exists>e'. row s' = (row (store \<sigma>))(?k \<mapsto> (e', encode_record rec)))"
    if "res = Inr True \<or> row s' ?k \<noteq> row (store \<sigma>) ?k"
    using that by (cases rule: put_cases [OF inv w]) auto
  have same: "row s' = row (store \<sigma>)" if "res \<noteq> Inr True" "row s' ?k = row (store \<sigma>) ?k"
    using that by (cases rule: put_cases [OF inv w]) (auto simp: fun_upd_idem)
  have others: "session_ok etag_for keyFor quota s' cs' j (sess \<sigma> j)" if "j \<noteq> i" for j
    using session_ok_mono [OF ses that put_etag [OF inv w]] cs by auto
  have mine: "session_ok etag_for keyFor quota s' cs' i (after_write q cid n res)"
    using fresh q n cs put_false [OF inv] w by (cases res) (auto simp: session_ok_def)
  have "(\<forall>k. row_ok keyFor quota cs' k (map_option snd (row s' k))) \<and> counters_increase keyFor cs' \<and>
      distinct (map fst cs')"
  proof (cases "res = Inr True \<or> row s' ?k \<noteq> row (store \<sigma>) ?k")
    case True
    from change [OF True] obtain e' where e: "map_option fst (row (store \<sigma>) ?k) = map_option fst prior"
      and row': "row s' = (row (store \<sigma>))(?k \<mapsto> (e', encode_record rec))" by auto
    from put_prior [OF inv et e] have "row_ok keyFor quota (commits \<sigma>) ?k (map_option snd prior)"
      using rows [of ?k] by simp
    from row_ok_commit [OF this dec q refl] row_ok_other [OF rows _ q] True cs row' inc dist fresh
    show ?thesis by auto
  next
    case False
    with same cs rows inc dist show ?thesis by auto
  qed
  with others mine put_inv [OF inv w] show ?thesis by (auto simp: rsv_inv_def)
qed

lemma step_admit:
  assumes "rsv_inv row inv etag_for keyFor quota \<sigma>" and "sess \<sigma> i = Idle"
    and "i \<notin> fst ` set (commits \<sigma>) \<Longrightarrow>
           session_ok etag_for keyFor quota (store \<sigma>) (commits \<sigma>) i p"
  shows "rsv_inv row inv etag_for keyFor quota (\<sigma>\<lparr>sess := (sess \<sigma>)(i := p)\<rparr>)"
proof -
  from assms(1) have "session_ok etag_for keyFor quota (store \<sigma>) (commits \<sigma>) i (sess \<sigma> i)"
    by (simp add: rsv_inv_def)
  with assms show ?thesis by (simp add: rsv_inv_def session_ok_def [of _ _ _ _ _ _ Idle])
qed

lemma reachable_inv:
  assumes "rsv_reachable bget bput row keyFor quota s0 \<sigma>" and "inv s0" and "\<And>k. row s0 k = None"
  shows "rsv_inv row inv etag_for keyFor quota \<sigma>"
  using assms(1)
proof induction
  case init
  show ?case using assms(2,3) by (auto simp: rsv_inv_def row_ok_def session_ok_def)
next
  case (step \<sigma> \<sigma>')
  from step.hyps(2) step.IH show ?case
  proof cases
    case (start i q cid)
    then show ?thesis using step.IH by (auto intro: step_admit simp: session_ok_def)
  next
    case (refuse i q)
    then show ?thesis using step.IH by (auto intro: step_admit simp: session_ok_def)
  next
    case (get i q cid n res s')
    show ?thesis unfolding get(1) by (rule step_get [OF step.IH get(2,3)])
  next
    case (put i q cid n prior rec res s')
    show ?thesis unfolding put(1) by (rule step_put [OF step.IH put(2,3) refl])
  qed
qed

end

text \<open>The number of tokens a session was granted.\<close>

fun granted :: "phase \<Rightarrow> int" where
  "granted (Finished q (Inr ReserveOk)) = rq_count q"
| "granted _ = 0"

text \<open>Sessions recorded in the log, each with its own request, together hold at most the log's total.\<close>

lemma logged_sum_le:
  assumes "distinct (map fst cs)" and "\<forall>(i, q) \<in> set cs. request_ok q" and "finite A"
    and logged: "\<And>i. i \<in> A \<Longrightarrow> \<exists>q. (i, q) \<in> set cs \<and> g i = rq_count q \<and> keyFor (rq_keyId q) = k \<and> rq_epoch q = e"
  shows "(\<Sum>i \<in> A. g i) \<le> key_total keyFor cs k e"
proof -
  let ?f = "\<lambda>(i, q). if keyFor (rq_keyId q) = k \<and> rq_epoch q = e then rq_count q else 0"
  from logged obtain req where req: "\<And>i. i \<in> A \<Longrightarrow> (i, req i) \<in> set cs \<and> g i = rq_count (req i)
      \<and> keyFor (rq_keyId (req i)) = k \<and> rq_epoch (req i) = e" by metis
  let ?g = "\<lambda>i. (i, req i)"
  have nonneg: "0 \<le> ?f p" if "p \<in> set cs" for p
    using assms(2) that by (fastforce simp: request_ok_def split: prod.splits)
  have "(\<Sum>i \<in> A. g i) = (\<Sum>i \<in> A. ?f (?g i))" using req by (intro sum.cong) auto
  also have "\<dots> = (\<Sum>p \<in> ?g ` A. ?f p)" by (subst sum.reindex) (auto simp: inj_on_def comp_def)
  also have "\<dots> \<le> (\<Sum>p \<in> set cs. ?f p)" using req nonneg by (intro sum_mono2) auto
  also have "\<dots> = key_total keyFor cs k e"
    using assms(1) unfolding key_total_def by (subst sum_list_distinct_conv_sum_set) (auto simp: distinct_map)
  finally show ?thesis .
qed

lemma granted_bound:
  assumes I: "rsv_inv row good etag_for keyFor quota \<sigma>" and "finite A"
    and fin: "\<And>i. i \<in> A \<Longrightarrow> \<exists>q. sess \<sigma> i = Finished q (Inr ReserveOk)
                 \<and> keyFor (rq_keyId q) = k \<and> rq_epoch q = e"
  shows "(\<Sum>i \<in> A. granted (sess \<sigma> i)) \<le> key_total keyFor (commits \<sigma>) k e"
proof (rule logged_sum_le)
  show "distinct (map fst (commits \<sigma>))" "\<forall>(i, q) \<in> set (commits \<sigma>). request_ok q"
    using I by (auto simp: rsv_inv_def row_ok_def)
  fix i assume "i \<in> A"
  with fin obtain q where q: "sess \<sigma> i = Finished q (Inr ReserveOk)" "keyFor (rq_keyId q) = k" "rq_epoch q = e" by blast
  moreover from I have "session_ok etag_for keyFor quota (store \<sigma>) (commits \<sigma>) i (sess \<sigma> i)" by (auto simp: rsv_inv_def)
  ultimately show "\<exists>q. (i, q) \<in> set (commits \<sigma>) \<and> granted (sess \<sigma> i) = rq_count q \<and> keyFor (rq_keyId q) = k \<and> rq_epoch q = e"
    by (auto simp: session_ok_def)
qed fact

lemma counters_increase_unique:
  assumes "counters_increase keyFor cs" and "distinct (map fst cs)"
    and "(i, q) \<in> set cs" and "(j, q') \<in> set cs" and "i \<noteq> j"
    and "keyFor (rq_keyId q) = keyFor (rq_keyId q')"
    and "rq_mode q = ''assertion''" and "rq_mode q' = ''assertion''"
  shows "rq_signCount q \<noteq> rq_signCount q'"
  using assms
proof (induction cs)
  case (Cons c cs)
  show ?case
  proof (cases "c = (i, q)")
    case True
    with Cons.prems have "(j, q') \<in> set cs" by auto
    with True Cons.prems show ?thesis by fastforce
  next
    case nq: False
    show ?thesis
    proof (cases "c = (j, q')")
      case True
      with nq Cons.prems have "(i, q) \<in> set cs" by auto
      with True Cons.prems show ?thesis by fastforce
    next
      case False
      with nq show ?thesis using Cons by simp
    qed
  qed
qed simp

subsection \<open>Running a schedule\<close>

text \<open>
  A schedule starts sessions and lets one session at a time make its next step. Every state a
  schedule reaches is reachable in the step relation, so concrete runs can be evaluated.
\<close>

datatype sched = Begin nat reserve_request string | Advance nat

fun rsv_exec1 where
  "rsv_exec1 bget bput row keyFor quota (Begin i q cid) \<sigma> =
     (case sess \<sigma> i of
        Idle \<Rightarrow> \<sigma>\<lparr>sess := (sess \<sigma>)(i := if request_ok q then Reading q cid 0
                                        else Finished q (Inl StateUnavailable))\<rparr>
      | _ \<Rightarrow> \<sigma>)"
| "rsv_exec1 bget bput row keyFor quota (Advance i) \<sigma> =
     (case sess \<sigma> i of
        Reading q cid n \<Rightarrow>
          (case bget (store \<sigma>) (keyFor (rq_keyId q)) of (res, s') \<Rightarrow>
             \<sigma>\<lparr>store := s', sess := (sess \<sigma>)(i := after_read quota q cid n res)\<rparr>)
      | Writing q cid n prior rec \<Rightarrow>
          (case bput (store \<sigma>) (keyFor (rq_keyId q)) (map_option fst prior) (encode_record rec) of
             (res, s') \<Rightarrow>
               \<sigma>\<lparr>store := s', sess := (sess \<sigma>)(i := after_write q cid n res),
                  commits := (if res = Inr True \<or> row s' (keyFor (rq_keyId q)) \<noteq> row (store \<sigma>) (keyFor (rq_keyId q))
                              then [(i, q)] else []) @ commits \<sigma>\<rparr>)
      | _ \<Rightarrow> \<sigma>)"

definition rsv_exec where
  "rsv_exec bget bput row keyFor quota s0 es =
     fold (rsv_exec1 bget bput row keyFor quota) es \<lparr>store = s0, sess = (\<lambda>_. Idle), commits = []\<rparr>"

lemma rsv_exec1_reachable:
  assumes "rsv_reachable bget bput row keyFor quota s0 \<sigma>"
  shows "rsv_reachable bget bput row keyFor quota s0 (rsv_exec1 bget bput row keyFor quota e \<sigma>)"
proof (cases e)
  case (Begin i q cid)
  with assms show ?thesis
    by (auto split: phase.split intro: rsv_reachable.step rsv_step.start rsv_step.refuse)
next
  case (Advance i)
  show ?thesis
  proof (cases "sess \<sigma> i")
    case (Reading q cid n)
    with Advance assms show ?thesis
      by (auto split: prod.split intro: rsv_reachable.step rsv_step.get)
  next
    case (Writing q cid n prior rec)
    obtain res s' where w:
      "bput (store \<sigma>) (keyFor (rq_keyId q)) (map_option fst prior) (encode_record rec) = (res, s')"
      by fastforce
    show ?thesis
      unfolding Advance rsv_exec1.simps Writing phase.case w prod.case
      by (rule rsv_reachable.step [OF assms], rule rsv_step.put, rule Writing, rule w)
  qed (simp_all add: Advance assms)
qed

lemma rsv_exec_reachable:
  "rsv_reachable bget bput row keyFor quota s0 (rsv_exec bget bput row keyFor quota s0 es)"
proof (induction es rule: rev_induct)
  case Nil
  show ?case by (simp add: rsv_exec_def rsv_reachable.init)
next
  case (snoc e es)
  then show ?case by (simp add: rsv_exec_def rsv_exec1_reachable)
qed

section \<open>Properties\<close>

abbreviation mem_rows :: "mem_backend \<Rightarrow> string \<Rightarrow> (string \<times> jv) option" where
  "mem_rows s \<equiv> jm_get (mb_rows s)"

lemma mem_reachable_inv:
  "rsv_reachable mem_get (mem_put maxKeys) mem_rows keyFor quota memoryDeviceBackend \<sigma> \<Longrightarrow>
   rsv_inv mem_rows mem_inv mem_etag_for keyFor quota \<sigma>"
  by (rule mem.reachable_inv) (auto simp: memoryDeviceBackend_def mem_inv_def jmap_simps)

text \<open>
  C1. However any number of \<open>reserve\<close> calls interleave at their awaits on the in-memory backend,
  the tokens granted to one device in one epoch never add up to more than the quota.
\<close>

theorem concurrent_quota_bound:
  assumes "rsv_reachable mem_get (mem_put maxKeys) mem_rows keyFor quota memoryDeviceBackend \<sigma>"
    and "quota > 0" and "finite A"
    and "\<And>i. i \<in> A \<Longrightarrow> \<exists>q. sess \<sigma> i = Finished q (Inr ReserveOk)
           \<and> keyFor (rq_keyId q) = k \<and> rq_epoch q = e"
  shows "(\<Sum>i \<in> A. granted (sess \<sigma> i)) \<le> quota"
proof -
  note inv = mem_reachable_inv [OF assms(1)]
  have "(\<Sum>i \<in> A. granted (sess \<sigma> i)) \<le> key_total keyFor (commits \<sigma>) k e"
    using inv assms(3,4) by (rule granted_bound)
  also have "\<dots> \<le> quota"
    using inv assms(2) by (auto simp: rsv_inv_def row_ok_def)
  finally show ?thesis .
qed

definition ex_attest :: reserve_request where
  "ex_attest = \<lparr>rq_keyId = ''d'', rq_mode = ''attestation'', rq_pem = ''p'', rq_signCount = 0,
                rq_epoch = 5, rq_count = 2\<rparr>"

definition ex_assert :: "int \<Rightarrow> reserve_request" where
  "ex_assert n = \<lparr>rq_keyId = ''d'', rq_mode = ''assertion'', rq_pem = ''p'', rq_signCount = n,
                  rq_epoch = 5, rq_count = 1\<rparr>"

text \<open>
  Three sessions of one device: the registration, then two assertions that both read the row
  before either writes, so the second loses its first compare-and-set and retries.
\<close>

definition ex_run :: "mem_backend rsv_sys" where
  "ex_run = rsv_exec mem_get (mem_put 10) mem_rows id 4 memoryDeviceBackend
     [Begin 0 ex_attest ''a'', Advance 0, Advance 0,
      Begin 1 (ex_assert 1) ''b'', Begin 2 (ex_assert 2) ''c'', Advance 1, Advance 2, Advance 1,
      Advance 2, Advance 2, Advance 2]"

lemma ex_run_results:
  "sess ex_run 0 = Finished ex_attest (Inr ReserveOk)"
  "sess ex_run 1 = Finished (ex_assert 1) (Inr ReserveOk)"
  "sess ex_run 2 = Finished (ex_assert 2) (Inr ReserveOk)"
  by code_simp+

theorem concurrent_quota_bound_witness:
  "(\<Sum>i \<in> {0, 1, 2}. granted (sess ex_run i)) \<le> 4 \<and> (\<Sum>i \<in> {0, 1, 2}. granted (sess ex_run i)) = 4"
proof
  have reach: "rsv_reachable mem_get (mem_put 10) mem_rows id 4 memoryDeviceBackend ex_run"
    unfolding ex_run_def by (rule rsv_exec_reachable)
  show "(\<Sum>i \<in> {0, 1, 2}. granted (sess ex_run i)) \<le> 4"
    by (rule concurrent_quota_bound [OF reach, where k = "''d''" and e = 5])
       (auto simp: ex_run_results [simplified] ex_attest_def ex_assert_def)
  show "(\<Sum>i \<in> {0, 1, 2}. granted (sess ex_run i)) = 4"
    by (simp add: ex_run_results [simplified] ex_attest_def ex_assert_def)
qed

text \<open>
  C2. Two different \<open>reserve\<close> calls that both succeed with an assertion of the same device carry
  different assertion counters, whatever the interleaving: a captured assertion is never honoured
  twice.
\<close>

theorem concurrent_assertion_unique:
  assumes "rsv_reachable mem_get (mem_put maxKeys) mem_rows keyFor quota memoryDeviceBackend \<sigma>"
    and "sess \<sigma> i = Finished q (Inr ReserveOk)" and "sess \<sigma> j = Finished q' (Inr ReserveOk)"
    and "i \<noteq> j" and "keyFor (rq_keyId q) = keyFor (rq_keyId q')"
    and "rq_mode q = ''assertion''" and "rq_mode q' = ''assertion''"
  shows "rq_signCount q \<noteq> rq_signCount q'"
proof -
  note inv = mem_reachable_inv [OF assms(1)]
  have logged: "(l, p) \<in> set (commits \<sigma>)" if "sess \<sigma> l = Finished p (Inr ReserveOk)" for l p
  proof -
    from inv have "session_ok mem_etag_for keyFor quota (store \<sigma>) (commits \<sigma>) l (sess \<sigma> l)"
      by (simp add: rsv_inv_def)
    with that show ?thesis by (simp add: session_ok_def)
  qed
  show ?thesis
    using inv logged [OF assms(2)] logged [OF assms(3)] assms(4-)
    by (intro counters_increase_unique [of keyFor "commits \<sigma>" i q j q']) (auto simp: rsv_inv_def)
qed

theorem concurrent_assertion_unique_witness:
  "rq_signCount (ex_assert 1) \<noteq> rq_signCount (ex_assert 2)"
proof -
  have reach: "rsv_reachable mem_get (mem_put 10) mem_rows id 4 memoryDeviceBackend ex_run"
    unfolding ex_run_def by (rule rsv_exec_reachable)
  show ?thesis
    by (rule concurrent_assertion_unique [OF reach ex_run_results(2,3)]) (auto simp: ex_assert_def)
qed


text \<open>
  C29. A \<open>reserve\<close> call that meets no interference on the in-memory backend needs one attempt: its
  answer is the decision on the row it finds, a committed decision is stored under a new etag, and
  nothing is stored otherwise.
\<close>

theorem reserve_alone:
  assumes "request_ok q"
  shows "reserve mem_get (mem_put maxKeys) (\<lambda>_. id) quota keyFor q cid s =
    (case reserve_decide quota q cid (map_option snd (mem_rows s (keyFor (rq_keyId q)))) of
       Throw \<Rightarrow> (Inl StateUnavailable, s)
     | Reject why \<Rightarrow> (Inr (ReserveFail why), s)
     | Commit rec \<Rightarrow>
         if mem_rows s (keyFor (rq_keyId q)) = None \<and> length (mb_rows s) \<ge> maxKeys
         then (Inl StateUnavailable, s)
         else (Inr ReserveOk,
               s\<lparr>mb_rows := jm_set (keyFor (rq_keyId q))
                    (js_nat_string (Suc (mb_revision s)), encode_record rec) (mb_rows s),
                 mb_revision := Suc (mb_revision s)\<rparr>))"
  using assms
  by (auto simp: reserve_def mem_get_def mem_put_def numeral_eq_Suc split: decision.split)

theorem reserve_alone_witness:
  "fst (reserve mem_get (mem_put 10) (\<lambda>_. id) 4 id ex_attest ''a'' memoryDeviceBackend) = Inr ReserveOk"
proof -
  have ok: "request_ok ex_attest" by code_simp
  have dec: "reserve_decide 4 ex_attest ''a'' (map_option snd (mem_rows memoryDeviceBackend (id (rq_keyId ex_attest))))
      = Commit (commit_record ex_attest ''a'' None)" by code_simp
  have room: "\<not> length (mb_rows memoryDeviceBackend) \<ge> 10" by code_simp
  show ?thesis unfolding reserve_alone [OF ok] dec using room by simp
qed

text \<open>
  A committed reservation only moves a device row forward: the registered key stays, the
  assertion counter and the newest epoch never decrease (so a replica whose clock lags cannot erase
  the newer epoch), and no count of an epoch still live is lowered.
\<close>

theorem commit_monotone:
  assumes "reserve_decide quota q cid (Some v) = Commit r'" and "checked v = Inr r" and "request_ok q"
  shows "publicKeyPem r' = publicKeyPem r \<and> signCount r \<le> signCount r' \<and> latestEpoch r \<le> latestEpoch r'
    \<and> (\<forall>e \<ge> latestEpoch r' - 1. used_count (Some r) e \<le> used_count (Some r') e)"
proof -
  have wf: "record_wf r" using assms(2) by (rule checked_wf)
  from assms(1,2) have r'_eq: "r' = commit_record q cid (Some r)"
    and pem: "publicKeyPem r = rq_pem q" by (auto elim: decide_CommitE)
  note r' = r'_eq [unfolded commit_record_def num_or_zero]
  have L: "latest_of q (Some r) = max (rq_epoch q) (latestEpoch r)"
    using latest_of_eq [of q "Some r"] wf assms(3) by (simp add: request_ok_def)
  have "used_count (Some r) e \<le> used_count (Some r') e" if e: "e \<ge> latestEpoch r' - 1" for e
  proof -
    have "used_count (Some r') e = (if e = rq_epoch q then used_count (Some r) (rq_epoch q) + rq_count q
        else if e \<in> {latest_of q (Some r), latest_of q (Some r) - 1} then used_count (Some r) e else 0)"
      by (rule used_count_Commit) (simp add: r')
    then show ?thesis
      using e assms(3) used_count_above [OF wf, of e] by (auto simp: r' L request_ok_def)
  qed
  then show ?thesis using pem by (auto simp: r' L)
qed

theorem commit_monotone_witness:
  "latestEpoch (commit_record ex_attest ''a'' None)
     \<le> latestEpoch (commit_record (ex_assert 1) ''b'' (Some (commit_record ex_attest ''a'' None)))"
proof -
  let ?r = "commit_record ex_attest ''a'' None"
  have c: "checked (encode_record ?r) = Inr ?r" by code_simp
  have d: "reserve_decide 4 (ex_assert 1) ''b'' (Some (encode_record ?r))
      = Commit (commit_record (ex_assert 1) ''b'' (Some ?r))" by code_simp
  have ok: "request_ok (ex_assert 1)" by code_simp
  show ?thesis using commit_monotone [OF d c ok] by blast
qed

end
