(* ===== verification/TableClient.thy ===== *)
theory TableClient
  imports Prelude
begin

text \<open>
  The two optional shared stores (\<^verbatim>\<open>token-issuer/state-store.js\<close> and
  \<^verbatim>\<open>ohttp-relay/redemption-store.js\<close>) talk to a table service through a client library. The
  library and the service are not part of the repository: here they are a record of functions over
  an unknown world \<open>'w\<close>, and what the stores rely on of them is the predicate \<open>table_service\<close>.
  Each call answers after some milliseconds, with a result or an error, in a new world; \<open>bounded\<close>
  races it against a deadline. The client is constructed with \<open>maxRetries: 0\<close>, so one call is one
  request.
\<close>

record client_error =
  statusCode :: "int option"
  errCode :: string

record entity =
  partitionKey :: string
  rowKey :: string
  props :: "(string \<times> string) list"

record 'w table_client =
  createTable :: "'w \<Rightarrow> int \<times> (client_error + unit) \<times> 'w"
  createEntity :: "entity \<Rightarrow> 'w \<Rightarrow> int \<times> (client_error + unit) \<times> 'w"
  updateEntity :: "entity \<Rightarrow> string \<Rightarrow> 'w \<Rightarrow> int \<times> (client_error + unit) \<times> 'w"
  getEntity :: "string \<Rightarrow> string \<Rightarrow> 'w \<Rightarrow> int \<times> (client_error + string \<times> (string \<times> string) list) \<times> 'w"

text \<open>The error \<open>bounded\<close> rejects with: no status code, code \<open>state_unavailable\<close>.\<close>

definition unavailable_error :: client_error where
  "unavailable_error = \<lparr>statusCode = None, errCode = ''state_unavailable''\<rparr>"

text \<open>
  \<open>bounded(call, timeoutMs)\<close>: no call when no time is left; otherwise the answer if it arrives
  before the timer. A call that answers too late may still have changed the world. The state is the
  clock and the world.
\<close>

definition bounded :: "int \<Rightarrow> ('w \<Rightarrow> int \<times> (client_error + 'a) \<times> 'w) \<Rightarrow> int \<times> 'w
    \<Rightarrow> (client_error + 'a) \<times> int \<times> 'w" where
  "bounded timeoutMs call tw =
     (if timeoutMs \<le> 0 then (Inl unavailable_error, tw)
      else case call (snd tw) of (ms, res, w') \<Rightarrow>
        if ms < timeoutMs then (res, fst tw + ms, w')
        else (Inl unavailable_error, fst tw + timeoutMs, w'))"

type_synonym 'w table_rows = "'w \<Rightarrow> string \<times> string \<Rightarrow> (string \<times> (string \<times> string) list) option"

definition entity_key :: "entity \<Rightarrow> string \<times> string" where
  "entity_key e = (partitionKey e, rowKey e)"

definition created :: "'w table_rows \<Rightarrow> entity \<Rightarrow> 'w \<Rightarrow> 'w \<Rightarrow> bool" where
  "created rows e w w' \<longleftrightarrow> rows w (entity_key e) = None \<and>
     (\<exists>et. rows w' = (rows w)(entity_key e \<mapsto> (et, props e)))"

definition replaced :: "'w table_rows \<Rightarrow> entity \<Rightarrow> string \<Rightarrow> 'w \<Rightarrow> 'w \<Rightarrow> bool" where
  "replaced rows e etag w w' \<longleftrightarrow> map_option fst (rows w (entity_key e)) = Some etag \<and>
     (\<exists>et. rows w' = (rows w)(entity_key e \<mapsto> (et, props e)))"

text \<open>A status 409 or 412 says for certain that the request was not applied.\<close>

definition refused :: "client_error \<Rightarrow> bool" where
  "refused err \<longleftrightarrow> statusCode err \<in> {Some 409, Some 412}"

definition not_found :: "client_error \<Rightarrow> bool" where
  "not_found err \<longleftrightarrow> statusCode err = Some 404 \<and> errCode err \<noteq> ''TableNotFound''"

text \<open>
  The documented behaviour of the service: creation fails on an existing row, replacement fails on
  a different etag, a successful answer means the request was applied, a refusal that it was not,
  any other error that it may or may not have been; reads change nothing and are truthful.
\<close>

definition table_service :: "'w table_client \<Rightarrow> 'w table_rows \<Rightarrow> bool" where
  "table_service C rows \<longleftrightarrow>
     (\<forall>w ms r w'. createTable C w = (ms, r, w') \<longrightarrow> rows w' = rows w) \<and>
     (\<forall>e w ms r w'. createEntity C e w = (ms, r, w') \<longrightarrow>
        (case r of Inr _ \<Rightarrow> created rows e w w'
         | Inl err \<Rightarrow> rows w' = rows w \<or> (\<not> refused err \<and> created rows e w w'))) \<and>
     (\<forall>e etag w ms r w'. updateEntity C e etag w = (ms, r, w') \<longrightarrow>
        (case r of Inr _ \<Rightarrow> replaced rows e etag w w'
         | Inl err \<Rightarrow> rows w' = rows w \<or> (\<not> refused err \<and> replaced rows e etag w w'))) \<and>
     (\<forall>pk rk w ms r w'. getEntity C pk rk w = (ms, r, w') \<longrightarrow> rows w' = rows w \<and>
        (case r of Inr row \<Rightarrow> rows w (pk, rk) = Some row
         | Inl err \<Rightarrow> not_found err \<longrightarrow> rows w (pk, rk) = None))"

section \<open>What a bounded call of the service can do\<close>

lemma unavailable_simps [simp]: "\<not> refused unavailable_error" "\<not> not_found unavailable_error"
  by (simp_all add: unavailable_error_def refused_def not_found_def)

lemma bounded_cases:
  assumes "bounded n call tw = (r, tw')"
  obtains (no_time) "r = Inl unavailable_error" "tw' = tw"
    | (late) ms r0 where "call (snd tw) = (ms, r0, snd tw')" "r = Inl unavailable_error"
    | (answered) ms where "call (snd tw) = (ms, r, snd tw')"
  using assms by (auto simp: bounded_def split: if_splits prod.splits)

lemma table_serviceD:
  assumes "table_service C rows"
  shows "createTable C w = (ms, r, w') \<Longrightarrow> rows w' = rows w"
    and "createEntity C e w = (ms, r, w') \<Longrightarrow>
        (case r of Inr _ \<Rightarrow> created rows e w w'
         | Inl err \<Rightarrow> rows w' = rows w \<or> (\<not> refused err \<and> created rows e w w'))"
    and "updateEntity C e etag w = (ms, r, w') \<Longrightarrow>
        (case r of Inr _ \<Rightarrow> replaced rows e etag w w'
         | Inl err \<Rightarrow> rows w' = rows w \<or> (\<not> refused err \<and> replaced rows e etag w w'))"
    and "getEntity C pk rk w = (ms, g, w') \<Longrightarrow> rows w' = rows w \<and>
        (case g of Inr row \<Rightarrow> rows w (pk, rk) = Some row
         | Inl err \<Rightarrow> not_found err \<longrightarrow> rows w (pk, rk) = None)"
  subgoal using assms unfolding table_service_def by metis
  subgoal using assms unfolding table_service_def by metis
  subgoal using assms unfolding table_service_def by metis
  subgoal using assms unfolding table_service_def by metis
  done

lemma bounded_createTable:
  assumes "table_service C rows" and "bounded n (createTable C) tw = (r, tw')"
  shows "rows (snd tw') = rows (snd tw)"
  using assms(2) by (cases rule: bounded_cases) (auto dest: table_serviceD(1) [OF assms(1)])

lemma bounded_createEntity:
  assumes "table_service C rows" and "bounded n (createEntity C e) tw = (r, tw')"
  shows "case r of Inr _ \<Rightarrow> created rows e (snd tw) (snd tw')
         | Inl err \<Rightarrow> rows (snd tw') = rows (snd tw) \<or> (\<not> refused err \<and> created rows e (snd tw) (snd tw'))"
  using assms(2)
  by (cases rule: bounded_cases) (auto dest!: table_serviceD(2) [OF assms(1)] split: sum.splits)

lemma bounded_updateEntity:
  assumes "table_service C rows" and "bounded n (updateEntity C e etag) tw = (r, tw')"
  shows "case r of Inr _ \<Rightarrow> replaced rows e etag (snd tw) (snd tw')
         | Inl err \<Rightarrow> rows (snd tw') = rows (snd tw) \<or> (\<not> refused err \<and> replaced rows e etag (snd tw) (snd tw'))"
  using assms(2)
  by (cases rule: bounded_cases) (auto dest!: table_serviceD(3) [OF assms(1)] split: sum.splits)

lemma bounded_getEntity:
  assumes "table_service C rows" and "bounded n (getEntity C pk rk) tw = (r, tw')"
  shows "rows (snd tw') = rows (snd tw) \<and>
         (case r of Inr row \<Rightarrow> rows (snd tw) (pk, rk) = Some row
          | Inl err \<Rightarrow> not_found err \<longrightarrow> rows (snd tw) (pk, rk) = None)"
  using assms(2)
  by (cases rule: bounded_cases) (auto dest!: table_serviceD(4) [OF assms(1)] split: sum.splits)

section \<open>Versions\<close>

text \<open>One request reached the service and was answered in world \<open>w'\<close>.\<close>

definition table_call :: "'w table_client \<Rightarrow> 'w \<Rightarrow> 'w \<Rightarrow> bool" where
  "table_call C w w' \<longleftrightarrow>
     (\<exists>ms r. createTable C w = (ms, r, w')) \<or> (\<exists>e ms r. createEntity C e w = (ms, r, w'))
     \<or> (\<exists>e etag ms r. updateEntity C e etag w = (ms, r, w')) \<or> (\<exists>pk rk ms r. getEntity C pk rk w = (ms, r, w'))"

text \<open>
  The contract optimistic concurrency needs on top of \<open>table_service\<close>: an etag names one version of a
  row. \<open>seen w k e p\<close> says that row \<open>k\<close> had contents \<open>p\<close> under etag \<open>e\<close> in \<open>w\<close> or before; an etag once
  seen is never given to other contents of the row. \<open>tinv\<close> is the service's own invariant.
\<close>

locale versioned_table =
  fixes C :: "'w table_client"
    and rows :: "'w table_rows"
    and tinv :: "'w \<Rightarrow> bool"
    and seen :: "'w \<Rightarrow> string \<times> string \<Rightarrow> string \<Rightarrow> (string \<times> string) list \<Rightarrow> bool"
  assumes service: "table_service C rows"
    and call_inv: "tinv w \<Longrightarrow> table_call C w w' \<Longrightarrow> tinv w'"
    and call_seen: "tinv w \<Longrightarrow> table_call C w w' \<Longrightarrow> seen w k e p \<Longrightarrow> seen w' k e p"
    and row_seen: "tinv w \<Longrightarrow> rows w k = Some (e, p) \<Longrightarrow> seen w k e p"
    and seen_unique: "tinv w \<Longrightarrow> seen w k e p \<Longrightarrow> rows w k = Some (e, p') \<Longrightarrow> p' = p"

lemma bounded_call:
  assumes "bounded n call tw = (r, tw')" and "\<And>ms x w'. call (snd tw) = (ms, x, w') \<Longrightarrow> table_call C (snd tw) w'"
  shows "snd tw' = snd tw \<or> table_call C (snd tw) (snd tw')"
  using assms(1) by (cases rule: bounded_cases) (auto intro: assms(2))

lemma table_calls:
  "createTable C w = (ms, r, w') \<Longrightarrow> table_call C w w'"
  "createEntity C e w = (ms, r, w') \<Longrightarrow> table_call C w w'"
  "updateEntity C e etag w = (ms, r, w') \<Longrightarrow> table_call C w w'"
  "getEntity C pk rk w = (ms, g, w') \<Longrightarrow> table_call C w w'"
  unfolding table_call_def by blast+

lemmas bounded_calls = bounded_call [where call = "createTable C" for C, OF _ table_calls(1)]
  bounded_call [where call = "createEntity C e" for C e, OF _ table_calls(2)]
  bounded_call [where call = "updateEntity C e t" for C e t, OF _ table_calls(3)]
  bounded_call [where call = "getEntity C pk rk" for C pk rk, OF _ table_calls(4)]

section \<open>A concrete service\<close>

text \<open>
  An in-process table that satisfies \<open>table_service\<close>: the world is the rows, a revision counter and
  the number of upcoming writes whose acknowledgement is lost. Used to evaluate concrete runs.
\<close>

record table_world =
  tw_rows :: "(string \<times> string, string \<times> (string \<times> string) list) jmap"
  tw_rev :: nat
  tw_lose :: bool

definition lost_ack :: client_error where
  "lost_ack = \<lparr>statusCode = Some 503, errCode = ''''\<rparr>"

definition tw_write :: "entity \<Rightarrow> table_world \<Rightarrow> int \<times> (client_error + unit) \<times> table_world" where
  "tw_write e w =
     (1, (if tw_lose w then Inl lost_ack else Inr ()),
      w\<lparr>tw_rows := jm_set (entity_key e) (js_nat_string (tw_rev w), props e) (tw_rows w),
        tw_rev := Suc (tw_rev w), tw_lose := False\<rparr>)"

definition local_table :: "table_world table_client" where
  "local_table = \<lparr>
     createTable = (\<lambda>w. (1, Inr (), w)),
     createEntity = (\<lambda>e w. if jm_get (tw_rows w) (entity_key e) = None then tw_write e w
                           else (1, Inl \<lparr>statusCode = Some 409, errCode = ''''\<rparr>, w)),
     updateEntity = (\<lambda>e etag w. if map_option fst (jm_get (tw_rows w) (entity_key e)) = Some etag
                                then tw_write e w
                                else (1, Inl \<lparr>statusCode = Some 412, errCode = ''''\<rparr>, w)),
     getEntity = (\<lambda>pk rk w. (1, (case jm_get (tw_rows w) (pk, rk) of
                                  None \<Rightarrow> Inl \<lparr>statusCode = Some 404, errCode = ''ResourceNotFound''\<rparr>
                                | Some row \<Rightarrow> Inr row), w))\<rparr>"

lemma local_table_service: "table_service local_table (\<lambda>w. jm_get (tw_rows w))"
  by (auto simp: table_service_def local_table_def tw_write_def created_def replaced_def refused_def
      not_found_def lost_ack_def jmap_simps fun_eq_iff split: if_splits option.splits)

text \<open>Every etag handed out so far is a revision below the counter.\<close>

definition tw_etag :: "table_world \<Rightarrow> string \<Rightarrow> bool" where
  "tw_etag w e \<longleftrightarrow> e \<in> js_nat_string ` {..<tw_rev w}"

definition tw_inv :: "table_world \<Rightarrow> bool" where
  "tw_inv w \<longleftrightarrow> (\<forall>k row. jm_get (tw_rows w) k = Some row \<longrightarrow> tw_etag w (fst row))"

definition tw_seen :: "table_world \<Rightarrow> string \<times> string \<Rightarrow> string \<Rightarrow> (string \<times> string) list \<Rightarrow> bool" where
  "tw_seen w k e p \<longleftrightarrow> tw_etag w e \<and> (\<forall>p'. jm_get (tw_rows w) k = Some (e, p') \<longrightarrow> p' = p)"

lemma local_call_cases:
  assumes "table_call local_table w w'"
  obtains "w' = w" | e ms r where "tw_write e w = (ms, r, w')"
  using assms unfolding table_call_def local_table_def by (auto split: if_splits)

lemma tw_write_keeps:
  assumes "tw_write e w = (ms, r, w')"
  shows "tw_inv w \<Longrightarrow> tw_inv w'" and "tw_seen w k t p \<Longrightarrow> tw_seen w' k t p"
proof -
  let ?n = "js_nat_string (tw_rev w)"
  have r: "jm_get (tw_rows w') = (jm_get (tw_rows w))(entity_key e \<mapsto> (?n, props e))"
    and n: "tw_etag w' t \<longleftrightarrow> tw_etag w t \<or> t = ?n" and fresh: "\<not> tw_etag w ?n" for t
    using assms by (auto simp: tw_write_def jmap_simps fun_eq_iff tw_etag_def lessThan_Suc)
  show "tw_inv w'" if "tw_inv w" using that n unfolding tw_inv_def r by simp
  show "tw_seen w' k t p" if "tw_seen w k t p" using that n fresh unfolding tw_seen_def r by auto
qed

interpretation local_versioned: versioned_table local_table "\<lambda>w. jm_get (tw_rows w)" tw_inv tw_seen
proof
  show "table_service local_table (\<lambda>w. jm_get (tw_rows w))" by (rule local_table_service)
  fix w w' :: table_world and k e p p'
  show "tw_inv w'" if "tw_inv w" "table_call local_table w w'"
    using that(2,1) by (cases rule: local_call_cases) (auto intro: tw_write_keeps(1))
  show "tw_seen w' k e p" if "tw_inv w" "table_call local_table w w'" "tw_seen w k e p"
    using that(2,3) by (cases rule: local_call_cases) (auto intro: tw_write_keeps(2))
  show "tw_seen w k e p" if "tw_inv w" "jm_get (tw_rows w) k = Some (e, p)"
    using that unfolding tw_inv_def tw_seen_def by fastforce
  show "p' = p" if "tw_inv w" "tw_seen w k e p" "jm_get (tw_rows w) k = Some (e, p')"
    using that by (auto simp: tw_seen_def)
qed

end
