(* ===== verification/TableBackend.thy ===== *)
theory TableBackend
  imports StateStore TableClient
begin

text \<open>
  \<open>azureDeviceBackend\<close> of \<^verbatim>\<open>token-issuer/state-store.js\<close>: the issuer's device rows in a shared
  table. The backend first makes sure the table exists and that its configuration row carries the
  fingerprint of this issuer's salt (\<open>initialize\<close>, remembered in \<open>ready\<close>), then reads and writes
  rows under their etags. A write whose acknowledgement was lost is recognised by its commit ID.
\<close>

record azure_config =
  az_client_timeout :: int
  az_fingerprint :: string

definition az_partition :: string where
  "az_partition = ''issuer-state-v1''"

definition remaining :: "azure_config \<Rightarrow> int \<Rightarrow> int \<Rightarrow> int" where
  "remaining cfg deadline now = min (az_client_timeout cfg) (deadline - now)"

definition config_entity :: "azure_config \<Rightarrow> entity" where
  "config_entity cfg = \<lparr>partitionKey = az_partition, rowKey = ''config'',
     props = [(''saltFingerprint'', az_fingerprint cfg)]\<rparr>"

text \<open>
  \<open>initialize(deadline)\<close>. The state is \<open>ready\<close>, the clock and the world; \<open>True\<close> in the result means
  it returned, \<open>False\<close> that it threw \<open>StateUnavailable\<close> (and forgot \<open>ready\<close>).
\<close>

definition azure_check_config :: "azure_config \<Rightarrow> 'w table_client \<Rightarrow> int \<Rightarrow> int \<times> 'w \<Rightarrow> bool \<times> int \<times> 'w" where
  "azure_check_config cfg C deadline tw =
     (case bounded (remaining cfg deadline (fst tw)) (createEntity C (config_entity cfg)) tw of
        (Inr _, tw1) \<Rightarrow> (True, tw1)
      | (Inl _, tw1) \<Rightarrow>
          (case bounded (remaining cfg deadline (fst tw1)) (getEntity C az_partition ''config'') tw1 of
             (Inl _, tw2) \<Rightarrow> (False, tw2)
           | (Inr row, tw2) \<Rightarrow>
               (map_of (snd row) ''saltFingerprint'' = Some (az_fingerprint cfg), tw2)))"

definition azure_initialize :: "azure_config \<Rightarrow> 'w table_client \<Rightarrow> int \<Rightarrow> bool \<times> int \<times> 'w \<Rightarrow> bool \<times> int \<times> 'w" where
  "azure_initialize cfg C deadline st =
     (if fst st then st
      else case bounded (remaining cfg deadline (fst (snd st))) (createTable C) (snd st) of
        (r, tw1) \<Rightarrow>
          if (case r of Inl err \<Rightarrow> statusCode err \<noteq> Some 409 | Inr _ \<Rightarrow> False) then (False, tw1)
          else azure_check_config cfg C deadline tw1)"

text \<open>\<open>read(key, deadline)\<close>; \<open>jparse\<close> is \<open>JSON.parse\<close>, \<open>None\<close> where it throws.\<close>

definition azure_read :: "azure_config \<Rightarrow> 'w table_client \<Rightarrow> (string \<Rightarrow> jv option) \<Rightarrow> string \<Rightarrow> int \<Rightarrow> int \<times> 'w
    \<Rightarrow> (state_error + (string \<times> jv) option) \<times> int \<times> 'w" where
  "azure_read cfg C jparse key deadline tw =
     (case bounded (remaining cfg deadline (fst tw)) (getEntity C az_partition key) tw of
        (Inr (etag, ps), tw') \<Rightarrow>
          ((case Option.bind (map_of ps ''state'') jparse of
              None \<Rightarrow> Inl StateUnavailable
            | Some v \<Rightarrow> Inr (Some (etag, v))), tw')
      | (Inl err, tw') \<Rightarrow> (if not_found err then Inr None else Inl StateUnavailable, tw'))"

definition azure_get :: "azure_config \<Rightarrow> 'w table_client \<Rightarrow> (string \<Rightarrow> jv option) \<Rightarrow> int \<Rightarrow> bool \<times> int \<times> 'w
    \<Rightarrow> string \<Rightarrow> (state_error + (string \<times> jv) option) \<times> bool \<times> int \<times> 'w" where
  "azure_get cfg C jparse deadline st key =
     (case azure_initialize cfg C deadline st of (ready, tw) \<Rightarrow>
        if ready then (case azure_read cfg C jparse key deadline tw of (r, tw') \<Rightarrow> (r, True, tw'))
        else (Inl StateUnavailable, False, tw))"

text \<open>
  The \<open>catch\<close> of \<open>put\<close>: read the row back; our own commit ID means the write happened, a refusal
  that it did not, anything else is unknown. A stored \<open>null\<close> makes the property access throw.
\<close>

definition azure_put_failed :: "jv \<Rightarrow> client_error \<Rightarrow> state_error + (string \<times> jv) option \<Rightarrow> state_error + bool" where
  "azure_put_failed v err current =
     (case current of
        Inl e \<Rightarrow> Inl e
      | Inr cur \<Rightarrow>
          if truthy (jget v ''commitID'') \<and> (case cur of None \<Rightarrow> False | Some c \<Rightarrow> snd c \<in> {JNull, JUndef})
            then Inl TypeError
          else if truthy (jget v ''commitID'') \<and>
             (case cur of None \<Rightarrow> JUndef | Some c \<Rightarrow> jget (snd c) ''commitID'') = jget v ''commitID''
            then Inr True
          else if refused err then Inr False
          else Inl StateUnavailable)"

definition azure_write :: "azure_config \<Rightarrow> 'w table_client \<Rightarrow> int \<Rightarrow> string option \<Rightarrow> entity \<Rightarrow> int \<times> 'w
    \<Rightarrow> (client_error + unit) \<times> int \<times> 'w" where
  "azure_write cfg C deadline etag e tw =
     bounded (remaining cfg deadline (fst tw))
       (case etag of None \<Rightarrow> createEntity C e | Some t \<Rightarrow> updateEntity C e t) tw"

definition azure_put :: "azure_config \<Rightarrow> 'w table_client \<Rightarrow> (string \<Rightarrow> jv option) \<Rightarrow> (jv \<Rightarrow> string) \<Rightarrow> int
    \<Rightarrow> bool \<times> int \<times> 'w \<Rightarrow> string \<Rightarrow> string option \<Rightarrow> jv \<Rightarrow> (state_error + bool) \<times> bool \<times> int \<times> 'w" where
  "azure_put cfg C jparse jstringify deadline st key etag v =
     (case azure_initialize cfg C deadline st of (ready, tw) \<Rightarrow>
        if \<not> ready then (Inl StateUnavailable, False, tw)
        else if 2 * int (length (jstringify v)) > 60000 then (Inl StateUnavailable, True, tw)
        else
          (case azure_write cfg C deadline etag
                  \<lparr>partitionKey = az_partition, rowKey = key, props = [(''state'', jstringify v)]\<rparr> tw of
             (Inr _, tw1) \<Rightarrow> (Inr True, True, tw1)
           | (Inl err, tw1) \<Rightarrow>
               (case azure_read cfg C jparse key deadline tw1 of (cur, tw2) \<Rightarrow>
                  (azure_put_failed v err cur, True, tw2))))"

section \<open>Effect on the rows\<close>

lemma az_key [simp]: "entity_key \<lparr>partitionKey = a, rowKey = b, props = p\<rparr> = (a, b)"
  by (simp add: entity_key_def)

lemma initialize_rows:
  assumes "table_service C rows" and "azure_initialize cfg C deadline st = (ready, tw)" and "key \<noteq> ''config''"
  shows "rows (snd tw) (pk, key) = rows (snd (snd st)) (pk, key)"
proof -
  have cfg: "rows (snd tw2) (pk, key) = rows (snd tw1) (pk, key)"
    if "azure_check_config cfg C deadline tw1 = (r, tw2)" for r tw1 tw2
    using that assms(3) unfolding azure_check_config_def
    by (auto split: prod.splits sum.splits dest!: bounded_createEntity [OF assms(1)]
        bounded_getEntity [OF assms(1)] simp: created_def config_entity_def)
  show ?thesis
    using assms(2) unfolding azure_initialize_def
    by (auto split: if_splits prod.splits dest!: bounded_createTable [OF assms(1)] dest: cfg)
qed

lemma read_rows:
  assumes "table_service C rows" and "azure_read cfg C jparse key deadline tw = (r, tw')"
  shows "rows (snd tw') = rows (snd tw)"
    and "r = Inr None \<Longrightarrow> rows (snd tw) (az_partition, key) = None"
    and "r = Inr (Some (etag, v)) \<Longrightarrow> \<exists>ps. rows (snd tw) (az_partition, key) = Some (etag, ps)
           \<and> Option.bind (map_of ps ''state'') jparse = Some v"
  using assms(2) unfolding azure_read_def
  by (auto split: prod.splits sum.splits if_splits option.splits dest!: bounded_getEntity [OF assms(1)])

lemma write_rows:
  assumes "table_service C rows" and "azure_write cfg C deadline etag e tw = (r, tw')"
  defines "done \<equiv> map_option fst (rows (snd tw) (entity_key e)) = etag \<and>
             (\<exists>et. rows (snd tw') = (rows (snd tw))(entity_key e \<mapsto> (et, props e)))"
  shows "case r of Inr _ \<Rightarrow> done | Inl err \<Rightarrow> rows (snd tw') = rows (snd tw) \<or> (\<not> refused err \<and> done)"
  using assms(2) unfolding azure_write_def done_def
  by (cases etag) (auto split: sum.splits dest!: bounded_createEntity [OF assms(1)]
      bounded_updateEntity [OF assms(1)] simp: created_def replaced_def)

section \<open>Properties\<close>

text \<open>The value a row stores, where it can be read.\<close>

definition stored :: "'w table_rows \<Rightarrow> (string \<Rightarrow> jv option) \<Rightarrow> 'w \<Rightarrow> string \<Rightarrow> jv option" where
  "stored rows jparse w key =
     Option.bind (rows w (az_partition, key)) (\<lambda>row. Option.bind (map_of (snd row) ''state'') jparse)"

text \<open>
  C30. The table backend tells the truth about a write even when acknowledgements are lost or late:
  if the service behaves as documented and the commit ID is new, \<open>put\<close> returns \<open>true\<close> only when the
  row had the expected etag and now holds the value, and \<open>false\<close> only when the row is unchanged. So a
  committed write whose answer was lost is not reserved a second time.
\<close>

theorem azure_put_truthful:
  assumes svc: "table_service C rows" and key: "key \<noteq> ''config''"
    and new: "\<And>u. stored rows jparse (snd (snd st)) key = Some u \<Longrightarrow> jget u ''commitID'' \<noteq> jget v ''commitID''"
    and put: "azure_put cfg C jparse jstringify deadline st key etag v = (Inr ok, st')"
  shows "if ok then map_option fst (rows (snd (snd st)) (az_partition, key)) = etag
             \<and> (\<exists>e. rows (snd (snd st')) (az_partition, key) = Some (e, [(''state'', jstringify v)]))
         else rows (snd (snd st')) (az_partition, key) = rows (snd (snd st)) (az_partition, key)"
proof -
  let ?e = "\<lparr>partitionKey = az_partition, rowKey = key, props = [(''state'', jstringify v)]\<rparr>"
  obtain tw where ini: "azure_initialize cfg C deadline st = (True, tw)"
    using put by (auto simp: azure_put_def split: prod.splits if_splits)
  note same = initialize_rows [OF svc ini key, of az_partition]
  obtain r tw1 where wr: "azure_write cfg C deadline etag ?e tw = (r, tw1)" by (rule prod.exhaust)
  note w = write_rows [OF svc wr]
  show ?thesis
  proof (cases r)
    case (Inr u)
    with put ini wr have "ok" "snd (snd st') = snd tw1"
      by (auto simp: azure_put_def split: if_splits)
    with w Inr same show ?thesis by auto
  next
    case (Inl err)
    obtain cur tw2 where rd: "azure_read cfg C jparse key deadline tw1 = (cur, tw2)" by (rule prod.exhaust)
    with put ini wr Inl have ok: "azure_put_failed v err cur = Inr ok" and st': "snd (snd st') = snd tw2"
      by (auto simp: azure_put_def split: if_splits)
    from ok obtain row where cur: "cur = Inr row"
      by (auto simp: azure_put_failed_def split: sum.splits)
    note rd_rows = read_rows [OF svc rd]
    show ?thesis
    proof (cases ok)
      case True
      from ok True cur obtain c where c: "row = Some c" "jget (snd c) ''commitID'' = jget v ''commitID''"
        by (auto simp: azure_put_failed_def split: if_splits option.splits)
      have "rows (snd tw1) (az_partition, key) \<noteq> rows (snd tw) (az_partition, key)"
      proof
        assume eq: "rows (snd tw1) (az_partition, key) = rows (snd tw) (az_partition, key)"
        from rd_rows(3) [of "fst c" "snd c"] cur c(1)
        have "stored rows jparse (snd (snd st)) key = Some (snd c)"
          unfolding eq same by (auto simp: stored_def)
        with new c(2) show False by blast
      qed
      with w Inl rd_rows(1) same st' True show ?thesis by auto
    next
      case False
      with ok cur have "refused err" by (auto simp: azure_put_failed_def split: if_splits option.splits)
      with w Inl rd_rows(1) same st' False show ?thesis by auto
    qed
  qed
qed

text \<open>
  A run on a concrete table: the acknowledgement of the write is lost, the backend reads the row back,
  finds its own commit ID and reports success.
\<close>

definition ex_json :: "jv \<Rightarrow> string" where
  "ex_json v = (case jget v ''commitID'' of JStr c \<Rightarrow> c | _ \<Rightarrow> [])"

definition ex_parse :: "string \<Rightarrow> jv option" where
  "ex_parse s = Some (JObj [(''commitID'', JStr s)])"

definition ex_cfg :: azure_config where
  "ex_cfg = \<lparr>az_client_timeout = 5000, az_fingerprint = ''f''\<rparr>"

definition ex_world :: table_world where
  "ex_world = \<lparr>tw_rows = [], tw_rev = 0, tw_lose = True\<rparr>"

theorem azure_put_truthful_witness:
  "\<exists>e. jm_get (tw_rows (snd (snd (snd
     (azure_put ex_cfg local_table ex_parse ex_json 8000 (True, 0, ex_world) ''k'' None
        (JObj [(''commitID'', JStr ''x'')])))))) (az_partition, ''k'') = Some (e, [(''state'', ''x'')])"
proof -
  let ?v = "JObj [(''commitID'', JStr ''x'')]"
  let ?run = "azure_put ex_cfg local_table ex_parse ex_json 8000 (True, 0, ex_world) ''k'' None ?v"
  have run: "?run = (Inr True, snd ?run)" by code_simp
  have none: "stored (\<lambda>w. jm_get (tw_rows w)) ex_parse (snd (snd (True, 0::int, ex_world))) ''k'' = None"
    by code_simp
  have "ex_json ?v = ''x''" by code_simp
  with azure_put_truthful [OF local_table_service _ _ run] none show ?thesis by force
qed

text \<open>
  C15. A changed salt fails closed: when the table already holds a configuration row with another salt
  fingerprint, neither \<open>get\<close> nor \<open>put\<close> of a backend that is not yet ready ever succeeds, so no device
  row is silently abandoned.
\<close>

theorem azure_salt_mismatch:
  assumes svc: "table_service C rows"
    and cfg: "rows w (az_partition, ''config'') = Some (e, [(''saltFingerprint'', fp)])" "fp \<noteq> az_fingerprint cfg"
  shows "fst (azure_get cfg C jparse deadline (False, t, w) key) = Inl StateUnavailable
    \<and> fst (azure_put cfg C jparse jstringify deadline (False, t, w) key etag v) = Inl StateUnavailable"
proof -
  have chk: "\<not> fst (azure_check_config cfg C deadline tw)"
    if r: "rows (snd tw) (az_partition, ''config'') = Some (e, [(''saltFingerprint'', fp)])" for tw
    using that cfg(2) unfolding azure_check_config_def
    by (auto split: prod.split sum.split dest!: bounded_createEntity [OF svc]
        bounded_getEntity [OF svc] simp: created_def config_entity_def)
  have "\<not> fst (azure_initialize cfg C deadline (False, t, w))"
    using cfg(1) unfolding azure_initialize_def
    by (auto split: prod.split sum.split intro!: chk [simplified] dest!: bounded_createTable [OF svc])
  then show ?thesis
    by (auto simp: azure_get_def azure_put_def split: prod.splits)
qed

theorem azure_salt_mismatch_witness:
  "fst (azure_get ex_cfg local_table ex_parse 8000 (False, 0, ex_world\<lparr>tw_rows :=
     [((az_partition, ''config''), (''0'', [(''saltFingerprint'', ''g'')]))]\<rparr>) ''k'') = Inl StateUnavailable"
  by (rule azure_salt_mismatch [where e = "''0''" and fp = "''g''", OF local_table_service, THEN conjunct1])
     (simp_all add: ex_cfg_def jmap_simps)

end
