(* ===== verification/NodeRuntime.thy ===== *)
theory NodeRuntime
  imports Prelude
begin

text \<open>
  The pieces of Node's runtime the services compute with. String-to-byte and byte-to-hex conversion
  are defined; SHA-256 and the base64 codec are functions a definition takes as arguments, because
  their code is Node's own (OpenSSL, simdutf) and not part of the repository.
\<close>

text \<open>\<open>Buffer.from(s, 'utf8')\<close> of a latin-1 string.\<close>

fun utf8_char :: "char \<Rightarrow> bytes" where
  "utf8_char c =
     (let n = (of_char c :: nat) in
      if n < 128 then [of_nat n] else [of_nat (192 + n div 64), of_nat (128 + n mod 64)])"

definition utf8_bytes :: "string \<Rightarrow> bytes" where
  "utf8_bytes s = concat (map utf8_char s)"

lemma unat_of_nat_byte: "n < 256 \<Longrightarrow> unat (of_nat n :: byte) = n"
  by (simp add: unat_of_nat)


lemma utf8_char_decode:
  "utf8_char c @ xs = utf8_char d @ ys \<Longrightarrow> c = d \<and> xs = ys"
proof -
  assume eq: "utf8_char c @ xs = utf8_char d @ ys"
  let ?m = "of_char c :: nat" and ?n = "of_char d :: nat"
  have b: "?m < 256" "?n < 256" by simp_all
  have inj: "(of_nat a :: byte) = of_nat e \<Longrightarrow> a = e" if "a < 256" "e < 256" for a e
    using that unat_of_nat_byte by metis
  have "?m = ?n \<and> xs = ys"
  proof (cases "?m < 128"; cases "?n < 128")
    assume "?m < 128" "?n < 128"
    then show ?thesis using eq inj [of ?m ?n] by (simp add: Let_def)
  next
    assume "?m < 128" "\<not> ?n < 128"
    moreover have "192 + ?n div 64 < 256" using b by linarith
    ultimately show ?thesis using eq inj [of ?m "192 + ?n div 64"] b by (simp add: Let_def)
  next
    assume "\<not> ?m < 128" "?n < 128"
    moreover have "192 + ?m div 64 < 256" using b by linarith
    ultimately show ?thesis using eq inj [of "192 + ?m div 64" ?n] b by (simp add: Let_def)
  next
    assume a: "\<not> ?m < 128" "\<not> ?n < 128"
    have hi: "192 + ?m div 64 < 256" "192 + ?n div 64 < 256" using b by linarith+
    have lo: "128 + ?m mod 64 < 256" "128 + ?n mod 64 < 256" by (auto intro: order_less_trans [of _ "192"])
    from a eq have "?m div 64 = ?n div 64" "?m mod 64 = ?n mod 64" "xs = ys"
      using inj [OF hi] inj [OF lo] by (auto simp: Let_def)
    moreover have "?m = ?m div 64 * 64 + ?m mod 64" "?n = ?n div 64 * 64 + ?n mod 64" by simp_all
    ultimately show ?thesis by metis
  qed
  then show ?thesis by simp
qed

lemma utf8_char_nonempty [simp]: "utf8_char c \<noteq> []"
  by (simp add: Let_def)

lemma utf8_bytes_simps [simp]:
  "utf8_bytes [] = []"
  "utf8_bytes (c # s) = utf8_char c @ utf8_bytes s"
  by (simp_all add: utf8_bytes_def)

declare utf8_char.simps [simp del]

lemma utf8_bytes_inj [simp]: "utf8_bytes s = utf8_bytes t \<longleftrightarrow> s = t"
proof
  show "utf8_bytes s = utf8_bytes t \<Longrightarrow> s = t"
  proof (induction s arbitrary: t)
    case Nil
    then show ?case by (cases t) simp_all
  next
    case (Cons c s)
    then obtain d u where t: "t = d # u" by (cases t) simp_all
    with Cons.prems have "c = d \<and> utf8_bytes s = utf8_bytes u" by (auto dest: utf8_char_decode)
    with Cons.IH t show ?case by simp
  qed
qed simp

text \<open>\<open>digest('hex')\<close>: two lower-case hexadecimal digits per byte.\<close>

definition hex_digit :: "nat \<Rightarrow> char" where
  "hex_digit n = ''0123456789abcdef'' ! n"

definition hex_string :: "bytes \<Rightarrow> string" where
  "hex_string bs = concat (map (\<lambda>b. [hex_digit (unat b div 16), hex_digit (unat b mod 16)]) bs)"

lemma length_hex_string [simp]: "length (hex_string bs) = 2 * length bs"
  by (induction bs) (simp_all add: hex_string_def)

lemma byte_lt_256: "unat (b :: byte) < 256"
  using unsigned_less [of b] by simp

lemma hex_digit_mem: "n < 16 \<Longrightarrow> hex_digit n \<in> set ''0123456789abcdef''"
  unfolding hex_digit_def by (rule nth_mem) simp

lemma hex_string_chars:
  assumes "c \<in> set (hex_string bs)"
  shows "c \<in> set ''0123456789abcdef''"
proof -
  from assms obtain b :: byte where c: "c = hex_digit (unat b div 16) \<or> c = hex_digit (unat b mod 16)"
    by (auto simp: hex_string_def)
  have "unat b div 16 < 16" "unat b mod 16 < 16" using byte_lt_256 [of b] by auto
  with c show ?thesis by (auto simp only: hex_digit_mem)
qed

lemma hex_string_no_colon: "CHR '':'' \<notin> set (hex_string bs)"
  by (auto dest: hex_string_chars)

lemma hex_digit_inj: "m < 16 \<Longrightarrow> n < 16 \<Longrightarrow> hex_digit m = hex_digit n \<longleftrightarrow> m = n"
  unfolding hex_digit_def by (rule nth_eq_iff_index_eq) simp_all

lemma hex_string_inj [simp]: "hex_string a = hex_string b \<longleftrightarrow> a = b"
proof
  show "hex_string a = hex_string b \<Longrightarrow> a = b"
  proof (induction a arbitrary: b)
    case Nil
    then show ?case by (cases b) (simp_all add: hex_string_def)
  next
    case (Cons x a)
    then obtain y c where b: "b = y # c" by (cases b) (simp_all add: hex_string_def)
    have lt: "unat z div 16 < 16" "unat z mod 16 < 16" for z :: byte using byte_lt_256 [of z] by auto
    from Cons.prems b have "unat x div 16 = unat y div 16" "unat x mod 16 = unat y mod 16"
      and tl: "hex_string a = hex_string c"
      by (auto simp: hex_string_def hex_digit_inj lt)
    moreover have "unat x = unat x div 16 * 16 + unat x mod 16"
      "unat y = unat y div 16 * 16 + unat y mod 16" by simp_all
    ultimately have "x = y" by (metis word_unat_eq_iff)
    with Cons.IH [OF tl] b show ?case by simp
  qed
qed simp

end
