(* ===== verification/Json.thy ===== *)
theory Json
  imports NodeRuntime
begin

text \<open>
  \<open>JSON.stringify\<close> and \<open>JSON.parse\<close> as the services use them (the device rows of
  \<^verbatim>\<open>token-issuer/state-store.js\<close>). Text is a latin-1 \<open>string\<close>; a number with a fraction, an exponent or more
  digits than a safe integer is converted by a parameter \<open>num\<close>, because its digits are not kept in \<open>jv\<close>; an
  escape beyond latin-1 is outside the model. Shown: what \<open>stringify\<close> prints, \<open>parse\<close> reads back.
\<close>

section \<open>JSON.stringify\<close>

definition json_escape :: "char \<Rightarrow> string" where
  "json_escape c =
     (let n = (of_char c :: nat) in
      if n = 34 then [CHR 0x5C, CHR 0x22]
      else if n = 92 then [CHR 0x5C, CHR 0x5C]
      else if n = 8 then [CHR 0x5C, CHR ''b'']
      else if n = 9 then [CHR 0x5C, CHR ''t'']
      else if n = 10 then [CHR 0x5C, CHR ''n'']
      else if n = 12 then [CHR 0x5C, CHR ''f'']
      else if n = 13 then [CHR 0x5C, CHR ''r'']
      else if n < 32 then [CHR 0x5C, CHR ''u'', CHR ''0'', CHR ''0'', hex_digit (n div 16), hex_digit (n mod 16)]
      else [c])"

definition json_quote :: "string \<Rightarrow> string" where
  "json_quote s = CHR 0x22 # concat (map json_escape s) @ [CHR 0x22]"

fun json_commas :: "string list \<Rightarrow> string" where
  "json_commas [] = []"
| "json_commas [t] = t"
| "json_commas (t # u # ts) = t @ CHR '','' # json_commas (u # ts)"

text \<open>
  \<open>None\<close> is \<open>undefined\<close>: left out of an object, \<open>null\<close> in an array. \<open>JFrac\<close>, whose digits are unknown, is
  not printed.
\<close>

fun stringify :: "jv \<Rightarrow> string option" where
  "stringify JUndef = None"
| "stringify JNull = Some ''null''"
| "stringify (JBool b) = Some (if b then ''true'' else ''false'')"
| "stringify (JInt n) = Some (js_int_string n)"
| "stringify JFrac = None"
| "stringify (JStr s) = Some (json_quote s)"
| "stringify (JArr xs) = Some (CHR ''['' # json_commas (map (\<lambda>x. case stringify x of None \<Rightarrow> ''null'' | Some t \<Rightarrow> t) xs) @ '']'')"
| "stringify (JObj fs) = Some (CHR ''{'' # json_commas (concat (map (\<lambda>p.
     case stringify (snd p) of None \<Rightarrow> [] | Some t \<Rightarrow> [json_quote (fst p) @ CHR '':'' # t]) fs)) @ ''}'')"

section \<open>JSON.parse\<close>

definition json_ws :: "string \<Rightarrow> string" where
  "json_ws s = dropWhile (\<lambda>c. c \<in> {CHR '' '', CHR 0x09, CHR 0x0A, CHR 0x0D}) s"

definition hex_value :: "char \<Rightarrow> nat option" where
  "hex_value c =
     (let n = (of_char c :: nat) in
      if 48 \<le> n \<and> n \<le> 57 then Some (n - 48)
      else if 97 \<le> n \<and> n \<le> 102 then Some (n - 87)
      else if 65 \<le> n \<and> n \<le> 70 then Some (n - 55) else None)"

definition hex4 :: "char \<Rightarrow> char \<Rightarrow> char \<Rightarrow> char \<Rightarrow> nat option" where
  "hex4 a b c d =
     (case (hex_value a, hex_value b, hex_value c, hex_value d) of
        (Some w, Some x, Some y, Some z) \<Rightarrow> Some (((w * 16 + x) * 16 + y) * 16 + z)
      | _ \<Rightarrow> None)"

text \<open>The characters of a string after its opening quote, and the rest.\<close>

fun json_chars :: "string \<Rightarrow> (string \<times> string) option" where
  "json_chars [] = None"
| "json_chars (c # r) =
     (if c = CHR 0x22 then Some ([], r)
      else if c = CHR 0x5C then
        (case r of
           [] \<Rightarrow> None
         | e # r' \<Rightarrow>
             if e = CHR ''u'' then
               (case r' of
                  w # x # y # z # r'' \<Rightarrow>
                    (case hex4 w x y z of
                       None \<Rightarrow> None
                     | Some n \<Rightarrow> if n < 256 then map_option (\<lambda>(t, q). (char_of n # t, q)) (json_chars r'') else None)
                | _ \<Rightarrow> None)
             else
               (case map_of [(CHR 0x22, CHR 0x22), (CHR 0x5C, CHR 0x5C), (CHR ''/'', CHR ''/''), (CHR ''b'', CHR 0x08), (CHR ''f'', CHR 0x0C),
                             (CHR ''n'', CHR 0x0A), (CHR ''r'', CHR 0x0D), (CHR ''t'', CHR 0x09)] e of
                  None \<Rightarrow> None
                | Some x \<Rightarrow> map_option (\<lambda>(t, q). (x # t, q)) (json_chars r')))
      else if (of_char c :: nat) < 32 then None
      else map_option (\<lambda>(t, q). (c # t, q)) (json_chars r))"

text \<open>A number: sign, digits without a leading zero, optional fraction and exponent.\<close>

definition json_frac :: "string \<Rightarrow> (string \<times> string) option" where
  "json_frac s =
     (if s \<noteq> [] \<and> hd s = CHR ''.'' then
        (let ds = takeWhile is_digit (tl s) in if ds = [] then None else Some (CHR ''.'' # ds, dropWhile is_digit (tl s)))
      else Some ([], s))"

definition json_exp :: "string \<Rightarrow> (string \<times> string) option" where
  "json_exp s =
     (if s \<noteq> [] \<and> hd s \<in> {CHR ''e'', CHR ''E''} then
        (let sgn = (if tl s \<noteq> [] \<and> hd (tl s) \<in> {CHR ''+'', CHR ''-''} then [hd (tl s)] else []);
             r = drop (length sgn) (tl s); ds = takeWhile is_digit r
         in if ds = [] then None else Some (hd s # sgn @ ds, dropWhile is_digit r))
      else Some ([], s))"

definition json_number :: "(string \<Rightarrow> jv) \<Rightarrow> string \<Rightarrow> (jv \<times> string) option" where
  "json_number num s =
     (let neg = (s \<noteq> [] \<and> hd s = CHR ''-''); t = (if neg then tl s else s);
          ds = takeWhile is_digit t; v = (if neg then - int (read_dec ds) else int (read_dec ds))
      in if ds = [] \<or> (hd ds = CHR ''0'' \<and> ds \<noteq> ''0'') then None
         else (case json_frac (dropWhile is_digit t) of
           None \<Rightarrow> None
         | Some (f, r) \<Rightarrow>
             (case json_exp r of
                None \<Rightarrow> None
              | Some (e, r') \<Rightarrow>
                  Some (if f = [] \<and> e = [] \<and> safe_int v then JInt v
                        else num ((if neg then ''-'' else []) @ ds @ f @ e), r'))))"

text \<open>
  The value after white space and the rest. The first argument bounds the number of nested calls; each
  call has consumed a character, so the length of the text is enough.
\<close>

fun json_value :: "(string \<Rightarrow> jv) \<Rightarrow> nat \<Rightarrow> string \<Rightarrow> (jv \<times> string) option"
  and json_elems :: "(string \<Rightarrow> jv) \<Rightarrow> nat \<Rightarrow> string \<Rightarrow> (jv list \<times> string) option"
  and json_members :: "(string \<Rightarrow> jv) \<Rightarrow> nat \<Rightarrow> string \<Rightarrow> ((string \<times> jv) list \<times> string) option" where
  "json_value num 0 s = None"
| "json_value num (Suc n) s =
     (case json_ws s of
        [] \<Rightarrow> None
      | c # r \<Rightarrow>
          if c = CHR 0x22 then map_option (\<lambda>(t, q). (JStr t, q)) (json_chars r)
          else if c = CHR ''['' then
            (if take 1 (json_ws r) = '']'' then Some (JArr [], tl (json_ws r))
             else map_option (\<lambda>(vs, q). (JArr vs, q)) (json_elems num n r))
          else if c = CHR ''{'' then
            (if take 1 (json_ws r) = ''}'' then Some (JObj [], tl (json_ws r))
             else map_option (\<lambda>(ms, q). (JObj (fold (\<lambda>(k, v). jm_set k v) ms []), q)) (json_members num n r))
          else if take 4 (c # r) = ''null'' then Some (JNull, drop 3 r)
          else if take 4 (c # r) = ''true'' then Some (JBool True, drop 3 r)
          else if take 5 (c # r) = ''false'' then Some (JBool False, drop 4 r)
          else json_number num (c # r))"
| "json_elems num 0 s = None"
| "json_elems num (Suc n) s =
     (case json_value num n s of
        None \<Rightarrow> None
      | Some (v, r) \<Rightarrow>
          if take 1 (json_ws r) = '','' then map_option (\<lambda>(vs, q). (v # vs, q)) (json_elems num n (tl (json_ws r)))
          else if take 1 (json_ws r) = '']'' then Some ([v], tl (json_ws r)) else None)"
| "json_members num 0 s = None"
| "json_members num (Suc n) s =
     (if take 1 (json_ws s) \<noteq> [CHR 0x22] then None
      else (case json_chars (tl (json_ws s)) of
        None \<Rightarrow> None
      | Some (k, r) \<Rightarrow>
          if take 1 (json_ws r) \<noteq> '':'' then None
          else (case json_value num n (tl (json_ws r)) of
            None \<Rightarrow> None
          | Some (v, r') \<Rightarrow>
              if take 1 (json_ws r') = '','' then map_option (\<lambda>(ms, q). ((k, v) # ms, q)) (json_members num n (tl (json_ws r')))
              else if take 1 (json_ws r') = ''}'' then Some ([(k, v)], tl (json_ws r')) else None)))"

definition json_parse :: "(string \<Rightarrow> jv) \<Rightarrow> string \<Rightarrow> jv option" where
  "json_parse num s =
     (case json_value num (Suc (length s)) s of
        Some (v, r) \<Rightarrow> if json_ws r = [] then Some v else None
      | None \<Rightarrow> None)"

section \<open>Reading back\<close>

lemma char_is: "(of_char c :: nat) = n \<Longrightarrow> c = char_of n"
  by (metis char_of_char)

lemma control_chars:
  "char_of (8 :: nat) = CHR 0x08" "char_of (9 :: nat) = CHR 0x09" "char_of (10 :: nat) = CHR 0x0A" "char_of (12 :: nat) = CHR 0x0C"
  "char_of (13 :: nat) = CHR 0x0D" "char_of (34 :: nat) = CHR 0x22" "char_of (92 :: nat) = CHR 0x5C"
  by (simp_all add: char_of_def bit_0)

lemma hex_value_digit [simp]:
  assumes "d < 16"
  shows "hex_value (hex_digit d) = Some d"
proof -
  have "d = 0 \<or> d = 1 \<or> d = 2 \<or> d = 3 \<or> d = 4 \<or> d = 5 \<or> d = 6 \<or> d = 7 \<or> d = 8 \<or> d = 9 \<or> d = 10 \<or> d = 11 \<or> d = 12
    \<or> d = 13 \<or> d = 14 \<or> d = 15" using assms by presburger
  then show ?thesis by (auto simp: hex_value_def hex_digit_def)
qed

lemma json_chars_escape: "json_chars (json_escape c @ r) = map_option (\<lambda>(t, q). (c # t, q)) (json_chars r)"
proof -
  let ?n = "of_char c :: nat"
  consider "?n \<in> {8, 9, 10, 12, 13, 34, 92}" | "?n < 32" "?n \<notin> {8, 9, 10, 12, 13, 34, 92}" | "?n \<ge> 32" "?n \<notin> {34, 92}" by fastforce
  then show ?thesis
  proof cases
    case 1
    then show ?thesis by (auto simp: json_escape_def control_chars dest!: char_is)
  next
    case 2
    have z: "hex4 CHR ''0'' CHR ''0'' (hex_digit (?n div 16)) (hex_digit (?n mod 16)) = Some ?n"
      using 2(1) by (simp add: hex4_def) (simp add: hex_value_def)
    have e: "json_escape c = [CHR 0x5C, CHR ''u'', CHR ''0'', CHR ''0'', hex_digit (?n div 16), hex_digit (?n mod 16)]"
      using 2 by (simp add: json_escape_def Let_def)
    show ?thesis unfolding e using z by simp
  next
    case 3
    then have "json_escape c = [c]" by (simp add: json_escape_def Let_def)
    moreover have "c \<noteq> CHR 0x22" "c \<noteq> CHR 0x5C" using 3 by auto
    ultimately show ?thesis using 3 by simp
  qed
qed

lemma json_chars_quote: "json_chars (concat (map json_escape s) @ CHR 0x22 # r) = Some (s, r)"
  by (induction s) (simp_all add: json_chars_escape)

definition json_stop :: "string \<Rightarrow> bool" where
  "json_stop s \<longleftrightarrow> s = [] \<or> hd s \<in> {CHR '','', CHR '']'', CHR ''}''}"

lemma js_nat_string_is_digit: "c \<in> set (js_nat_string n) \<Longrightarrow> is_digit c"
  by (auto dest!: js_nat_string_digits simp: is_digit_def)

lemma js_nat_string_zero: "hd (js_nat_string n) = CHR ''0'' \<Longrightarrow> js_nat_string n = ''0''"
proof (induction n rule: js_nat_string.induct)
  case (1 n)
  show ?case
  proof (cases "n < 10")
    case True
    with 1(2) show ?thesis by (simp add: js_nat_string.simps [of n])
  next
    case False
    with 1(2) have "hd (js_nat_string (n div 10)) = CHR ''0''" by (simp add: js_nat_string.simps [of n])
    with 1(1) False have "js_nat_string (n div 10) = ''0''" by blast
    then have "read_dec (js_nat_string (n div 10)) = 0" by (simp add: read_dec_def)
    with False show ?thesis unfolding read_dec_js_nat_string by simp
  qed
qed

lemma digits_stop:
  assumes "json_stop rest"
  shows "takeWhile is_digit (js_nat_string n @ rest) = js_nat_string n" "dropWhile is_digit (js_nat_string n @ rest) = rest"
proof -
  have "\<not> is_digit (hd rest)" if "rest \<noteq> []" using assms that by (auto simp: json_stop_def is_digit_def)
  then have "takeWhile is_digit rest = []" "dropWhile is_digit rest = rest" by (cases rest; simp)+
  then show "takeWhile is_digit (js_nat_string n @ rest) = js_nat_string n" "dropWhile is_digit (js_nat_string n @ rest) = rest"
    using js_nat_string_is_digit by (auto)
qed

lemma json_number_int:
  assumes "safe_int n" "json_stop rest"
  shows "json_number num (js_int_string n @ rest) = Some (JInt n, rest)"
proof -
  have stop: "json_frac rest = Some ([], rest)" "json_exp rest = Some ([], rest)"
    using assms(2) by (auto simp: json_frac_def json_exp_def json_stop_def)
  have nm: "hd (js_nat_string m) \<noteq> CHR ''-''" for m
    using js_nat_string_not_minus [of m] by (metis hd_in_set js_nat_string_nonempty)
  have hd: "hd (js_nat_string m @ rest) \<noteq> CHR ''-''" for m using nm by simp
  show ?thesis
    using assms(1) stop hd js_nat_string_zero digits_stop [OF assms(2)]
    by (auto simp: json_number_def js_int_string_def Let_def read_dec_js_nat_string)
qed

text \<open>The values \<open>stringify\<close> keeps: no \<open>undefined\<close>, integers that are safe, and keys without repetition.\<close>

fun json_ok :: "jv \<Rightarrow> bool" where
  "json_ok JUndef = False"
| "json_ok JNull = True"
| "json_ok (JBool b) = True"
| "json_ok (JInt n) = safe_int n"
| "json_ok JFrac = False"
| "json_ok (JStr s) = True"
| "json_ok (JArr xs) = (\<forall>x \<in> set xs. json_ok x)"
| "json_ok (JObj fs) = (distinct (map fst fs) \<and> (\<forall>p \<in> set fs. json_ok (snd p)))"

definition json_text :: "jv \<Rightarrow> string" where
  "json_text v = (case stringify v of None \<Rightarrow> [] | Some t \<Rightarrow> t)"

lemma stringify_ok: "json_ok v \<Longrightarrow> stringify v = Some (json_text v)"
  by (cases v) (auto simp: json_text_def)

lemma json_text_simps [simp]:
  "json_text JNull = ''null''" "json_text (JBool b) = (if b then ''true'' else ''false'')" "json_text (JInt n) = js_int_string n"
  "json_text (JStr s) = json_quote s"
  "\<forall>x \<in> set xs. json_ok x \<Longrightarrow> json_text (JArr xs) = CHR ''['' # json_commas (map json_text xs) @ '']''"
  "\<forall>p \<in> set fs. json_ok (snd p) \<Longrightarrow>
     json_text (JObj fs) = CHR ''{'' # json_commas (map (\<lambda>p. json_quote (fst p) @ CHR '':'' # json_text (snd p)) fs) @ ''}''"
proof -
  show "json_text (JArr xs) = CHR ''['' # json_commas (map json_text xs) @ '']''" if "\<forall>x \<in> set xs. json_ok x"
    using that by (simp add: json_text_def [of "JArr xs"] stringify_ok cong: map_cong)
  have "concat (map (\<lambda>p. case stringify (snd p) of None \<Rightarrow> [] | Some t \<Rightarrow> [json_quote (fst p) @ CHR '':'' # t]) fs)
      = map (\<lambda>p. json_quote (fst p) @ CHR '':'' # json_text (snd p)) fs" if "\<forall>p \<in> set fs. json_ok (snd p)"
    using that by (induction fs) (simp_all add: stringify_ok)
  then show "json_text (JObj fs) = CHR ''{'' # json_commas (map (\<lambda>p. json_quote (fst p) @ CHR '':'' # json_text (snd p)) fs) @ ''}''"
    if "\<forall>p \<in> set fs. json_ok (snd p)" using that by (simp add: json_text_def [of "JObj fs"])
qed (simp_all add: json_text_def)

text \<open>A printed value starts with neither white space nor a closing bracket.\<close>

lemma json_text_start:
  assumes "json_ok v"
  obtains c r where "json_text v = c # r" "c \<notin> {CHR '' '', CHR 0x09, CHR 0x0A, CHR 0x0D, CHR '']'', CHR ''}''}"
proof -
  have d: "\<exists>c r. js_nat_string n = c # r \<and> is_digit c" for n
    using js_nat_string_is_digit [of _ n] js_nat_string_nonempty [of n] by (metis list.exhaust list.set_intros(1))
  have "\<exists>c r. json_text v = c # r \<and> c \<notin> {CHR '' '', CHR 0x09, CHR 0x0A, CHR 0x0D, CHR '']'', CHR ''}''}"
  proof (cases v)
    case (JInt n)
    obtain c r where c: "js_nat_string (nat n) = c # r" "is_digit c" using d by blast
    then have "c \<notin> {CHR '' '', CHR 0x09, CHR 0x0A, CHR 0x0D, CHR '']'', CHR ''}''}" by (auto simp: is_digit_def)
    with JInt c show ?thesis by (simp add: js_int_string_def)
  qed (use assms in \<open>auto simp: json_quote_def\<close>)
  with that show thesis by blast
qed

lemma json_ws_text: "json_ok v \<Longrightarrow> json_ws (json_text v @ r) = json_text v @ r"
  by (erule json_text_start [of v]) (simp add: json_ws_def)

lemma json_ws_stop: "json_stop s \<Longrightarrow> json_ws s = s"
  by (cases s) (auto simp: json_ws_def json_stop_def)

section \<open>The round trip\<close>

text \<open>\<open>v\<close> is read back from its text, whatever follows it.\<close>

definition reads :: "(string \<Rightarrow> jv) \<Rightarrow> jv \<Rightarrow> bool" where
  "reads num v \<longleftrightarrow> (\<forall>n r. length (json_text v) < n \<longrightarrow> json_stop r \<longrightarrow> json_value num n (json_text v @ r) = Some (v, r))"

lemma json_commas_Cons: "json_commas (t # ts) = t @ (if ts = [] then [] else CHR '','' # json_commas ts)"
  by (cases ts) simp_all

lemma reads_elems:
  assumes "xs \<noteq> []" "\<forall>x \<in> set xs. json_ok x \<and> reads num x" "length (json_commas (map json_text xs)) + 1 < n"
  shows "json_elems num n (json_commas (map json_text xs) @ CHR '']'' # r) = Some (xs, r)"
  using assms
proof (induction xs arbitrary: n)
  case (Cons x xs)
  then obtain m where n: "n = Suc m" by (cases n) auto
  let ?r = "if xs = [] then CHR '']'' # r else CHR '','' # json_commas (map json_text xs) @ CHR '']'' # r"
  have tx: "json_commas (map json_text (x # xs)) @ CHR '']'' # r = json_text x @ ?r" by (simp add: json_commas_Cons)
  have len: "length (json_text x) < m" using Cons.prems(3) n by (simp add: json_commas_Cons split: if_splits)
  have stop: "json_stop ?r" by (simp add: json_stop_def)
  with Cons.prems(2) len have v: "json_value num m (json_text x @ ?r) = Some (x, ?r)" by (simp add: reads_def)
  show ?case
  proof (cases "xs = []")
    case True
    with v show ?thesis unfolding tx n using json_ws_stop [OF stop] by simp
  next
    case False
    have "json_elems num m (json_commas (map json_text xs) @ CHR '']'' # r) = Some (xs, r)"
      using Cons.IH [of m] Cons.prems(2,3) False n by (simp add: json_commas_Cons)
    with False v show ?thesis unfolding tx n using json_ws_stop [OF stop] by simp
  qed
qed simp

lemma reads_members:
  assumes "fs \<noteq> []" "\<forall>p \<in> set fs. json_ok (snd p) \<and> reads num (snd p)"
    "length (json_commas (map (\<lambda>p. json_quote (fst p) @ CHR '':'' # json_text (snd p)) fs)) + 1 < n"
  shows "json_members num n (json_commas (map (\<lambda>p. json_quote (fst p) @ CHR '':'' # json_text (snd p)) fs) @ CHR ''}'' # r) = Some (fs, r)"
  using assms
proof (induction fs arbitrary: n)
  case (Cons p fs)
  then obtain m where n: "n = Suc m" by (cases n) auto
  obtain k x where p: "p = (k, x)" by (cases p)
  let ?f = "\<lambda>p. json_quote (fst p) @ CHR '':'' # json_text (snd p)"
  let ?r = "if fs = [] then CHR ''}'' # r else CHR '','' # json_commas (map ?f fs) @ CHR ''}'' # r"
  have tx: "json_commas (map ?f (p # fs)) @ CHR ''}'' # r = CHR 0x22 # concat (map json_escape k) @ CHR 0x22 # CHR '':'' # json_text x @ ?r"
    by (simp add: json_commas_Cons json_quote_def p)
  have q: "json_ws (CHR 0x22 # s) = CHR 0x22 # s" "json_ws (CHR '':'' # s) = CHR '':'' # s" for s by (simp_all add: json_ws_def)
  have len: "length (json_text x) < m" using Cons.prems(3) n by (simp add: json_commas_Cons p split: if_splits)
  have stop: "json_stop ?r" by (simp add: json_stop_def)
  with Cons.prems(2) len p have v: "json_value num m (json_text x @ ?r) = Some (x, ?r)" by (simp add: reads_def)
  show ?case
  proof (cases "fs = []")
    case True
    with v show ?thesis unfolding tx n using json_ws_stop [OF stop] by (simp add: q json_chars_quote p)
  next
    case False
    have "json_members num m (json_commas (map ?f fs) @ CHR ''}'' # r) = Some (fs, r)"
      using Cons.IH [of m] Cons.prems(2,3) False n by (simp add: json_commas_Cons)
    with False v show ?thesis unfolding tx n using json_ws_stop [OF stop] by (simp add: q json_chars_quote p)
  qed
qed simp

lemma fold_jm_set: "distinct (map fst (m @ fs)) \<Longrightarrow> fold (\<lambda>(k, v). jm_set k v) fs m = m @ fs"
proof (induction fs arbitrary: m)
  case (Cons p fs)
  obtain k v where p: "p = (k, v)" by (cases p)
  with Cons.prems have "jm_get m k = None" by (auto simp: jm_get_None_iff)
  with Cons p show ?case by (simp add: jm_set_absent)
qed simp

lemma json_reads: "json_ok v \<Longrightarrow> reads num v"
proof (induction v)
  case (JInt n)
  show ?case unfolding reads_def
  proof (intro allI impI)
    fix m r assume "length (json_text (JInt n)) < m" "json_stop r"
    then obtain m' where m: "m = Suc m'" by (cases m) auto
    obtain c s where c: "js_int_string n = c # s" "c = CHR ''-'' \<or> is_digit c"
      using js_nat_string_is_digit js_nat_string_nonempty unfolding js_int_string_def
      by (metis list.exhaust list.set_intros(1))
    from c(2) have "c \<notin> {CHR 0x22, CHR ''['', CHR ''{'', CHR ''n'', CHR ''t'', CHR ''f'', CHR '' '', CHR 0x09, CHR 0x0A, CHR 0x0D}"
      by (auto simp: is_digit_def)
    with json_number_int [of n r num] JInt \<open>json_stop r\<close> show "json_value num m (json_text (JInt n) @ r) = Some (JInt n, r)"
      unfolding m by (simp add: c(1) json_ws_def)
  qed
next
  case (JArr xs)
  then have ok: "\<forall>x \<in> set xs. json_ok x \<and> reads num x" by simp
  show ?case unfolding reads_def
  proof (intro allI impI)
    fix m r assume m: "length (json_text (JArr xs)) < m" "json_stop r"
    then obtain m' where m': "m = Suc m'" by (cases m) auto
    show "json_value num m (json_text (JArr xs) @ r) = Some (JArr xs, r)"
    proof (cases xs)
      case Nil
      then show ?thesis by (simp add: m' json_ws_def)
    next
      case (Cons x ys)
      with ok have "json_ok x" by simp
      then obtain c t where c: "json_text x = c # t" "c \<notin> {CHR '' '', CHR 0x09, CHR 0x0A, CHR 0x0D, CHR '']'', CHR ''}''}"
        by (rule json_text_start)
      have "take 1 (json_ws (json_commas (map json_text xs) @ CHR '']'' # r)) \<noteq> '']''"
        using c Cons by (simp add: json_commas_Cons json_ws_def)
      with reads_elems [of xs num m' r] ok m m' Cons show ?thesis by (simp add: json_ws_def [of "CHR ''['' # _"])
    qed
  qed
next
  case (JObj fs)
  then have ok: "\<forall>p \<in> set fs. json_ok (snd p) \<and> reads num (snd p)" and d: "distinct (map fst fs)"
    by (auto simp: snds.simps)
  let ?f = "\<lambda>p. json_quote (fst p) @ CHR '':'' # json_text (snd p)"
  show ?case unfolding reads_def
  proof (intro allI impI)
    fix m r assume m: "length (json_text (JObj fs)) < m" "json_stop r"
    then obtain m' where m': "m = Suc m'" by (cases m) auto
    show "json_value num m (json_text (JObj fs) @ r) = Some (JObj fs, r)"
    proof (cases fs)
      case Nil
      then show ?thesis by (simp add: m' json_ws_def)
    next
      case (Cons p ys)
      have "take 1 (json_ws (json_commas (map ?f fs) @ CHR ''}'' # r)) \<noteq> ''}''"
        using Cons by (simp add: json_commas_Cons json_ws_def json_quote_def)
      with reads_members [of fs num m' r] fold_jm_set [of "[]" fs] ok d m m' Cons show ?thesis
        by (simp add: json_ws_def [of "CHR ''{'' # _"])
    qed
  qed
qed (auto simp: reads_def json_quote_def json_chars_quote json_ws_def Suc_le_eq dest!: Suc_le_D [OF Suc_leI])


definition ex_json_value :: jv where
  "ex_json_value = JObj [([CHR 0x22, CHR 0x0A, CHR 0x01], JArr [JInt (-12), JInt 0, JNull]), ([], JObj [])]"


end
