(* ===== verification/Fleet.thy ===== *)
theory Fleet
  imports TableBackend Json
begin

text \<open>
  Several issuer replicas over one shared table: \<open>reserve\<close> of \<^verbatim>\<open>token-issuer/state-store.js\<close> running on
  \<open>azureDeviceBackend\<close>, interleaved at every \<open>await\<close> of the backend. Replicas initialise (\<open>initialize\<close>, with
  its shared \<open>ready\<close> promise), may be configured with different salts, and lose answers; a request whose
  caller gave up may still be applied later. Shown: replicas that became ready share one salt, no device
  exceeds its quota in an epoch across the fleet, and no assertion counter is honoured twice.
\<close>

section \<open>Initialisation, one await at a time\<close>

datatype init_phase =
    RUnready
  | RTable
  | RConfig
  | RCheck
  | RReady

text \<open>The three requests of \<open>initialize\<close>; a throw resets \<open>ready\<close> (\<open>RUnready\<close>).\<close>

fun init_step :: "azure_config \<Rightarrow> 'w table_client \<Rightarrow> int \<Rightarrow> init_phase \<times> int \<times> 'w \<Rightarrow> init_phase \<times> int \<times> 'w" where
  "init_step cfg C deadline (RTable, tw) =
     (case bounded (remaining cfg deadline (fst tw)) (createTable C) tw of
        (r, tw1) \<Rightarrow>
          (if (case r of Inl err \<Rightarrow> statusCode err \<noteq> Some 409 | Inr _ \<Rightarrow> False) then RUnready else RConfig, tw1))"
| "init_step cfg C deadline (RConfig, tw) =
     (case bounded (remaining cfg deadline (fst tw)) (createEntity C (config_entity cfg)) tw of
        (Inr _, tw1) \<Rightarrow> (RReady, tw1)
      | (Inl _, tw1) \<Rightarrow> (RCheck, tw1))"
| "init_step cfg C deadline (RCheck, tw) =
     (case bounded (remaining cfg deadline (fst tw)) (getEntity C az_partition ''config'') tw of
        (Inl _, tw1) \<Rightarrow> (RUnready, tw1)
      | (Inr row, tw1) \<Rightarrow>
          (if map_of (snd row) ''saltFingerprint'' = Some (az_fingerprint cfg) then RReady else RUnready, tw1))"
| "init_step cfg C deadline (RUnready, tw) = (RUnready, tw)"
| "init_step cfg C deadline (RReady, tw) = (RReady, tw)"

text \<open>Run without interruption the three steps are \<open>initialize\<close>.\<close>

lemma init_steps_are_initialize:
  "azure_initialize cfg C deadline (False, tw)
   = (let (p, tw') = init_step cfg C deadline (init_step cfg C deadline (init_step cfg C deadline (RTable, tw))) in (p = RReady, tw'))"
  by (auto simp: azure_initialize_def azure_check_config_def Let_def split: prod.splits sum.splits)

section \<open>The fleet\<close>

text \<open>
  What the replicas run with: the table client, \<open>JSON.parse\<close> and \<open>JSON.stringify\<close>, the HMAC and the
  fingerprint of a salt (of type \<open>'s\<close>), the salt of each replica, and the replica each call runs on.
\<close>

record ('w, 's) fleet_env =
  fv_client :: "'w table_client"
  fv_parse :: "string \<Rightarrow> jv option"
  fv_print :: "jv \<Rightarrow> string"
  fv_hmac :: "'s \<Rightarrow> string \<Rightarrow> string"
  fv_fingerprint :: "'s \<Rightarrow> string"
  fv_salt :: "nat \<Rightarrow> 's"
  fv_home :: "nat \<Rightarrow> nat"
  fv_timeout :: int
  fv_quota :: int

definition replica_config :: "('w, 's) fleet_env \<Rightarrow> nat \<Rightarrow> azure_config" where
  "replica_config F r = \<lparr>az_client_timeout = fv_timeout F, az_fingerprint = fv_fingerprint F (fv_salt F r)\<rparr>"

text \<open>\<open>keyFor(keyId)\<close> on the replica that runs call \<open>i\<close>.\<close>

definition call_key :: "('w, 's) fleet_env \<Rightarrow> nat \<Rightarrow> reserve_request \<Rightarrow> string" where
  "call_key F i q = fv_hmac F (fv_salt F (fv_home F i)) (rq_keyId q)"

definition put_entity :: "('w, 's) fleet_env \<Rightarrow> nat \<Rightarrow> reserve_request \<Rightarrow> device_record \<Rightarrow> entity" where
  "put_entity F i q rec =
     \<lparr>partitionKey = az_partition, rowKey = call_key F i q, props = [(''state'', fv_print F (encode_record rec))]\<rparr>"

text \<open>
  A call of \<open>reserve\<close> waits for its read, for its write, or for the read-back after a failed write.
  \<open>fw_late\<close> holds a write whose caller gave up while it was under way; \<open>fw_cids\<close> the commit IDs drawn, and
  \<open>fw_commits\<close>, a ghost, the writes that changed a row, newest first.
\<close>

datatype fleet_phase =
    FIdle
  | FReading reserve_request string nat
  | FWriting reserve_request string nat "(string \<times> jv) option" device_record
  | FBack reserve_request string nat device_record client_error
  | FFinished reserve_request "state_error + reserve_result"

record 'w fleet =
  fw_world :: 'w
  fw_init :: "nat \<Rightarrow> init_phase"
  fw_sess :: "nat \<Rightarrow> fleet_phase"
  fw_late :: "nat \<Rightarrow> (reserve_request \<times> string option \<times> entity) option"
  fw_cids :: "(nat \<times> string) list"
  fw_commits :: "(nat \<times> reserve_request) list"

definition fleet_init :: "'w \<Rightarrow> 'w fleet" where
  "fleet_init w = \<lparr>fw_world = w, fw_init = (\<lambda>_. RUnready), fw_sess = (\<lambda>_. FIdle), fw_late = (\<lambda>_. None), fw_cids = [], fw_commits = []\<rparr>"

fun of_phase :: "phase \<Rightarrow> fleet_phase" where
  "of_phase Idle = FIdle"
| "of_phase (Reading q cid n) = FReading q cid n"
| "of_phase (Writing q cid n prior rec) = FWriting q cid n prior rec"
| "of_phase (Finished q res) = FFinished q res"

text \<open>\<open>put\<close> refuses a row that would not fit before it sends anything.\<close>

definition fleet_after_read :: "('w, 's) fleet_env \<Rightarrow> reserve_request \<Rightarrow> string \<Rightarrow> nat \<Rightarrow> state_error + (string \<times> jv) option \<Rightarrow> fleet_phase" where
  "fleet_after_read F q cid n res =
     (case after_read (fv_quota F) q cid n res of
        Writing q cid n prior rec \<Rightarrow>
          if 2 * int (length (fv_print F (encode_record rec))) > 60000 then FFinished q (Inl StateUnavailable)
          else FWriting q cid n prior rec
      | p \<Rightarrow> of_phase p)"

definition send_write :: "'w table_client \<Rightarrow> string option \<Rightarrow> entity \<Rightarrow> 'w \<Rightarrow> int \<times> (client_error + unit) \<times> 'w" where
  "send_write C etag e w = (case etag of None \<Rightarrow> createEntity C e w | Some t \<Rightarrow> updateEntity C e t w)"

text \<open>The ghost log after call \<open>i\<close> wrote in world \<open>w\<close> and left \<open>w'\<close>.\<close>

definition fleet_log :: "('w, 's) fleet_env \<Rightarrow> 'w table_rows \<Rightarrow> nat \<Rightarrow> reserve_request \<Rightarrow> 'w \<Rightarrow> 'w \<Rightarrow> (nat \<times> reserve_request) list
    \<Rightarrow> (nat \<times> reserve_request) list" where
  "fleet_log F rows i q w w' cs =
     (if rows w' (az_partition, call_key F i q) \<noteq> rows w (az_partition, call_key F i q) then (i, q) # cs else cs)"

text \<open>
  Events. \<open>now\<close> and \<open>deadline\<close> are the clock and the caller's deadline when a request is made. \<open>GiveUp\<close> is a
  write whose timer fires first; \<open>LateWrite\<close>, \<open>LateConfig\<close>, \<open>LateRead\<close> and \<open>LateTable\<close> are requests the service handles
  after their caller gave up.
\<close>

datatype fleet_event =
    Call nat reserve_request string
  | InitBegin nat
  | InitStep nat int int
  | InitFailed nat
  | ReadRow nat int int
  | WriteRow nat int int
  | GiveUp nat
  | ReadBack nat int int
  | LateWrite nat
  | LateConfig nat
  | LateRead string string
  | LateTable

definition fleet_call :: "nat \<Rightarrow> reserve_request \<Rightarrow> string \<Rightarrow> 'w fleet \<Rightarrow> 'w fleet" where
  "fleet_call i q cid \<sigma> =
     (if fw_sess \<sigma> i \<noteq> FIdle \<or> cid \<in> snd ` set (fw_cids \<sigma>) then \<sigma>
      else if request_ok q then \<sigma>\<lparr>fw_sess := (fw_sess \<sigma>)(i := FReading q cid 0), fw_cids := (i, cid) # fw_cids \<sigma>\<rparr>
      else \<sigma>\<lparr>fw_sess := (fw_sess \<sigma>)(i := FFinished q (Inl StateUnavailable))\<rparr>)"

definition fleet_read :: "('w, 's) fleet_env \<Rightarrow> nat \<Rightarrow> int \<Rightarrow> int \<Rightarrow> 'w fleet \<Rightarrow> 'w fleet" where
  "fleet_read F i deadline now \<sigma> =
     (case fw_sess \<sigma> i of
        FReading q cid n \<Rightarrow>
          if fw_init \<sigma> (fv_home F i) \<noteq> RReady then \<sigma>
          else (case azure_read (replica_config F (fv_home F i)) (fv_client F) (fv_parse F) (call_key F i q) deadline (now, fw_world \<sigma>) of
            (res, _, w') \<Rightarrow> \<sigma>\<lparr>fw_world := w', fw_sess := (fw_sess \<sigma>)(i := fleet_after_read F q cid n res)\<rparr>)
      | _ \<Rightarrow> \<sigma>)"

definition fleet_write :: "('w, 's) fleet_env \<Rightarrow> 'w table_rows \<Rightarrow> nat \<Rightarrow> int \<Rightarrow> int \<Rightarrow> 'w fleet \<Rightarrow> 'w fleet" where
  "fleet_write F rows i deadline now \<sigma> =
     (case fw_sess \<sigma> i of
        FWriting q cid n prior rec \<Rightarrow>
          (case azure_write (replica_config F (fv_home F i)) (fv_client F) deadline (map_option fst prior) (put_entity F i q rec)
                  (now, fw_world \<sigma>) of
             (res, _, w') \<Rightarrow>
               \<sigma>\<lparr>fw_world := w',
                 fw_sess := (fw_sess \<sigma>)(i := (case res of Inr _ \<Rightarrow> of_phase (after_write q cid n (Inr True)) | Inl err \<Rightarrow> FBack q cid n rec err)),
                 fw_commits := fleet_log F rows i q (fw_world \<sigma>) w' (fw_commits \<sigma>)\<rparr>)
      | _ \<Rightarrow> \<sigma>)"

definition fleet_give_up :: "('w, 's) fleet_env \<Rightarrow> nat \<Rightarrow> 'w fleet \<Rightarrow> 'w fleet" where
  "fleet_give_up F i \<sigma> =
     (case fw_sess \<sigma> i of
        FWriting q cid n prior rec \<Rightarrow>
          \<sigma>\<lparr>fw_sess := (fw_sess \<sigma>)(i := FBack q cid n rec unavailable_error),
            fw_late := (fw_late \<sigma>)(i \<mapsto> (q, map_option fst prior, put_entity F i q rec))\<rparr>
      | _ \<Rightarrow> \<sigma>)"

definition fleet_back :: "('w, 's) fleet_env \<Rightarrow> nat \<Rightarrow> int \<Rightarrow> int \<Rightarrow> 'w fleet \<Rightarrow> 'w fleet" where
  "fleet_back F i deadline now \<sigma> =
     (case fw_sess \<sigma> i of
        FBack q cid n rec err \<Rightarrow>
          (case azure_read (replica_config F (fv_home F i)) (fv_client F) (fv_parse F) (call_key F i q) deadline (now, fw_world \<sigma>) of
             (cur, _, w') \<Rightarrow>
               \<sigma>\<lparr>fw_world := w',
                 fw_sess := (fw_sess \<sigma>)(i := of_phase (after_write q cid n (azure_put_failed (encode_record rec) err cur)))\<rparr>)
      | _ \<Rightarrow> \<sigma>)"

definition fleet_late :: "('w, 's) fleet_env \<Rightarrow> 'w table_rows \<Rightarrow> nat \<Rightarrow> 'w fleet \<Rightarrow> 'w fleet" where
  "fleet_late F rows i \<sigma> =
     (case fw_late \<sigma> i of
        None \<Rightarrow> \<sigma>
      | Some (q, etag, e) \<Rightarrow>
          (case send_write (fv_client F) etag e (fw_world \<sigma>) of
             (_, _, w') \<Rightarrow> \<sigma>\<lparr>fw_world := w', fw_late := (fw_late \<sigma>)(i := None),
                             fw_commits := fleet_log F rows i q (fw_world \<sigma>) w' (fw_commits \<sigma>)\<rparr>))"

definition fleet_init_step :: "('w, 's) fleet_env \<Rightarrow> nat \<Rightarrow> int \<Rightarrow> int \<Rightarrow> 'w fleet \<Rightarrow> 'w fleet" where
  "fleet_init_step F r deadline now \<sigma> =
     (case init_step (replica_config F r) (fv_client F) deadline (fw_init \<sigma> r, now, fw_world \<sigma>) of
        (p, _, w') \<Rightarrow> \<sigma>\<lparr>fw_world := w', fw_init := (fw_init \<sigma>)(r := p)\<rparr>)"

fun fleet_next :: "('w, 's) fleet_env \<Rightarrow> 'w table_rows \<Rightarrow> fleet_event \<Rightarrow> 'w fleet \<Rightarrow> 'w fleet" where
  "fleet_next F rows (Call i q cid) \<sigma> = fleet_call i q cid \<sigma>"
| "fleet_next F rows (InitBegin r) \<sigma> = (if fw_init \<sigma> r = RUnready then \<sigma>\<lparr>fw_init := (fw_init \<sigma>)(r := RTable)\<rparr> else \<sigma>)"
| "fleet_next F rows (InitStep r deadline now) \<sigma> = fleet_init_step F r deadline now \<sigma>"
| "fleet_next F rows (InitFailed i) \<sigma> =
     (case fw_sess \<sigma> i of
        FReading q cid n \<Rightarrow> if fw_init \<sigma> (fv_home F i) = RUnready then \<sigma>\<lparr>fw_sess := (fw_sess \<sigma>)(i := FFinished q (Inl StateUnavailable))\<rparr> else \<sigma>
      | _ \<Rightarrow> \<sigma>)"
| "fleet_next F rows (ReadRow i deadline now) \<sigma> = fleet_read F i deadline now \<sigma>"
| "fleet_next F rows (WriteRow i deadline now) \<sigma> = fleet_write F rows i deadline now \<sigma>"
| "fleet_next F rows (GiveUp i) \<sigma> = fleet_give_up F i \<sigma>"
| "fleet_next F rows (ReadBack i deadline now) \<sigma> = fleet_back F i deadline now \<sigma>"
| "fleet_next F rows (LateWrite i) \<sigma> = fleet_late F rows i \<sigma>"
| "fleet_next F rows (LateConfig r) \<sigma> =
     \<sigma>\<lparr>fw_world := snd (snd (createEntity (fv_client F) (config_entity (replica_config F r)) (fw_world \<sigma>)))\<rparr>"
| "fleet_next F rows (LateRead pk rk) \<sigma> = \<sigma>\<lparr>fw_world := snd (snd (getEntity (fv_client F) pk rk (fw_world \<sigma>)))\<rparr>"
| "fleet_next F rows LateTable \<sigma> = \<sigma>\<lparr>fw_world := snd (snd (createTable (fv_client F) (fw_world \<sigma>)))\<rparr>"

inductive fleet_reachable :: "('w, 's) fleet_env \<Rightarrow> 'w table_rows \<Rightarrow> 'w \<Rightarrow> 'w fleet \<Rightarrow> bool" for F rows w where
  fleet_start: "fleet_reachable F rows w (fleet_init w)"
| fleet_event: "fleet_reachable F rows w \<sigma> \<Longrightarrow> fleet_reachable F rows w (fleet_next F rows ev \<sigma>)"

section \<open>The invariant\<close>

text \<open>A record as \<open>reserve\<close> builds it, with commit ID \<open>c\<close>: like every object, \<open>quota\<close> has each key once.\<close>

definition carries :: "device_record \<Rightarrow> string \<Rightarrow> bool" where
  "carries r c \<longleftrightarrow> commitID r = JStr c \<and> jm_wf (quota_of r)"

lemma carries_encode: "carries r c \<Longrightarrow> jget (encode_record r) ''commitID'' = JStr c"
  by (simp add: carries_def encode_record_def)

text \<open>What the proofs rely on besides the table: JSON round trips of the records stored, a hash is never
  the text \<open>config\<close>, and the fingerprints of the configured salts do not collide.\<close>

locale issuer_fleet = versioned_table "fv_client F" rows tinv seen
  for F :: "('w, 's) fleet_env" and rows tinv seen +
  assumes json: "record_wf rec \<Longrightarrow> carries rec c \<Longrightarrow> fv_parse F (fv_print F (encode_record rec)) = Some (encode_record rec)"
    and key_not_config: "fv_hmac F s x \<noteq> ''config''"
    and salts: "fv_fingerprint F (fv_salt F r) = fv_fingerprint F (fv_salt F r') \<Longrightarrow> fv_salt F r = fv_salt F r'"

abbreviation logged :: "'w fleet \<Rightarrow> nat set" where
  "logged \<sigma> \<equiv> fst ` set (fw_commits \<sigma>)"

abbreviation call_ready :: "('w, 's) fleet_env \<Rightarrow> 'w fleet \<Rightarrow> nat \<Rightarrow> bool" where
  "call_ready F \<sigma> i \<equiv> fw_init \<sigma> (fv_home F i) = RReady"

abbreviation call_cid :: "'w fleet \<Rightarrow> nat \<Rightarrow> string option" where
  "call_cid \<sigma> i \<equiv> map_of (fw_cids \<sigma>) i"

text \<open>A decision taken from a version of the row that existed.\<close>

definition decided :: "('w, 's) fleet_env \<Rightarrow> (string \<times> string \<Rightarrow> string \<Rightarrow> (string \<times> string) list \<Rightarrow> bool) \<Rightarrow> nat
    \<Rightarrow> reserve_request \<Rightarrow> string \<Rightarrow> (string \<times> jv) option \<Rightarrow> device_record \<Rightarrow> bool" where
  "decided F known i q cid prior rec \<longleftrightarrow>
     request_ok q \<and> reserve_decide (fv_quota F) q cid (map_option snd prior) = Commit rec
     \<and> (case prior of None \<Rightarrow> True
        | Some (e, v) \<Rightarrow> \<exists>st. known (az_partition, call_key F i q) e [(''state'', st)] \<and> fv_parse F st = Some v)"

definition late_inv where
  "late_inv F known \<sigma> i p \<longleftrightarrow>
     (\<forall>q etag e. fw_late \<sigma> i = Some (q, etag, e) \<longrightarrow>
        call_ready F \<sigma> i \<and> i \<notin> logged \<sigma> \<and> (\<forall>q' c n r err. p = FBack q' c n r err \<longrightarrow> q' = q)
        \<and> (\<exists>cid prior rec. call_cid \<sigma> i = Some cid \<and> decided F known i q cid prior rec
             \<and> etag = map_option fst prior \<and> e = put_entity F i q rec))"

definition call_inv where
  "call_inv F known \<sigma> i p \<longleftrightarrow>
     (case p of
        FIdle \<Rightarrow> i \<notin> logged \<sigma> \<and> fw_late \<sigma> i = None \<and> call_cid \<sigma> i = None
      | FReading q cid n \<Rightarrow> i \<notin> logged \<sigma> \<and> fw_late \<sigma> i = None \<and> call_cid \<sigma> i = Some cid \<and> request_ok q
      | FWriting q cid n prior rec \<Rightarrow> i \<notin> logged \<sigma> \<and> fw_late \<sigma> i = None \<and> call_cid \<sigma> i = Some cid \<and> call_ready F \<sigma> i
          \<and> decided F known i q cid prior rec
      | FBack q cid n rec err \<Rightarrow> call_cid \<sigma> i = Some cid \<and> call_ready F \<sigma> i \<and> request_ok q \<and> carries rec cid
          \<and> (\<forall>q'. (i, q') \<in> set (fw_commits \<sigma>) \<longrightarrow> q' = q) \<and> (refused err \<longrightarrow> i \<notin> logged \<sigma> \<and> fw_late \<sigma> i = None)
      | FFinished q res \<Rightarrow> res = Inr ReserveOk \<longrightarrow> (i, q) \<in> set (fw_commits \<sigma>))"

definition device_row_inv where
  "device_row_inv F K cids cs k row \<longleftrightarrow>
     (case row of
        None \<Rightarrow> row_ok K (fv_quota F) cs k None
      | Some (e, ps) \<Rightarrow> \<exists>i r cid. i \<in> fst ` set cs \<and> map_of cids i = Some cid \<and> carries r cid \<and> record_wf r
          \<and> ps = [(''state'', fv_print F (encode_record r))] \<and> row_ok K (fv_quota F) cs k (Some (encode_record r)))"

definition config_holds where
  "config_holds F row s \<longleftrightarrow> (\<exists>e ps. row = Some (e, ps) \<and> map_of ps ''saltFingerprint'' = Some (fv_fingerprint F s))"

definition fleet_inv where
  "fleet_inv F rows tinv seen s \<sigma> \<longleftrightarrow>
     tinv (fw_world \<sigma>)
     \<and> distinct (map snd (fw_cids \<sigma>)) \<and> distinct (map fst (fw_commits \<sigma>)) \<and> counters_increase (fv_hmac F s) (fw_commits \<sigma>)
     \<and> (\<forall>i \<in> logged \<sigma>. call_ready F \<sigma> i)
     \<and> (\<forall>r. fw_init \<sigma> r = RReady \<longrightarrow> fv_salt F r = s \<and> config_holds F (rows (fw_world \<sigma>) (az_partition, ''config'')) s)
     \<and> (\<forall>k. k \<noteq> ''config'' \<longrightarrow> device_row_inv F (fv_hmac F s) (fw_cids \<sigma>) (fw_commits \<sigma>) k (rows (fw_world \<sigma>) (az_partition, k)))
     \<and> (\<forall>i. call_inv F (seen (fw_world \<sigma>)) \<sigma> i (fw_sess \<sigma> i) \<and> late_inv F (seen (fw_world \<sigma>)) \<sigma> i (fw_sess \<sigma> i))"

lemma fleet_invD:
  assumes "fleet_inv F rows tinv seen s \<sigma>"
  shows "tinv (fw_world \<sigma>)" "distinct (map snd (fw_cids \<sigma>))" "distinct (map fst (fw_commits \<sigma>))"
    "counters_increase (fv_hmac F s) (fw_commits \<sigma>)" "i \<in> logged \<sigma> \<Longrightarrow> call_ready F \<sigma> i"
    "fw_init \<sigma> r = RReady \<Longrightarrow> fv_salt F r = s \<and> config_holds F (rows (fw_world \<sigma>) (az_partition, ''config'')) s"
    "k \<noteq> ''config'' \<Longrightarrow> device_row_inv F (fv_hmac F s) (fw_cids \<sigma>) (fw_commits \<sigma>) k (rows (fw_world \<sigma>) (az_partition, k))"
    "call_inv F (seen (fw_world \<sigma>)) \<sigma> i (fw_sess \<sigma> i)" "late_inv F (seen (fw_world \<sigma>)) \<sigma> i (fw_sess \<sigma> i)"
  using assms unfolding fleet_inv_def by blast+

lemma decided_mono:
  "decided F known i q cid prior rec \<Longrightarrow> (\<And>k e p. known k e p \<Longrightarrow> known' k e p) \<Longrightarrow> decided F known' i q cid prior rec"
  unfolding decided_def by (cases prior) (auto, blast)

lemma decided_commit:
  assumes "decided F known i q cid prior rec"
  shows "carries rec cid" "record_wf rec" "request_ok q"
proof -
  from assms have q: "request_ok q" and d: "reserve_decide (fv_quota F) q cid (map_option snd prior) = Commit rec"
    by (auto simp: decided_def)
  from d show "carries rec cid" by (rule decide_CommitE) (simp add: commit_record_def carries_def live_counts_wf)
  from commit_wf [OF d q] show "record_wf rec" .
  from q show "request_ok q" .
qed

text \<open>A change of the world that keeps every device row and an existing configuration row.\<close>

definition quiet where
  "quiet rows tinv seen w w' \<longleftrightarrow>
     tinv w' \<and> (\<forall>k e p. seen w k e p \<longrightarrow> seen w' k e p)
     \<and> (\<forall>k. k \<noteq> ''config'' \<or> rows w (az_partition, k) \<noteq> None \<longrightarrow> rows w' (az_partition, k) = rows w (az_partition, k))"

lemma quiet_refl: "tinv w \<Longrightarrow> quiet rows tinv seen w w"
  by (simp add: quiet_def)

lemma call_inv_world:
  assumes "call_inv F (seen w) \<sigma> i p" "late_inv F (seen w) \<sigma> i p" and "\<And>k e p. seen w k e p \<Longrightarrow> seen w' k e p"
  shows "call_inv F (seen w') \<sigma> i p" "late_inv F (seen w') \<sigma> i p"
proof -
  have m: "decided F (seen w) i q cid prior rec \<Longrightarrow> decided F (seen w') i q cid prior rec" for q cid prior rec
    by (erule decided_mono) (rule assms(3))
  show "call_inv F (seen w') \<sigma> i p" using assms(1) m by (cases p) (auto simp: call_inv_def)
  show "late_inv F (seen w') \<sigma> i p" using assms(2) m unfolding late_inv_def by blast
qed

lemma call_inv_fw_world [simp]:
  "call_inv F known (\<sigma>\<lparr>fw_world := w\<rparr>) i p = call_inv F known \<sigma> i p"
  "late_inv F known (\<sigma>\<lparr>fw_world := w\<rparr>) i p = late_inv F known \<sigma> i p"
  "call_inv F known (\<sigma>\<lparr>fw_sess := f\<rparr>) i p = call_inv F known \<sigma> i p"
  "late_inv F known (\<sigma>\<lparr>fw_sess := f\<rparr>) i p = late_inv F known \<sigma> i p"
  by (auto simp: call_inv_def late_inv_def split: fleet_phase.splits)

lemma quiet_inv:
  assumes I: "fleet_inv F rows tinv seen s \<sigma>" and q: "quiet rows tinv seen (fw_world \<sigma>) w'"
  shows "fleet_inv F rows tinv seen s (\<sigma>\<lparr>fw_world := w'\<rparr>)"
proof -
  have dev: "rows w' (az_partition, k) = rows (fw_world \<sigma>) (az_partition, k)" if "k \<noteq> ''config''" for k
    using q that by (simp add: quiet_def)
  have cfg: "config_holds F (rows w' (az_partition, ''config'')) s" if "config_holds F (rows (fw_world \<sigma>) (az_partition, ''config'')) s"
    using q that by (auto simp: quiet_def config_holds_def)
  have "call_inv F (seen w') \<sigma> i (fw_sess \<sigma> i)" "late_inv F (seen w') \<sigma> i (fw_sess \<sigma> i)" for i
    using I q call_inv_world [of F seen "fw_world \<sigma>" \<sigma> i "fw_sess \<sigma> i" w'] by (auto simp: fleet_inv_def quiet_def)
  with I q dev cfg show ?thesis by (simp add: fleet_inv_def quiet_def)
qed

lemma set_call_inv:
  assumes "fleet_inv F rows tinv seen s \<sigma>" and "call_inv F (seen (fw_world \<sigma>)) \<sigma> i p" "late_inv F (seen (fw_world \<sigma>)) \<sigma> i p"
  shows "fleet_inv F rows tinv seen s (\<sigma>\<lparr>fw_sess := (fw_sess \<sigma>)(i := p)\<rparr>)"
  using assms by (auto simp: fleet_inv_def)

text \<open>The invariant of another call after call \<open>i\<close> settled its write.\<close>

lemma call_inv_other:
  assumes "call_inv F known \<sigma> j p" "late_inv F known \<sigma> j p" and "j \<noteq> i" and "cs' = fw_commits \<sigma> \<or> cs' = (i, q) # fw_commits \<sigma>"
  shows "call_inv F known (\<sigma>\<lparr>fw_late := (fw_late \<sigma>)(i := x), fw_commits := cs'\<rparr>) j p"
    and "late_inv F known (\<sigma>\<lparr>fw_late := (fw_late \<sigma>)(i := x), fw_commits := cs'\<rparr>) j p"
proof -
  have j: "j \<in> fst ` set cs' \<longleftrightarrow> j \<in> logged \<sigma>" "(j, q') \<in> set cs' \<longleftrightarrow> (j, q') \<in> set (fw_commits \<sigma>)" for q'
    using assms(3,4) by auto
  show "call_inv F known (\<sigma>\<lparr>fw_late := (fw_late \<sigma>)(i := x), fw_commits := cs'\<rparr>) j p"
    using assms(1,3) j by (cases p) (auto simp: call_inv_def)
  show "late_inv F known (\<sigma>\<lparr>fw_late := (fw_late \<sigma>)(i := x), fw_commits := cs'\<rparr>) j p"
    using assms(2,3) j unfolding late_inv_def by simp
qed

context issuer_fleet
begin

lemma quiet_call:
  assumes "tinv w" "table_call (fv_client F) w w'"
    and "\<And>k. k \<noteq> ''config'' \<or> rows w (az_partition, k) \<noteq> None \<Longrightarrow> rows w' (az_partition, k) = rows w (az_partition, k)"
  shows "quiet rows tinv seen w w'"
  using assms call_inv [OF assms(1,2)] call_seen [OF assms(1,2)] by (simp add: quiet_def)

lemma quiet_calls:
  assumes "tinv w"
  shows "createTable (fv_client F) w = (ms, x, w') \<Longrightarrow> quiet rows tinv seen w w'"
    and "getEntity (fv_client F) pk rk w = (ms, g, w') \<Longrightarrow> quiet rows tinv seen w w'"
    and "createEntity (fv_client F) (config_entity cfg) w = (ms, x, w') \<Longrightarrow> quiet rows tinv seen w w'"
proof -
  note D = table_serviceD [OF service]
  show "quiet rows tinv seen w w'" if "createTable (fv_client F) w = (ms, x, w')"
    using D(1) [OF that] by (intro quiet_call assms table_calls(1) [OF that]) simp
  show "quiet rows tinv seen w w'" if "getEntity (fv_client F) pk rk w = (ms, g, w')"
    using D(4) [OF that] by (intro quiet_call assms table_calls(4) [OF that]) simp
  show "quiet rows tinv seen w w'" if "createEntity (fv_client F) (config_entity cfg) w = (ms, x, w')"
    using D(2) [OF that] by (intro quiet_call assms table_calls(2) [OF that]) (auto simp: created_def config_entity_def split: sum.splits)
qed

lemma quiet_bounded:
  assumes "bounded n call tw = (r, tw')" "tinv (snd tw)"
    and "\<And>ms x w'. call (snd tw) = (ms, x, w') \<Longrightarrow> quiet rows tinv seen (snd tw) w'"
  shows "quiet rows tinv seen (snd tw) (snd tw')"
  using assms(1) by (cases rule: bounded_cases) (auto intro: assms quiet_refl)

lemma quiet_read:
  assumes "azure_read cfg (fv_client F) (fv_parse F) key deadline tw = (res, tw')" "tinv (snd tw)"
  shows "quiet rows tinv seen (snd tw) (snd tw')"
proof -
  obtain r tw1 where b: "bounded (remaining cfg deadline (fst tw)) (getEntity (fv_client F) az_partition key) tw = (r, tw1)"
    by (rule prod.exhaust)
  with assms(1) have "tw' = tw1" by (auto simp: azure_read_def split: sum.splits)
  with quiet_bounded [OF b assms(2) quiet_calls(2) [OF assms(2)]] show ?thesis by simp
qed

lemma quiet_init_step:
  assumes "init_step cfg (fv_client F) deadline (p, tw) = (p', tw')" "tinv (snd tw)"
  shows "quiet rows tinv seen (snd tw) (snd tw')"
proof (cases p)
  case RTable
  with assms show ?thesis by (auto split: prod.splits intro: quiet_bounded quiet_calls(1))
next
  case RConfig
  with assms show ?thesis by (auto split: prod.splits sum.splits intro: quiet_bounded quiet_calls(3))
next
  case RCheck
  with assms show ?thesis by (auto split: prod.splits sum.splits intro: quiet_bounded quiet_calls(2))
qed (use assms in \<open>auto intro: quiet_refl\<close>)

text \<open>A replica that becomes ready finds, or has put, its own fingerprint in the configuration row.\<close>

lemma init_step_ready:
  assumes "init_step cfg (fv_client F) deadline (p, tw) = (RReady, tw')" "p \<noteq> RReady"
  shows "\<exists>e ps. rows (snd tw') (az_partition, ''config'') = Some (e, ps) \<and> map_of ps ''saltFingerprint'' = Some (az_fingerprint cfg)"
proof (cases p)
  case RConfig
  with assms(1) obtain u where "bounded (remaining cfg deadline (fst tw)) (createEntity (fv_client F) (config_entity cfg)) tw = (Inr u, tw')"
    by (auto split: prod.splits sum.splits)
  from bounded_createEntity [OF service this] show ?thesis by (auto simp: created_def config_entity_def)
next
  case RCheck
  with assms(1) obtain row where b: "bounded (remaining cfg deadline (fst tw)) (getEntity (fv_client F) az_partition ''config'') tw = (Inr row, tw')"
    and m: "map_of (snd row) ''saltFingerprint'' = Some (az_fingerprint cfg)"
    by (auto split: prod.splits sum.splits if_splits)
  from bounded_getEntity [OF service b] m show ?thesis by (cases row) auto
qed (use assms in \<open>auto split: prod.splits if_splits\<close>)

lemma key_of_ready:
  assumes "fleet_inv F rows tinv seen s \<sigma>" "call_ready F \<sigma> i"
  shows "call_key F i q = fv_hmac F s (rq_keyId q)" "call_key F i q \<noteq> ''config''"
  using assms key_not_config by (auto simp: fleet_inv_def call_key_def)

lemma read_decided:
  assumes I: "fleet_inv F rows tinv seen s \<sigma>" and rdy: "call_ready F \<sigma> i"
    and rd: "azure_read cfg (fv_client F) (fv_parse F) (call_key F i q) deadline (now, fw_world \<sigma>) = (Inr (Some (e, v)), tw')"
  shows "\<exists>st. seen (snd tw') (az_partition, call_key F i q) e [(''state'', st)] \<and> fv_parse F st = Some v"
    and "\<exists>j r cid. j \<in> logged \<sigma> \<and> call_cid \<sigma> j = Some cid \<and> carries r cid \<and> v = encode_record r"
proof -
  let ?k = "call_key F i q"
  from read_rows(3) [OF service rd refl] obtain ps where ps: "rows (fw_world \<sigma>) (az_partition, ?k) = Some (e, ps)"
    "Option.bind (map_of ps ''state'') (fv_parse F) = Some v" by auto
  from I have ti: "tinv (fw_world \<sigma>)" by (simp add: fleet_inv_def)
  from fleet_invD(7) [OF I key_of_ready(2) [OF I rdy, of q]] ps(1) obtain j r cid where w: "j \<in> logged \<sigma>" "call_cid \<sigma> j = Some cid"
    "carries r cid" "record_wf r" "ps = [(''state'', fv_print F (encode_record r))]"
    unfolding device_row_inv_def by fastforce
  with ps(2) json have v: "v = encode_record r" by fastforce
  with w show "\<exists>j r cid. j \<in> logged \<sigma> \<and> call_cid \<sigma> j = Some cid \<and> carries r cid \<and> v = encode_record r" by blast
  from row_seen [OF ti ps(1)] quiet_read [OF rd] ti have "seen (snd tw') (az_partition, ?k) e ps" by (simp add: quiet_def)
  with w ps(2) show "\<exists>st. seen (snd tw') (az_partition, ?k) e [(''state'', st)] \<and> fv_parse F st = Some v" by auto
qed

end

lemma map_of_distinct_snd:
  assumes "distinct (map snd xs)" "map_of xs i = Some c" "map_of xs j = Some c"
  shows "i = j"
proof -
  from assms(2,3) have "(i, c) \<in> set xs" "(j, c) \<in> set xs" by (auto dest: map_of_SomeD)
  with assms(1) inj_onD [of snd "set xs" "(i, c)" "(j, c)"] show ?thesis by (simp add: distinct_map)
qed

lemma device_row_Some:
  "device_row_inv F K cids cs k (Some (e, [(''state'', st)])) \<Longrightarrow>
   \<exists>i r cid. i \<in> fst ` set cs \<and> map_of cids i = Some cid \<and> carries r cid \<and> record_wf r
     \<and> st = fv_print F (encode_record r) \<and> row_ok K (fv_quota F) cs k (Some (encode_record r))"
  by (simp add: device_row_inv_def)

context issuer_fleet
begin

lemma prior_row_ok:
  assumes I: "fleet_inv F rows tinv seen s \<sigma>" and rdy: "call_ready F \<sigma> i"
    and dec: "decided F (seen (fw_world \<sigma>)) i q cid prior rec"
    and et: "map_option fst (rows (fw_world \<sigma>) (az_partition, call_key F i q)) = map_option fst prior"
  shows "row_ok (fv_hmac F s) (fv_quota F) (fw_commits \<sigma>) (call_key F i q) (map_option snd prior)"
proof -
  let ?row = "rows (fw_world \<sigma>) (az_partition, call_key F i q)"
  note D = fleet_invD(7) [OF I key_of_ready(2) [OF I rdy, of q]]
  show ?thesis
  proof (cases prior)
    case None
    with et D show ?thesis by (simp add: device_row_inv_def)
  next
    case (Some ev)
    obtain e v where ev: "ev = (e, v)" by (cases ev)
    from dec Some ev obtain st where st: "seen (fw_world \<sigma>) (az_partition, call_key F i q) e [(''state'', st)]" "fv_parse F st = Some v"
      by (auto simp: decided_def)
    from et Some ev obtain ps where row: "?row = Some (e, ps)" by auto
    from seen_unique [OF fleet_invD(1) [OF I] st(1) row] have ps: "ps = [(''state'', st)]" .
    from device_row_Some [OF D [unfolded row ps]] obtain r c where r: "carries r c" "record_wf r" "st = fv_print F (encode_record r)"
      "row_ok (fv_hmac F s) (fv_quota F) (fw_commits \<sigma>) (call_key F i q) (Some (encode_record r))"
      by blast
    from json [OF r(2,1)] st(2) r(3) have "v = encode_record r" by simp
    with r(4) Some ev show ?thesis by simp
  qed
qed

text \<open>A write that was applied changes its row: the row cannot already carry this call's commit ID.\<close>

lemma write_changes:
  assumes I: "fleet_inv F rows tinv seen s \<sigma>" and rdy: "call_ready F \<sigma> i" and nl: "i \<notin> logged \<sigma>" and cid: "call_cid \<sigma> i = Some cid"
    and dec: "decided F known i q cid prior rec"
    and w': "rows w' = (rows (fw_world \<sigma>))((az_partition, call_key F i q) \<mapsto> (et, props (put_entity F i q rec)))"
  shows "rows w' (az_partition, call_key F i q) \<noteq> rows (fw_world \<sigma>) (az_partition, call_key F i q)"
proof
  assume "rows w' (az_partition, call_key F i q) = rows (fw_world \<sigma>) (az_partition, call_key F i q)"
  from this [symmetric] have row: "rows (fw_world \<sigma>) (az_partition, call_key F i q) = Some (et, [(''state'', fv_print F (encode_record rec))])"
    unfolding w' by (simp add: put_entity_def)
  from device_row_Some [OF fleet_invD(7) [OF I key_of_ready(2) [OF I rdy, of q], unfolded row]] obtain j r c where j: "j \<in> logged \<sigma>"
    "call_cid \<sigma> j = Some c" "carries r c" "record_wf r" "fv_print F (encode_record rec) = fv_print F (encode_record r)"
    by blast
  note rec = decided_commit [OF dec]
  from json [OF rec(2,1), unfolded j(5)] json [OF j(4,3)] have "encode_record rec = encode_record r" by simp
  then have "c = cid" using carries_encode [OF j(3)] carries_encode [OF rec(1)] by simp
  with j(2) cid have "j = i" using map_of_distinct_snd [OF fleet_invD(2) [OF I]] by blast
  with j(1) nl show False by simp
qed

lemma commit_rows:
  assumes I: "fleet_inv F rows tinv seen s \<sigma>" and rdy: "call_ready F \<sigma> i" and nl: "i \<notin> logged \<sigma>" and cid: "call_cid \<sigma> i = Some cid"
    and dec: "decided F (seen (fw_world \<sigma>)) i q cid prior rec"
    and et: "map_option fst (rows (fw_world \<sigma>) (az_partition, call_key F i q)) = map_option fst prior"
    and w': "rows w' = (rows (fw_world \<sigma>))((az_partition, call_key F i q) \<mapsto> (e, props (put_entity F i q rec)))"
  shows "counters_increase (fv_hmac F s) ((i, q) # fw_commits \<sigma>)"
    and "k \<noteq> ''config'' \<Longrightarrow> device_row_inv F (fv_hmac F s) (fw_cids \<sigma>) ((i, q) # fw_commits \<sigma>) k (rows w' (az_partition, k))"
proof -
  note key = key_of_ready(1) [OF I rdy, of q]
  note rec = decided_commit [OF dec]
  from dec have d: "reserve_decide (fv_quota F) q cid (map_option snd prior) = Commit rec" by (simp add: decided_def)
  note commit = row_ok_commit [OF prior_row_ok [OF I rdy dec et] d rec(3) key [symmetric]]
  show "counters_increase (fv_hmac F s) ((i, q) # fw_commits \<sigma>)"
    using fleet_invD(4) [OF I] commit(2) key by simp
  show "device_row_inv F (fv_hmac F s) (fw_cids \<sigma>) ((i, q) # fw_commits \<sigma>) k (rows w' (az_partition, k))" if k: "k \<noteq> ''config''"
  proof (cases "k = call_key F i q")
    case True
    with commit(1) [of i] cid rec show ?thesis by (auto simp: device_row_inv_def w' put_entity_def)
  next
    case False
    then have other: "row_ok (fv_hmac F s) (fv_quota F) (fw_commits \<sigma>) k v \<Longrightarrow> row_ok (fv_hmac F s) (fv_quota F) ((i, q) # fw_commits \<sigma>) k v" for v
      using key rec(3) by (intro row_ok_other) auto
    from False fleet_invD(7) [OF I k] show ?thesis unfolding device_row_inv_def w'
      by (auto split: option.splits intro!: other)
  qed
qed

lemma settle_write:
  assumes I: "fleet_inv F rows tinv seen s \<sigma>" and rdy: "call_ready F \<sigma> i" and nl: "i \<notin> logged \<sigma>" and cid: "call_cid \<sigma> i = Some cid"
    and dec: "decided F (seen (fw_world \<sigma>)) i q cid prior rec"
    and call: "tinv w'" "\<And>k e p. seen (fw_world \<sigma>) k e p \<Longrightarrow> seen w' k e p"
    and eff: "rows w' = rows (fw_world \<sigma>) \<or>
        (map_option fst (rows (fw_world \<sigma>) (az_partition, call_key F i q)) = map_option fst prior
         \<and> (\<exists>e. rows w' = (rows (fw_world \<sigma>))((az_partition, call_key F i q) \<mapsto> (e, props (put_entity F i q rec)))))"
    and cs': "cs' = fleet_log F rows i q (fw_world \<sigma>) w' (fw_commits \<sigma>)"
    and p: "call_inv F (seen w') (\<sigma>\<lparr>fw_late := (fw_late \<sigma>)(i := None), fw_commits := cs'\<rparr>) i p"
  shows "fleet_inv F rows tinv seen s
    (\<sigma>\<lparr>fw_world := w', fw_sess := (fw_sess \<sigma>)(i := p), fw_late := (fw_late \<sigma>)(i := None), fw_commits := cs'\<rparr>)"
    (is "fleet_inv F rows tinv seen s ?\<sigma>")
proof -
  have rows_inv: "counters_increase (fv_hmac F s) cs' \<and> (\<forall>k. k \<noteq> ''config'' \<longrightarrow>
      device_row_inv F (fv_hmac F s) (fw_cids \<sigma>) cs' k (rows w' (az_partition, k))) \<and>
      rows w' (az_partition, ''config'') = rows (fw_world \<sigma>) (az_partition, ''config'')"
  proof (cases "rows w' (az_partition, call_key F i q) = rows (fw_world \<sigma>) (az_partition, call_key F i q)")
    case True
    with eff have "rows w' = rows (fw_world \<sigma>)" by (auto simp: fun_upd_idem_iff)
    with True cs' fleet_invD(4,7) [OF I] show ?thesis by (simp add: fleet_log_def)
  next
    case False
    with eff obtain e where "map_option fst (rows (fw_world \<sigma>) (az_partition, call_key F i q)) = map_option fst prior"
      and w': "rows w' = (rows (fw_world \<sigma>))((az_partition, call_key F i q) \<mapsto> (e, props (put_entity F i q rec)))" by auto
    note commit_rows [OF I rdy nl cid dec this]
    moreover have "cs' = (i, q) # fw_commits \<sigma>" using False cs' by (simp add: fleet_log_def)
    ultimately show ?thesis using w' key_of_ready(2) [OF I rdy, of q] by simp
  qed
  have cs: "cs' = fw_commits \<sigma> \<or> cs' = (i, q) # fw_commits \<sigma>" using cs' by (simp add: fleet_log_def)
  have calls: "call_inv F (seen w') ?\<sigma> j (fw_sess ?\<sigma> j) \<and> late_inv F (seen w') ?\<sigma> j (fw_sess ?\<sigma> j)" for j
  proof (cases "j = i")
    case True
    with p show ?thesis by (simp add: call_inv_def late_inv_def split: fleet_phase.splits)
  next
    case False
    note call_inv_world [OF fleet_invD(8,9) [OF I, of j] call(2)]
    from call_inv_other [OF this False cs, where x = None] False show ?thesis
      by (simp add: call_inv_def late_inv_def split: fleet_phase.splits)
  qed
  have "distinct (map fst cs')" using cs fleet_invD(3) [OF I] nl by auto
  moreover have "call_ready F \<sigma> j" if "j \<in> fst ` set cs'" for j using cs that fleet_invD(5) [OF I, of j] rdy by fastforce
  ultimately show ?thesis
    using rows_inv calls call(1) fleet_invD(2,6) [OF I] unfolding fleet_inv_def by simp
qed

end

lemma call_inv_init:
  assumes "\<And>r. fw_init \<sigma> r = RReady \<Longrightarrow> ini r = RReady"
  shows "call_inv F known \<sigma> i p \<Longrightarrow> call_inv F known (\<sigma>\<lparr>fw_init := ini\<rparr>) i p"
    and "late_inv F known \<sigma> i p \<Longrightarrow> late_inv F known (\<sigma>\<lparr>fw_init := ini\<rparr>) i p"
  using assms by (auto simp: call_inv_def split: fleet_phase.splits) (simp add: late_inv_def)

lemma init_inv:
  assumes I: "fleet_inv F rows tinv seen s \<sigma>" and r: "fw_init \<sigma> r \<noteq> RReady"
    and p: "p = RReady \<Longrightarrow> fv_salt F r = s \<and> config_holds F (rows (fw_world \<sigma>) (az_partition, ''config'')) s"
  shows "fleet_inv F rows tinv seen s (\<sigma>\<lparr>fw_init := (fw_init \<sigma>)(r := p)\<rparr>)"
proof -
  have keep: "fw_init \<sigma> r' = RReady \<Longrightarrow> ((fw_init \<sigma>)(r := p)) r' = RReady" for r' using r by auto
  let ?\<sigma> = "\<sigma>\<lparr>fw_init := (fw_init \<sigma>)(r := p)\<rparr>"
  have "call_inv F (seen (fw_world \<sigma>)) ?\<sigma> i (fw_sess \<sigma> i)" "late_inv F (seen (fw_world \<sigma>)) ?\<sigma> i (fw_sess \<sigma> i)" for i
    using call_inv_init [of \<sigma> "(fw_init \<sigma>)(r := p)", OF keep] fleet_invD(8,9) [OF I] by blast+
  with I p keep show ?thesis unfolding fleet_inv_def by simp
qed

text \<open>While no replica is ready nothing depends on a salt.\<close>

lemma unready_inv:
  assumes I: "fleet_inv F rows tinv seen s \<sigma>" and "\<And>r. fw_init \<sigma> r \<noteq> RReady"
  shows "fleet_inv F rows tinv seen s' \<sigma>"
proof -
  have cs: "fw_commits \<sigma> = []" using fleet_invD(5) [OF I] assms(2) by (cases "fw_commits \<sigma>") auto
  have "device_row_inv F (fv_hmac F s') (fw_cids \<sigma>) [] k (rows (fw_world \<sigma>) (az_partition, k))" if "k \<noteq> ''config''" for k
    using fleet_invD(7) [OF I that] cs by (auto simp: device_row_inv_def row_ok_def split: option.splits)
  with I cs assms(2) show ?thesis unfolding fleet_inv_def by simp
qed

context issuer_fleet
begin

lemma ready_inv:
  assumes I: "fleet_inv F rows tinv seen s \<sigma>" and r: "fw_init \<sigma> r \<noteq> RReady"
    and c: "config_holds F (rows (fw_world \<sigma>) (az_partition, ''config'')) (fv_salt F r)"
  shows "\<exists>s. fleet_inv F rows tinv seen s (\<sigma>\<lparr>fw_init := (fw_init \<sigma>)(r := RReady)\<rparr>)"
proof (cases "\<exists>r'. fw_init \<sigma> r' = RReady")
  case True
  then obtain r' where r': "fw_init \<sigma> r' = RReady" by blast
  from fleet_invD(6) [OF I r'] c have "fv_fingerprint F (fv_salt F r) = fv_fingerprint F (fv_salt F r')"
    by (auto simp: config_holds_def)
  then have "fv_salt F r = s" using salts fleet_invD(6) [OF I r'] by metis
  with init_inv [OF I r] c show ?thesis by blast
next
  case False
  with unready_inv [OF I] have "fleet_inv F rows tinv seen (fv_salt F r) \<sigma>" by blast
  from init_inv [OF this r] c show ?thesis by blast
qed

lemma init_step_inv:
  assumes I: "fleet_inv F rows tinv seen s \<sigma>"
  shows "\<exists>s. fleet_inv F rows tinv seen s (fleet_init_step F r deadline now \<sigma>)"
proof -
  obtain p t w' where st: "init_step (replica_config F r) (fv_client F) deadline (fw_init \<sigma> r, now, fw_world \<sigma>) = (p, t, w')"
    by (metis prod.exhaust)
  have q: "fleet_inv F rows tinv seen s (\<sigma>\<lparr>fw_world := w'\<rparr>)"
    using quiet_inv [OF I] quiet_init_step [OF st] fleet_invD(1) [OF I] by simp
  have res: "fleet_init_step F r deadline now \<sigma> = (\<sigma>\<lparr>fw_world := w'\<rparr>)\<lparr>fw_init := (fw_init (\<sigma>\<lparr>fw_world := w'\<rparr>))(r := p)\<rparr>"
    by (simp add: fleet_init_step_def st)
  show ?thesis
  proof (cases "fw_init \<sigma> r = RReady")
    case True
    with st have "p = RReady" by simp
    then have "fleet_init_step F r deadline now \<sigma> = \<sigma>\<lparr>fw_world := w'\<rparr>" unfolding res using True by (cases \<sigma>) (simp add: fun_upd_idem)
    with q show ?thesis by auto
  next
    case False
    show ?thesis
    proof (cases "p = RReady")
      case True
      from init_step_ready [OF st [unfolded True] False]
      have "config_holds F (rows w' (az_partition, ''config'')) (fv_salt F r)" by (simp add: config_holds_def replica_config_def)
      with ready_inv [OF q, of r] False True res show ?thesis by simp
    next
      case np: False
      from init_inv [OF q, of r p] False np show ?thesis unfolding res by auto
    qed
  qed
qed

lemma call_step_inv:
  assumes I: "fleet_inv F rows tinv seen s \<sigma>"
  shows "fleet_inv F rows tinv seen s (fleet_call i q cid \<sigma>)"
proof (cases "fw_sess \<sigma> i = FIdle \<and> cid \<notin> snd ` set (fw_cids \<sigma>)")
  case True
  note i = fleet_invD(8) [OF I, of i, unfolded conjunct1 [OF True], simplified call_inv_def fleet_phase.case]
  show ?thesis
  proof (cases "request_ok q")
    case ok: True
    let ?\<sigma> = "\<sigma>\<lparr>fw_sess := (fw_sess \<sigma>)(i := FReading q cid 0), fw_cids := (i, cid) # fw_cids \<sigma>\<rparr>"
    have dev: "device_row_inv F K ((i, cid) # fw_cids \<sigma>) (fw_commits \<sigma>) k row"
      if "device_row_inv F K (fw_cids \<sigma>) (fw_commits \<sigma>) k row" for K k and row :: "(string \<times> (string \<times> string) list) option"
    proof -
      have "map_of ((i, cid) # fw_cids \<sigma>) j = call_cid \<sigma> j" if "j \<in> logged \<sigma>" for j using that i by auto
      with that show ?thesis unfolding device_row_inv_def by (auto split: option.splits)
    qed
    have "call_inv F (seen (fw_world \<sigma>)) ?\<sigma> j (fw_sess ?\<sigma> j) \<and> late_inv F (seen (fw_world \<sigma>)) ?\<sigma> j (fw_sess ?\<sigma> j)" for j
    proof (cases "j = i")
      case True
      with i ok show ?thesis by (simp add: call_inv_def late_inv_def)
    next
      case False
      with fleet_invD(8,9) [OF I, of j] show ?thesis by (simp add: call_inv_def late_inv_def split: fleet_phase.splits)
    qed
    with I dev True ok show ?thesis unfolding fleet_inv_def by (simp add: fleet_call_def)
  next
    case False
    with True i set_call_inv [OF I, of i "FFinished q (Inl StateUnavailable)"] show ?thesis
      by (simp add: fleet_call_def call_inv_def late_inv_def)
  qed
qed (use I in \<open>auto simp: fleet_call_def\<close>)

lemma read_step_inv:
  assumes I: "fleet_inv F rows tinv seen s \<sigma>"
  shows "fleet_inv F rows tinv seen s (fleet_read F i deadline now \<sigma>)"
proof (cases "fw_sess \<sigma> i")
  case (FReading q cid n)
  note i = fleet_invD(8) [OF I, of i, unfolded FReading, simplified call_inv_def fleet_phase.case]
  show ?thesis
  proof (cases "call_ready F \<sigma> i")
    case rdy: True
    obtain res t w' where rd: "azure_read (replica_config F (fv_home F i)) (fv_client F) (fv_parse F) (call_key F i q) deadline (now, fw_world \<sigma>) = (res, t, w')"
      by (metis prod.exhaust)
    have q: "fleet_inv F rows tinv seen s (\<sigma>\<lparr>fw_world := w'\<rparr>)"
      using quiet_inv [OF I] quiet_read [OF rd] fleet_invD(1) [OF I] by simp
    have dec: "decided F (seen w') i q cid prior rec" if "after_read (fv_quota F) q cid n res = Writing q' cid' n' prior rec" for q' cid' n' prior rec
    proof -
      from that obtain p where p: "res = Inr p" by (cases res) auto
      with that have d: "prior = p" "reserve_decide (fv_quota F) q cid (map_option snd p) = Commit rec" by (auto split: decision.splits)
      with i rd [unfolded p] read_decided(1) [OF I rdy] show ?thesis
        by (cases p) (fastforce simp: decided_def)+
    qed
    have "call_inv F (seen w') \<sigma> i (fleet_after_read F q cid n res)"
    proof (cases "after_read (fv_quota F) q cid n res")
      case (Writing q' cid' n' prior rec)
      moreover from Writing have "q' = q" "cid' = cid" by (cases res; auto split: decision.splits)+
      ultimately show ?thesis using dec [OF Writing] i rdy by (simp add: fleet_after_read_def call_inv_def)
    qed (cases res; auto simp: fleet_after_read_def call_inv_def split: decision.splits)+
    moreover have "late_inv F (seen w') \<sigma> i p" for p using i by (simp add: late_inv_def)
    ultimately show ?thesis using set_call_inv [OF q, of i "fleet_after_read F q cid n res"] rdy
      by (simp add: fleet_read_def FReading rd)
  next
    case False
    with I show ?thesis by (simp add: fleet_read_def FReading)
  qed
qed (use I in \<open>simp_all add: fleet_read_def\<close>)

end

lemma same_late: "fw_late \<sigma> i = None \<Longrightarrow> \<sigma>\<lparr>fw_world := w, fw_sess := f, fw_late := (fw_late \<sigma>)(i := None), fw_commits := cs\<rparr>
    = \<sigma>\<lparr>fw_world := w, fw_sess := f, fw_commits := cs\<rparr>"
  by (cases \<sigma>) (simp add: fun_upd_idem)

context issuer_fleet
begin

lemma send_write_call:
  assumes "send_write (fv_client F) etag e w = (ms, r, w')"
  shows "table_call (fv_client F) w w'"
    and "rows w' = rows w \<or> (map_option fst (rows w (entity_key e)) = etag \<and> (\<exists>t. rows w' = (rows w)(entity_key e \<mapsto> (t, props e))))"
proof -
  have "table_call (fv_client F) w w' \<and> (rows w' = rows w \<or> (map_option fst (rows w (entity_key e)) = etag
      \<and> (\<exists>t. rows w' = (rows w)(entity_key e \<mapsto> (t, props e)))))"
  proof (cases etag)
    case None
    with assms have c: "createEntity (fv_client F) e w = (ms, r, w')" by (simp add: send_write_def)
    from table_serviceD(2) [OF service c] None show ?thesis
      by (auto simp: created_def table_calls(2) [OF c] split: sum.splits)
  next
    case (Some t)
    with assms have c: "updateEntity (fv_client F) e t w = (ms, r, w')" by (simp add: send_write_def)
    from table_serviceD(3) [OF service c] Some show ?thesis
      by (auto simp: replaced_def table_calls(3) [OF c] split: sum.splits)
  qed
  then show "table_call (fv_client F) w w'"
    and "rows w' = rows w \<or> (map_option fst (rows w (entity_key e)) = etag \<and> (\<exists>t. rows w' = (rows w)(entity_key e \<mapsto> (t, props e))))"
    by auto
qed

lemma azure_write_call:
  assumes "azure_write cfg (fv_client F) deadline etag e tw = (r, tw')"
  shows "snd tw' = snd tw \<or> table_call (fv_client F) (snd tw) (snd tw')"
proof -
  let ?call = "case etag of None \<Rightarrow> createEntity (fv_client F) e | Some t \<Rightarrow> updateEntity (fv_client F) e t"
  have "table_call (fv_client F) (snd tw) w'" if "?call (snd tw) = (ms, x, w')" for ms x w'
    using that by (cases etag) (auto intro: table_calls)
  from bounded_call [OF assms [unfolded azure_write_def] this] show ?thesis .
qed

lemma write_step_inv:
  assumes I: "fleet_inv F rows tinv seen s \<sigma>"
  shows "fleet_inv F rows tinv seen s (fleet_write F rows i deadline now \<sigma>)"
proof (cases "fw_sess \<sigma> i")
  case (FWriting q cid n prior rec)
  note i = fleet_invD(8) [OF I, of i, unfolded FWriting, simplified call_inv_def fleet_phase.case]
  then have rdy: "call_ready F \<sigma> i" and nl: "i \<notin> logged \<sigma>" and cid: "call_cid \<sigma> i = Some cid" and late: "fw_late \<sigma> i = None"
    and dec: "decided F (seen (fw_world \<sigma>)) i q cid prior rec" by auto
  let ?e = "put_entity F i q rec" and ?w = "fw_world \<sigma>"
  have key: "entity_key ?e = (az_partition, call_key F i q)" by (simp add: put_entity_def)
  obtain res t w' where wr: "azure_write (replica_config F (fv_home F i)) (fv_client F) deadline (map_option fst prior) ?e (now, ?w) = (res, t, w')"
    by (metis prod.exhaust)
  define cs' where "cs' = fleet_log F rows i q ?w w' (fw_commits \<sigma>)"
  define p where "p = (case res of Inr _ \<Rightarrow> of_phase (after_write q cid n (Inr True)) | Inl err \<Rightarrow> FBack q cid n rec err)"
  note ti = fleet_invD(1) [OF I]
  from azure_write_call [OF wr] have call: "tinv w'" "\<And>k e p. seen ?w k e p \<Longrightarrow> seen w' k e p"
    using ti call_inv [OF ti] call_seen [OF ti] by auto
  note eff = write_rows [OF service wr, unfolded key, simplified]
  have logs: "cs' = (i, q) # fw_commits \<sigma>" if "\<exists>e. rows w' = (rows ?w)((az_partition, call_key F i q) \<mapsto> (e, props ?e))"
    using that write_changes [OF I rdy nl cid dec] by (auto simp: cs'_def fleet_log_def)
  have "call_inv F (seen w') (\<sigma>\<lparr>fw_late := (fw_late \<sigma>)(i := None), fw_commits := cs'\<rparr>) i p"
  proof (cases res)
    case (Inr u)
    with eff logs have "cs' = (i, q) # fw_commits \<sigma>" by simp
    with Inr show ?thesis by (simp add: p_def call_inv_def)
  next
    case (Inl err)
    have "cs' = fw_commits \<sigma>" if "refused err" using eff Inl that by (auto simp: cs'_def fleet_log_def)
    moreover have "cs' = fw_commits \<sigma> \<or> cs' = (i, q) # fw_commits \<sigma>" by (auto simp: cs'_def fleet_log_def)
    moreover have "(i, q') \<notin> set (fw_commits \<sigma>)" for q' using nl by force
    ultimately show ?thesis using Inl cid rdy nl decided_commit [OF dec] by (auto simp: p_def call_inv_def)
  qed
  moreover have "rows w' = rows ?w \<or> (map_option fst (rows ?w (az_partition, call_key F i q)) = map_option fst prior
      \<and> (\<exists>e. rows w' = (rows ?w)((az_partition, call_key F i q) \<mapsto> (e, props ?e))))"
    using eff by (auto split: sum.splits)
  ultimately have "fleet_inv F rows tinv seen s
      (\<sigma>\<lparr>fw_world := w', fw_sess := (fw_sess \<sigma>)(i := p), fw_late := (fw_late \<sigma>)(i := None), fw_commits := cs'\<rparr>)"
    by (intro settle_write [OF I rdy nl cid dec call]) (auto simp: cs'_def)
  then show ?thesis unfolding same_late [of \<sigma>, OF late] by (simp add: fleet_write_def FWriting wr p_def cs'_def)
qed (use I in \<open>simp_all add: fleet_write_def\<close>)

lemma give_up_inv:
  assumes I: "fleet_inv F rows tinv seen s \<sigma>"
  shows "fleet_inv F rows tinv seen s (fleet_give_up F i \<sigma>)"
proof (cases "fw_sess \<sigma> i")
  case (FWriting q cid n prior rec)
  note i = fleet_invD(8) [OF I, of i, unfolded FWriting, simplified call_inv_def fleet_phase.case]
  let ?late = "(fw_late \<sigma>)(i \<mapsto> (q, map_option fst prior, put_entity F i q rec))"
  let ?\<sigma> = "\<sigma>\<lparr>fw_sess := (fw_sess \<sigma>)(i := FBack q cid n rec unavailable_error), fw_late := ?late\<rparr>"
  have "call_inv F (seen (fw_world \<sigma>)) ?\<sigma> j (fw_sess ?\<sigma> j) \<and> late_inv F (seen (fw_world \<sigma>)) ?\<sigma> j (fw_sess ?\<sigma> j)" for j
  proof (cases "j = i")
    case True
    have "(i, q') \<notin> set (fw_commits \<sigma>)" for q' using i by force
    with True i decided_commit [of F _ i q cid prior rec] show ?thesis by (auto simp: call_inv_def late_inv_def)
  next
    case False
    with fleet_invD(8,9) [OF I, of j] show ?thesis by (simp add: call_inv_def late_inv_def split: fleet_phase.splits)
  qed
  with I show ?thesis unfolding fleet_inv_def by (simp add: fleet_give_up_def FWriting)
qed (use I in \<open>simp_all add: fleet_give_up_def\<close>)

lemma back_step_inv:
  assumes I: "fleet_inv F rows tinv seen s \<sigma>"
  shows "fleet_inv F rows tinv seen s (fleet_back F i deadline now \<sigma>)"
proof (cases "fw_sess \<sigma> i")
  case (FBack q cid n rec err)
  note i = fleet_invD(8) [OF I, of i, unfolded FBack, simplified call_inv_def fleet_phase.case]
  obtain cur t w' where rd: "azure_read (replica_config F (fv_home F i)) (fv_client F) (fv_parse F) (call_key F i q) deadline (now, fw_world \<sigma>) = (cur, t, w')"
    by (metis prod.exhaust)
  define res where "res = azure_put_failed (encode_record rec) err cur"
  have q: "fleet_inv F rows tinv seen s (\<sigma>\<lparr>fw_world := w'\<rparr>)"
    using quiet_inv [OF I] quiet_read [OF rd] fleet_invD(1) [OF I] by simp
  have mine: "(i, q) \<in> set (fw_commits \<sigma>)" if "res = Inr True"
  proof -
    from that obtain e v where cur: "cur = Inr (Some (e, v))" and v: "jget v ''commitID'' = JStr cid"
      using i carries_encode [of rec cid] by (auto simp: res_def azure_put_failed_def split: sum.splits if_splits option.splits)
    from read_decided(2) [OF I _ rd [unfolded cur]] i obtain j r c where j: "j \<in> logged \<sigma>" "call_cid \<sigma> j = Some c" "carries r c" "v = encode_record r"
      by blast
    with v have "c = cid" using carries_encode by fastforce
    with j(2) i have "j = i" using map_of_distinct_snd [OF fleet_invD(2) [OF I]] by blast
    with j(1) i show ?thesis by force
  qed
  have "refused err" if "res = Inr False" using that by (auto simp: res_def azure_put_failed_def split: sum.splits if_splits)
  with mine i have ci: "call_inv F (seen w') \<sigma> i (of_phase (after_write q cid n res))"
    by (cases res) (auto simp: call_inv_def)
  have "late_inv F (seen w') \<sigma> i (FBack q cid n rec err)" using fleet_invD(9) [OF q, of i] FBack by simp
  then have "late_inv F (seen w') \<sigma> i p" if "\<And>q' c n r err. p \<noteq> FBack q' c n r err" for p using that unfolding late_inv_def by blast
  moreover have "of_phase (after_write q cid n res) \<noteq> FBack q' c n' r err'" for q' c n' r err' by (cases res) auto
  ultimately show ?thesis using set_call_inv [OF q, of i "of_phase (after_write q cid n res)"] ci
    by (simp add: fleet_back_def FBack rd res_def)
qed (use I in \<open>simp_all add: fleet_back_def\<close>)

lemma late_step_inv:
  assumes I: "fleet_inv F rows tinv seen s \<sigma>"
  shows "fleet_inv F rows tinv seen s (fleet_late F rows i \<sigma>)"
proof (cases "fw_late \<sigma> i")
  case (Some l)
  obtain q etag e where l: "l = (q, etag, e)" by (cases l)
  from fleet_invD(9) [OF I, of i] Some l obtain cid prior rec where rdy: "call_ready F \<sigma> i" and nl: "i \<notin> logged \<sigma>" and cid: "call_cid \<sigma> i = Some cid"
    and bk: "\<And>q' c n r err. fw_sess \<sigma> i = FBack q' c n r err \<Longrightarrow> q' = q"
    and dec: "decided F (seen (fw_world \<sigma>)) i q cid prior rec" and e: "etag = map_option fst prior" "e = put_entity F i q rec"
    unfolding late_inv_def by blast
  obtain ms r w' where wr: "send_write (fv_client F) etag e (fw_world \<sigma>) = (ms, r, w')" by (metis prod.exhaust)
  define cs' where "cs' = fleet_log F rows i q (fw_world \<sigma>) w' (fw_commits \<sigma>)"
  note ti = fleet_invD(1) [OF I] and sw = send_write_call [OF wr]
  have "cs' = fw_commits \<sigma> \<or> cs' = (i, q) # fw_commits \<sigma>" by (auto simp: cs'_def fleet_log_def)
  with fleet_invD(8) [OF I, of i] Some bk nl
  have "call_inv F (seen w') (\<sigma>\<lparr>fw_late := (fw_late \<sigma>)(i := None), fw_commits := cs'\<rparr>) i (fw_sess \<sigma> i)"
    by (auto simp: call_inv_def split: fleet_phase.splits)
  then have "fleet_inv F rows tinv seen s
      (\<sigma>\<lparr>fw_world := w', fw_sess := (fw_sess \<sigma>)(i := fw_sess \<sigma> i), fw_late := (fw_late \<sigma>)(i := None), fw_commits := cs'\<rparr>)"
    using sw(2) e by (intro settle_write [OF I rdy nl cid dec call_inv [OF ti sw(1)] call_seen [OF ti sw(1)]])
      (auto simp: cs'_def put_entity_def)
  then show ?thesis by (simp add: fleet_late_def Some l wr cs'_def)
qed (use I in \<open>simp add: fleet_late_def\<close>)

end

context issuer_fleet
begin

lemma next_inv:
  assumes I: "fleet_inv F rows tinv seen s \<sigma>"
  shows "\<exists>s. fleet_inv F rows tinv seen s (fleet_next F rows ev \<sigma>)"
proof (cases ev)
  case (InitBegin r)
  with init_inv [OF I, of r RTable] I show ?thesis by auto
next
  case (InitStep r deadline now)
  with init_step_inv [OF I] show ?thesis by simp
next
  case (InitFailed i)
  have "fleet_inv F rows tinv seen s (\<sigma>\<lparr>fw_sess := (fw_sess \<sigma>)(i := FFinished q (Inl StateUnavailable))\<rparr>)" if "fw_sess \<sigma> i = FReading q cid n" for q cid n
    using fleet_invD(8) [OF I, of i] that by (intro set_call_inv [OF I]) (auto simp: call_inv_def late_inv_def)
  with InitFailed I show ?thesis by (auto split: fleet_phase.split)
next
  case (LateConfig r)
  have "quiet rows tinv seen (fw_world \<sigma>) (snd (snd (createEntity (fv_client F) (config_entity (replica_config F r)) (fw_world \<sigma>))))"
    by (metis quiet_calls(3) [OF fleet_invD(1) [OF I]] prod.collapse)
  with quiet_inv [OF I] LateConfig show ?thesis by auto
next
  case (LateRead pk rk)
  have "quiet rows tinv seen (fw_world \<sigma>) (snd (snd (getEntity (fv_client F) pk rk (fw_world \<sigma>))))"
    by (metis quiet_calls(2) [OF fleet_invD(1) [OF I]] prod.collapse)
  with quiet_inv [OF I] LateRead show ?thesis by auto
next
  case LateTable
  have "quiet rows tinv seen (fw_world \<sigma>) (snd (snd (createTable (fv_client F) (fw_world \<sigma>))))"
    by (metis quiet_calls(1) [OF fleet_invD(1) [OF I]] prod.collapse)
  with quiet_inv [OF I] LateTable show ?thesis by auto
qed (use call_step_inv [OF I] read_step_inv [OF I] write_step_inv [OF I] give_up_inv [OF I] back_step_inv [OF I] late_step_inv [OF I]
    in \<open>auto intro!: exI [of _ s]\<close>)

lemma fleet_reachable_inv:
  assumes "fleet_reachable F rows w \<sigma>" "tinv w" "\<And>k. k \<noteq> ''config'' \<Longrightarrow> rows w (az_partition, k) = None"
  shows "\<exists>s. fleet_inv F rows tinv seen s \<sigma>"
  using assms(1)
proof induction
  case fleet_start
  show ?case using assms(2,3)
    by (auto simp: fleet_inv_def fleet_init_def device_row_inv_def row_ok_def call_inv_def late_inv_def)
next
  case (fleet_event \<sigma> ev)
  then show ?case using next_inv by blast
qed

end

section \<open>Properties\<close>

fun fleet_granted :: "fleet_phase \<Rightarrow> int" where
  "fleet_granted (FFinished q (Inr ReserveOk)) = rq_count q"
| "fleet_granted _ = 0"

lemma finished_logged:
  assumes "fleet_inv F rows tinv seen s \<sigma>" "fw_sess \<sigma> i = FFinished q (Inr ReserveOk)"
  shows "(i, q) \<in> set (fw_commits \<sigma>)"
  using fleet_invD(8) [OF assms(1), of i] assms(2) by (simp add: call_inv_def)

text \<open>
  C1. The quota holds across a fleet: whatever any number of issuer replicas do over one shared table, with
  calls of \<open>reserve\<close> interleaved at every request, answers lost or late, writes applied after their caller gave
  up and replicas started with a wrong salt, the tokens granted to one device in one epoch never add up to
  more than the quota. The table starts without device rows and behaves as documented.
\<close>

theorem fleet_quota_bound:
  assumes "issuer_fleet F rows tinv seen" and "tinv w" and "\<And>k. k \<noteq> ''config'' \<Longrightarrow> rows w (az_partition, k) = None"
    and "fleet_reachable F rows w \<sigma>" and "fv_quota F > 0" and "finite A"
    and granted: "\<And>i. i \<in> A \<Longrightarrow> \<exists>q. fw_sess \<sigma> i = FFinished q (Inr ReserveOk) \<and> rq_keyId q = d \<and> rq_epoch q = e"
  shows "(\<Sum>i \<in> A. fleet_granted (fw_sess \<sigma> i)) \<le> fv_quota F"
proof -
  obtain s where I: "fleet_inv F rows tinv seen s \<sigma>" using issuer_fleet.fleet_reachable_inv [OF assms(1,4,2,3)] by blast
  let ?K = "fv_hmac F s" and ?cs = "fw_commits \<sigma>"
  have rk: "\<exists>v. row_ok ?K (fv_quota F) ?cs (?K d) v"
    using fleet_invD(7) [OF I issuer_fleet.key_not_config [OF assms(1), of s d]] by (auto simp: device_row_inv_def split: option.splits)
  then have req: "\<forall>(i, q) \<in> set ?cs. request_ok q" and tot: "key_total ?K ?cs (?K d) e \<le> fv_quota F"
    using assms(5) by (auto simp: row_ok_def)
  have "(\<Sum>i \<in> A. fleet_granted (fw_sess \<sigma> i)) \<le> key_total ?K ?cs (?K d) e"
  proof (rule logged_sum_le [OF fleet_invD(3) [OF I] req assms(6)])
    fix i assume "i \<in> A"
    from granted [OF this] finished_logged [OF I, of i]
    show "\<exists>q. (i, q) \<in> set ?cs \<and> fleet_granted (fw_sess \<sigma> i) = rq_count q \<and> ?K (rq_keyId q) = ?K d \<and> rq_epoch q = e" by force
  qed
  with tot show ?thesis by simp
qed

text \<open>
  C2. No assertion is honoured twice by a fleet: two different calls that succeeded with an assertion of the
  same device, on whatever replicas, carried different counters.
\<close>

theorem fleet_assertion_unique:
  assumes "issuer_fleet F rows tinv seen" and "tinv w" and "\<And>k. k \<noteq> ''config'' \<Longrightarrow> rows w (az_partition, k) = None"
    and "fleet_reachable F rows w \<sigma>"
    and "fw_sess \<sigma> i = FFinished q (Inr ReserveOk)" and "fw_sess \<sigma> j = FFinished q' (Inr ReserveOk)" and "i \<noteq> j"
    and "rq_keyId q = rq_keyId q'" and "rq_mode q = ''assertion''" and "rq_mode q' = ''assertion''"
  shows "rq_signCount q \<noteq> rq_signCount q'"
proof -
  obtain s where I: "fleet_inv F rows tinv seen s \<sigma>" using issuer_fleet.fleet_reachable_inv [OF assms(1,4,2,3)] by blast
  show ?thesis
    using counters_increase_unique [OF fleet_invD(4,3) [OF I] finished_logged [OF I assms(5)] finished_logged [OF I assms(6)]] assms(7-)
    by simp
qed

text \<open>
  C35. Replicas with different salts never serve side by side: any two replicas that completed \<open>initialize\<close> on
  the same table were configured with the same salt.
\<close>

theorem fleet_one_salt:
  assumes "issuer_fleet F rows tinv seen" and "tinv w" and "\<And>k. k \<noteq> ''config'' \<Longrightarrow> rows w (az_partition, k) = None"
    and "fleet_reachable F rows w \<sigma>" and "fw_init \<sigma> r = RReady" and "fw_init \<sigma> r' = RReady"
  shows "fv_salt F r = fv_salt F r'"
proof -
  obtain s where I: "fleet_inv F rows tinv seen s \<sigma>" using issuer_fleet.fleet_reachable_inv [OF assms(1,4,2,3)] by blast
  from fleet_invD(6) [OF I assms(5)] fleet_invD(6) [OF I assms(6)] show ?thesis by simp
qed

section \<open>A concrete fleet\<close>

text \<open>
  The local table and the JSON codec, with replicas whose salts are strings. A key starts with a letter no
  configuration row starts with, and the fingerprint of a salt is the salt.
\<close>

definition local_fleet :: "(nat \<Rightarrow> string) \<Rightarrow> (nat \<Rightarrow> nat) \<Rightarrow> int \<Rightarrow> (table_world, string) fleet_env" where
  "local_fleet salt home quota =
     \<lparr>fv_client = local_table, fv_parse = json_parse (\<lambda>_. JFrac), fv_print = json_text, fv_hmac = (\<lambda>s x. ''k'' @ s @ x),
      fv_fingerprint = id, fv_salt = salt, fv_home = home, fv_timeout = 5000, fv_quota = quota\<rparr>"

lemma json_ok_record:
  assumes "record_wf r" "carries r c"
  shows "json_ok (encode_record r)"
proof -
  have "fst \<circ> (\<lambda>(k, c). (k, JInt c)) = (fst :: string \<times> int \<Rightarrow> string)" by auto
  with assms show ?thesis by (auto simp: encode_record_def carries_def record_wf_def jm_wf_def safe_int_def max_safe_def)
qed

interpretation local_issuers: issuer_fleet "local_fleet salt home quota" "\<lambda>w. jm_get (tw_rows w)" tw_inv tw_seen
  for salt home quota
proof -
  have v: "versioned_table (fv_client (local_fleet salt home quota)) (\<lambda>w. jm_get (tw_rows w)) tw_inv tw_seen"
    by (simp add: local_fleet_def local_versioned.versioned_table_axioms)
  have j: "json_parse (\<lambda>_. JFrac) (json_text (encode_record r)) = Some (encode_record r)" if "record_wf r" "carries r c" for r c
    using json_reads [OF json_ok_record [OF that], of "\<lambda>_. JFrac", unfolded reads_def, rule_format, of "Suc (length (json_text (encode_record r)))" "[]"]
    by (simp add: json_parse_def json_ws_def json_stop_def)
  show "issuer_fleet (local_fleet salt home quota) (\<lambda>w. jm_get (tw_rows w)) tw_inv tw_seen"
    by (intro issuer_fleet.intro v issuer_fleet_axioms.intro) (simp_all add: local_fleet_def j)
qed

definition fleet_run :: "('w, 's) fleet_env \<Rightarrow> 'w table_rows \<Rightarrow> 'w \<Rightarrow> fleet_event list \<Rightarrow> 'w fleet" where
  "fleet_run F rows w evs = fold (fleet_next F rows) evs (fleet_init w)"

lemma fleet_run_reachable: "fleet_reachable F rows w (fleet_run F rows w evs)"
  by (induction evs rule: rev_induct) (simp_all add: fleet_run_def fleet_start fleet_event)

text \<open>
  Two replicas with the same salt and a third with another. The acknowledgement of the configuration row
  is lost; the first assertion gives up and its write is applied late; the second assertion goes through.
\<close>

definition ex_fleet :: "(table_world, string) fleet_env" where
  "ex_fleet = local_fleet (\<lambda>r. if r = 2 then ''t'' else ''s'') (\<lambda>i. i mod 2) 4"

definition ex_fleet_events :: "fleet_event list" where
  "ex_fleet_events =
     [InitBegin 0, InitStep 0 8000 0, InitStep 0 8000 0, InitStep 0 8000 0, InitBegin 1, InitStep 1 8000 0, InitStep 1 8000 0,
      InitStep 1 8000 0, InitBegin 2, InitStep 2 8000 0, InitStep 2 8000 0, InitStep 2 8000 0,
      Call 0 ex_attest ''a'', ReadRow 0 8000 0, WriteRow 0 8000 0,
      Call 1 (ex_assert 1) ''b'', ReadRow 1 8000 0, GiveUp 1, LateWrite 1, ReadBack 1 8000 0,
      Call 2 (ex_assert 2) ''c'', ReadRow 2 8000 0, WriteRow 2 8000 0]"

definition ex_fleet_run :: "table_world fleet" where
  "ex_fleet_run = fleet_run ex_fleet (\<lambda>w. jm_get (tw_rows w)) \<lparr>tw_rows = [], tw_rev = 0, tw_lose = True\<rparr> ex_fleet_events"

definition fleet_view :: "'w fleet \<Rightarrow> fleet_phase list \<times> init_phase list" where
  "fleet_view \<sigma> = (map (fw_sess \<sigma>) [0, 1, 2], map (fw_init \<sigma>) [0, 1, 2])"

lemma ex_fleet_view:
  "fleet_view ex_fleet_run = ([FFinished ex_attest (Inr ReserveOk), FFinished (ex_assert 1) (Inr ReserveOk), FFinished (ex_assert 2) (Inr ReserveOk)],
     [RReady, RReady, RUnready])"
  by code_simp

lemma ex_fleet_results:
  "fw_sess ex_fleet_run 0 = FFinished ex_attest (Inr ReserveOk)"
  "fw_sess ex_fleet_run 1 = FFinished (ex_assert 1) (Inr ReserveOk)"
  "fw_sess ex_fleet_run 2 = FFinished (ex_assert 2) (Inr ReserveOk)"
  "fw_init ex_fleet_run 0 = RReady" "fw_init ex_fleet_run 1 = RReady" "fw_init ex_fleet_run 2 = RUnready"
  using ex_fleet_view by (simp_all add: fleet_view_def)

lemma ex_fleet_setup:
  "issuer_fleet ex_fleet (\<lambda>w. jm_get (tw_rows w)) tw_inv tw_seen" "tw_inv \<lparr>tw_rows = [], tw_rev = 0, tw_lose = True\<rparr>"
  "jm_get (tw_rows \<lparr>tw_rows = [], tw_rev = 0, tw_lose = True\<rparr>) (az_partition, k) = None"
  "fleet_reachable ex_fleet (\<lambda>w. jm_get (tw_rows w)) \<lparr>tw_rows = [], tw_rev = 0, tw_lose = True\<rparr> ex_fleet_run"
  unfolding ex_fleet_run_def
  by (simp_all add: ex_fleet_def local_issuers.issuer_fleet_axioms tw_inv_def jmap_simps fleet_run_reachable)

theorem fleet_quota_bound_witness:
  "(\<Sum>i \<in> {0, 1, 2}. fleet_granted (fw_sess ex_fleet_run i)) \<le> 4 \<and> (\<Sum>i \<in> {0, 1, 2}. fleet_granted (fw_sess ex_fleet_run i)) = 4"
proof
  have q: "fv_quota ex_fleet = 4" by (simp add: ex_fleet_def local_fleet_def)
  have "(\<Sum>i \<in> {0, 1, 2}. fleet_granted (fw_sess ex_fleet_run i)) \<le> fv_quota ex_fleet"
    by (rule fleet_quota_bound [OF ex_fleet_setup(1,2,3,4), where d = "''d''" and e = 5])
       (auto simp: q ex_fleet_results [simplified] ex_attest_def ex_assert_def)
  then show "(\<Sum>i \<in> {0, 1, 2}. fleet_granted (fw_sess ex_fleet_run i)) \<le> 4" by (simp add: q)
  show "(\<Sum>i \<in> {0, 1, 2}. fleet_granted (fw_sess ex_fleet_run i)) = 4"
    by (simp add: ex_fleet_results [simplified] ex_attest_def ex_assert_def)
qed

theorem fleet_assertion_unique_witness: "rq_signCount (ex_assert 1) \<noteq> rq_signCount (ex_assert 2)"
  by (rule fleet_assertion_unique [OF ex_fleet_setup(1,2,3,4) ex_fleet_results(2,3)]) (simp_all add: ex_assert_def)

theorem fleet_one_salt_witness: "fv_salt ex_fleet 0 = fv_salt ex_fleet 1 \<and> fw_init ex_fleet_run 2 = RUnready"
  using fleet_one_salt [OF ex_fleet_setup(1,2,3,4) ex_fleet_results(4,5)] ex_fleet_results(6) by blast

end
