(* ===== verification/RedemptionStore.thy ===== *)
theory RedemptionStore
  imports TableClient
begin

text \<open>
  Spend-once storage of the relay (\<^verbatim>\<open>ohttp-relay/redemption-store.js\<close>): the in-process set of
  spent keys and the shared table, in which a spend is the creation of a row carrying a fresh claim
  ID. The interface the relay's token check relies on is the locale \<open>redemption_store\<close>.
\<close>

datatype redemption_error = RedemptionUnavailable

section \<open>The interface\<close>

text \<open>A store that admits each (key fingerprint, nullifier) pair at most once and never forgets it.\<close>

locale redemption_store =
  fixes redeem :: "'s \<Rightarrow> string \<Rightarrow> string \<Rightarrow> (redemption_error + bool) \<times> 's"
    and spent :: "'s \<Rightarrow> (string \<times> string) set"
  assumes redeem_true: "redeem s f n = (Inr True, s') \<Longrightarrow> (f, n) \<notin> spent s \<and> (f, n) \<in> spent s'"
    and redeem_mono: "redeem s f n = (r, s') \<Longrightarrow> spent s \<subseteq> spent s'"
begin

lemma no_second_spend: "(f, n) \<in> spent s \<Longrightarrow> fst (redeem s f n) \<noteq> Inr True"
  using redeem_true [of s f n] by (metis prod.collapse)

end

text \<open>Answering a list of redemption requests in order.\<close>

fun redeem_run :: "('s \<Rightarrow> string \<Rightarrow> string \<Rightarrow> (redemption_error + bool) \<times> 's) \<Rightarrow> 's
    \<Rightarrow> (string \<times> string) list \<Rightarrow> (redemption_error + bool) list" where
  "redeem_run redeem s [] = []"
| "redeem_run redeem s ((f, n) # qs) =
     (case redeem s f n of (r, s') \<Rightarrow> r # redeem_run redeem s' qs)"

definition admissions :: "(redemption_error + bool) list \<Rightarrow> (string \<times> string) list \<Rightarrow> string \<times> string \<Rightarrow> nat" where
  "admissions rs qs q = length (filter (\<lambda>(r, q'). q' = q \<and> r = Inr True) (zip rs qs))"

lemma admissions_simps [simp]:
  "admissions [] qs q = 0"
  "admissions (r # rs) (q' # qs) q = (if q' = q \<and> r = Inr True then Suc (admissions rs qs q) else admissions rs qs q)"
  by (auto simp: admissions_def)

context redemption_store
begin

lemma spent_no_admissions: "q \<in> spent s \<Longrightarrow> admissions (redeem_run redeem s qs) qs q = 0"
proof (induction qs arbitrary: s)
  case (Cons p qs)
  obtain f n where p: "p = (f, n)" by (cases p)
  obtain r s' where r: "redeem s f n = (r, s')" by (cases "redeem s f n")
  from Cons.prems redeem_mono [OF r] have "q \<in> spent s'" by auto
  with Cons.IH [of s'] Cons.prems no_second_spend [of f n s] r p show ?case by auto
qed (simp add: admissions_def)

lemma at_most_once: "admissions (redeem_run redeem s qs) qs q \<le> 1"
proof (induction qs arbitrary: s)
  case (Cons p qs)
  obtain f n where p: "p = (f, n)" by (cases p)
  obtain r s' where r: "redeem s f n = (r, s')" by (cases "redeem s f n")
  show ?case
    using Cons.IH [of s'] redeem_true [of s f n s'] spent_no_admissions [of q s' qs] r p by auto
qed (simp add: admissions_def)

end

section \<open>The in-process store\<close>

record mem_redemption =
  spent_keys :: "string list"

definition memoryRedemptionStore :: mem_redemption where
  "memoryRedemptionStore = \<lparr>spent_keys = []\<rparr>"

definition redemption_key :: "string \<Rightarrow> string \<Rightarrow> string" where
  "redemption_key fingerprint nullifier = fingerprint @ '':'' @ nullifier"

definition mem_redeem :: "nat \<Rightarrow> mem_redemption \<Rightarrow> string \<Rightarrow> string \<Rightarrow> (redemption_error + bool) \<times> mem_redemption" where
  "mem_redeem maxKeys s fingerprint nullifier =
     (let key = redemption_key fingerprint nullifier in
      if key \<in> set (spent_keys s) then (Inr False, s)
      else if length (spent_keys s) \<ge> maxKeys then (Inl RedemptionUnavailable, s)
      else (Inr True, s\<lparr>spent_keys := spent_keys s @ [key]\<rparr>))"

interpretation mem_red: redemption_store "mem_redeem maxKeys"
  "\<lambda>s. {(f, n). redemption_key f n \<in> set (spent_keys s)}" for maxKeys
  by unfold_locales (auto simp: mem_redeem_def Let_def split: if_splits)

lemma redemption_key_inj:
  "CHR '':'' \<notin> set f \<Longrightarrow> CHR '':'' \<notin> set f' \<Longrightarrow>
   redemption_key f n = redemption_key f' n' \<longleftrightarrow> f = f' \<and> n = n'"
  by (induction f arbitrary: f'; case_tac f') (auto simp: redemption_key_def)

text \<open>
  The in-process store admits every (fingerprint, nullifier) pair at most once over any sequence of
  requests, from any state and whatever its capacity: it never evicts a spend.
\<close>

theorem mem_redeem_at_most_once:
  "admissions (redeem_run (mem_redeem maxKeys) s qs) qs q \<le> 1"
  by (rule mem_red.at_most_once)

text \<open>
  The in-process store answers exactly: a pair already spent is refused, a full store throws without
  changing anything, and otherwise the pair is admitted and is the only pair (of hexadecimal
  fingerprints) whose status changes.
\<close>

theorem mem_redeem_exact:
  assumes "CHR '':'' \<notin> set f"
  shows "case mem_redeem maxKeys s f n of (r, s') \<Rightarrow>
    (r = Inr False \<longleftrightarrow> redemption_key f n \<in> set (spent_keys s)) \<and>
    (r = Inl RedemptionUnavailable \<longleftrightarrow>
       redemption_key f n \<notin> set (spent_keys s) \<and> length (spent_keys s) \<ge> maxKeys) \<and>
    (r \<noteq> Inr True \<longrightarrow> s' = s) \<and>
    (\<forall>f' n'. CHR '':'' \<notin> set f' \<longrightarrow>
       (redemption_key f' n' \<in> set (spent_keys s') \<longleftrightarrow>
        redemption_key f' n' \<in> set (spent_keys s) \<or> (r = Inr True \<and> f' = f \<and> n' = n)))"
  using assms by (auto simp: mem_redeem_def Let_def redemption_key_inj)

theorem mem_redeem_exact_witness:
  "fst (mem_redeem 1 \<lparr>spent_keys = [''a:b'']\<rparr> ''c'' ''d'') = Inl RedemptionUnavailable"
  using mem_redeem_exact [where f = "''c''" and maxKeys = 1 and s = "\<lparr>spent_keys = [''a:b'']\<rparr>" and n = "''d''"]
  by (simp add: redemption_key_def split: prod.splits)

section \<open>The shared table\<close>

text \<open>\<open>/^[a-f0-9]{64}$/\<close>\<close>

definition hex64 :: "string \<Rightarrow> bool" where
  "hex64 s \<longleftrightarrow> length s = 64 \<and> (\<forall>c \<in> set s. c \<in> set ''0123456789abcdef'')"

definition claim_entity :: "string \<Rightarrow> string \<Rightarrow> string \<Rightarrow> entity" where
  "claim_entity fingerprint nullifier cid =
     \<lparr>partitionKey = ''spent-v1-'' @ fingerprint, rowKey = nullifier, props = [(''claimID'', cid)]\<rparr>"

text \<open>
  The life of one \<open>redeem\<close> call of \<open>azureRedemptionStore\<close>: make sure the table exists, try to create
  the claim row, and on any error read the row back. Every arrow is one awaited service call.
\<close>

datatype claim_phase =
    CIdle
  | CTable string string string
  | CCreate string string string
  | CCheck string string string
  | CDone string string string "redemption_error + bool"

fun after_table :: "string \<Rightarrow> string \<Rightarrow> string \<Rightarrow> client_error + unit \<Rightarrow> claim_phase" where
  "after_table f n cid (Inr _) = CCreate f n cid"
| "after_table f n cid (Inl err) =
     (if statusCode err \<noteq> Some 409 then CDone f n cid (Inl RedemptionUnavailable) else CCreate f n cid)"

fun after_create :: "string \<Rightarrow> string \<Rightarrow> string \<Rightarrow> client_error + unit \<Rightarrow> claim_phase" where
  "after_create f n cid (Inr _) = CDone f n cid (Inr True)"
| "after_create f n cid (Inl err) = CCheck f n cid"

fun after_check :: "string \<Rightarrow> string \<Rightarrow> string \<Rightarrow> client_error + string \<times> (string \<times> string) list \<Rightarrow> claim_phase" where
  "after_check f n cid (Inr row) = CDone f n cid (Inr (map_of (snd row) ''claimID'' = Some cid))"
| "after_check f n cid (Inl err) = CDone f n cid (Inl RedemptionUnavailable)"

text \<open>\<open>bounded(call, deadline)\<close>: the time left is read from the clock at the call.\<close>

definition bounded_until :: "int \<Rightarrow> ('w \<Rightarrow> int \<times> (client_error + 'a) \<times> 'w) \<Rightarrow> int \<times> 'w \<Rightarrow> (client_error + 'a) \<times> int \<times> 'w" where
  [simp]: "bounded_until deadline call tw = bounded (deadline - fst tw) call tw"

text \<open>
  One call run to its end with nothing in between: \<open>now\<close> is read once for the deadline, \<open>ready\<close> is
  the remembered table promise.
\<close>

definition claim_step :: "'w table_client \<Rightarrow> int \<Rightarrow> claim_phase \<times> int \<times> 'w \<Rightarrow> claim_phase \<times> int \<times> 'w" where
  "claim_step C deadline st =
     (let tw = snd st in
      case fst st of
        CTable f n cid \<Rightarrow> (case bounded_until deadline (createTable C) tw of (r, tw') \<Rightarrow> (after_table f n cid r, tw'))
      | CCreate f n cid \<Rightarrow>
          (case bounded_until deadline (createEntity C (claim_entity f n cid)) tw of (r, tw') \<Rightarrow> (after_create f n cid r, tw'))
      | CCheck f n cid \<Rightarrow>
          (case bounded_until deadline (getEntity C (''spent-v1-'' @ f) n) tw of (r, tw') \<Rightarrow> (after_check f n cid r, tw'))
      | p \<Rightarrow> (p, tw))"

definition claim_start :: "bool \<Rightarrow> string \<Rightarrow> string \<Rightarrow> string \<Rightarrow> claim_phase" where
  "claim_start ready f n cid =
     (if \<not> hex64 f \<or> \<not> hex64 n then CDone f n cid (Inl RedemptionUnavailable)
      else if ready then CCreate f n cid else CTable f n cid)"

fun claim_result :: "claim_phase \<Rightarrow> redemption_error + bool" where
  "claim_result (CDone f n cid r) = r"
| "claim_result _ = Inl RedemptionUnavailable"

definition azure_redeem :: "'w table_client \<Rightarrow> int \<Rightarrow> bool \<Rightarrow> string \<Rightarrow> string \<Rightarrow> string \<Rightarrow> int \<times> 'w
    \<Rightarrow> (redemption_error + bool) \<times> int \<times> 'w" where
  "azure_redeem C timeoutMs ready cid f n tw =
     (let deadline = fst tw + timeoutMs;
          st = (claim_step C deadline ^^ 3) (claim_start ready f n cid, tw)
      in (claim_result (fst st), snd st))"

section \<open>Replicas sharing the table\<close>

text \<open>
  Any number of relay replicas redeem at the same time; each service call of each of them is one step,
  with any time left on its deadline. A new call draws a claim ID no other call has
  (\<open>crypto.randomUUID\<close>).
\<close>

fun claim_args :: "claim_phase \<Rightarrow> (string \<times> string \<times> string) option" where
  "claim_args CIdle = None"
| "claim_args (CTable f n cid) = Some (f, n, cid)"
| "claim_args (CCreate f n cid) = Some (f, n, cid)"
| "claim_args (CCheck f n cid) = Some (f, n, cid)"
| "claim_args (CDone f n cid r) = Some (f, n, cid)"

definition claim_id :: "claim_phase \<Rightarrow> string option" where
  "claim_id p = map_option (\<lambda>(f, n, cid). cid) (claim_args p)"

inductive claims_step :: "'w table_client \<Rightarrow> (nat \<Rightarrow> claim_phase) \<times> 'w \<Rightarrow> (nat \<Rightarrow> claim_phase) \<times> 'w \<Rightarrow> bool"
  for C where
  begin_claim: "ph i = CIdle \<Longrightarrow> (\<And>j. claim_id (ph j) \<noteq> Some cid) \<Longrightarrow>
     claims_step C (ph, w) (ph(i := claim_start ready f n cid), w)"
| run_claim: "claim_step C deadline (ph i, t, w) = (p', t', w') \<Longrightarrow>
     claims_step C (ph, w) (ph(i := p'), w')"

inductive claims_reachable for C w0 where
  claims_init: "claims_reachable C w0 ((\<lambda>_. CIdle), w0)"
| claims_next: "claims_reachable C w0 s \<Longrightarrow> claims_step C s s' \<Longrightarrow> claims_reachable C w0 s'"

definition claimed :: "'w table_rows \<Rightarrow> 'w \<Rightarrow> string \<Rightarrow> string \<Rightarrow> string \<Rightarrow> bool" where
  "claimed rows w f n cid \<longleftrightarrow>
     (\<exists>e ps. rows w (''spent-v1-'' @ f, n) = Some (e, ps) \<and> map_of ps ''claimID'' = Some cid)"

definition claims_inv :: "'w table_rows \<Rightarrow> (nat \<Rightarrow> claim_phase) \<times> 'w \<Rightarrow> bool" where
  "claims_inv rows s \<longleftrightarrow>
     (\<forall>i f n cid. fst s i = CDone f n cid (Inr True) \<longrightarrow> claimed rows (snd s) f n cid) \<and>
     (\<forall>i j cid. claim_id (fst s i) = Some cid \<longrightarrow> claim_id (fst s j) = Some cid \<longrightarrow> i = j)"

lemma claim_args_simps [simp]:
  "claim_args (after_table f n cid r) = Some (f, n, cid)"
  "claim_args (after_create f n cid r) = Some (f, n, cid)"
  "claim_args (after_check f n cid g) = Some (f, n, cid)"
  "claim_args (claim_start ready f n cid) = Some (f, n, cid)"
  by (cases r; cases g; simp add: claim_start_def)+

lemma claim_id_simps [simp]:
  "claim_id CIdle = None"
  "claim_id (CDone f n cid r) = Some cid"
  "claim_id (claim_start ready f n cid) = Some cid"
  by (simp_all add: claim_id_def)

lemma claim_step_args: "claim_step C d (p, tw) = (p', tw') \<Longrightarrow> claim_args p' = claim_args p"
  unfolding claim_step_def by (cases p) (auto simp: Let_def split: prod.splits)

lemma claim_start_not_done: "claim_start ready f n cid \<noteq> CDone f' n' cid' (Inr True)"
  by (simp add: claim_start_def)

lemma created_claimed:
  "created rows e w w' \<Longrightarrow> claimed rows w f n cid \<Longrightarrow> claimed rows w' f n cid"
  by (auto simp: created_def claimed_def split: if_splits)

lemma created_claim: "created rows (claim_entity f n cid) w w' \<Longrightarrow> claimed rows w' f n cid"
  by (auto simp: created_def claimed_def claim_entity_def entity_key_def)

text \<open>Claim rows are only ever created, so a claim once made stands.\<close>

lemma claim_step_keeps:
  assumes svc: "table_service C rows" and st: "claim_step C d (p, t, w) = (p', t', w')"
    and cl: "claimed rows w f n cid"
  shows "claimed rows w' f n cid"
proof (cases p)
  case (CTable f' n' cid')
  with st obtain r where "bounded (d - t) (createTable C) (t, w) = (r, t', w')"
    by (auto simp: claim_step_def Let_def split: prod.splits)
  from bounded_createTable [OF svc this] cl show ?thesis by (simp add: claimed_def)
next
  case (CCreate f' n' cid')
  with st obtain r where "bounded (d - t) (createEntity C (claim_entity f' n' cid')) (t, w) = (r, t', w')"
    by (auto simp: claim_step_def Let_def split: prod.splits)
  from bounded_createEntity [OF svc this] cl show ?thesis
    by (auto simp: claimed_def [of rows] split: sum.splits dest: created_claimed [of rows _ w w' f n cid, unfolded claimed_def])
next
  case (CCheck f' n' cid')
  with st obtain r where "bounded (d - t) (getEntity C (''spent-v1-'' @ f') n') (t, w) = (r, t', w')"
    by (auto simp: claim_step_def Let_def split: prod.splits)
  from bounded_getEntity [OF svc this] cl show ?thesis by (simp add: claimed_def)
qed (use st cl in \<open>auto simp: claim_step_def Let_def\<close>)

text \<open>A call that reports success has its own claim in the table.\<close>

lemma claim_step_done:
  assumes svc: "table_service C rows" and st: "claim_step C d (p, t, w) = (p', t', w')"
    and d: "p' = CDone f n cid (Inr True)" and np: "p \<noteq> p'"
  shows "claimed rows w' f n cid"
proof (cases p)
  case (CTable f' n' cid')
  with st d show ?thesis
    by (auto simp: claim_step_def Let_def split: prod.splits elim!: after_table.elims split: if_splits)
next
  case (CCreate f' n' cid')
  with st obtain r where r: "bounded (d - t) (createEntity C (claim_entity f' n' cid')) (t, w) = (r, t', w')"
    and p': "p' = after_create f' n' cid' r"
    by (auto simp: claim_step_def Let_def split: prod.splits)
  from bounded_createEntity [OF svc r] p' d show ?thesis by (cases r) (auto dest: created_claim)
next
  case (CCheck f' n' cid')
  with st obtain r where r: "bounded (d - t) (getEntity C (''spent-v1-'' @ f') n') (t, w) = (r, t', w')"
    and p': "p' = after_check f' n' cid' r"
    by (auto simp: claim_step_def Let_def split: prod.splits)
  from bounded_getEntity [OF svc r] p' d show ?thesis by (cases r) (auto simp: claimed_def)
qed (use st d np in \<open>auto simp: claim_step_def Let_def\<close>)

lemma claims_reachable_inv:
  assumes svc: "table_service C rows" and "claims_reachable C w0 s"
  shows "claims_inv rows s"
  using assms(2)
proof induction
  case claims_init
  show ?case by (simp add: claims_inv_def)
next
  case (claims_next s s')
  from claims_next.hyps(2) claims_next.IH show ?case
  proof cases
    case (begin_claim ph i cid w ready f n)
    with claims_next.IH show ?thesis
      by (auto simp: claims_inv_def claim_start_not_done split: if_splits)
  next
    case (run_claim deadline ph i t w p' t' w')
    note keep = claim_step_keeps [OF svc run_claim(3)] and fin = claim_step_done [OF svc run_claim(3)]
    have ids: "claim_id ((ph(i := p')) j) = claim_id (ph j)" for j
      using claim_step_args [OF run_claim(3)] by (simp add: claim_id_def)
    have "claimed rows w' f n cid" if "(ph(i := p')) j = CDone f n cid (Inr True)" for j f n cid
      using that claims_next.IH keep fin [of f n cid] run_claim(1)
      by (cases "ph i = p'") (auto simp: claims_inv_def split: if_splits)
    with ids claims_next.IH run_claim(1,2) show ?thesis by (auto simp: claims_inv_def simp del: fun_upd_apply)
  qed
qed

text \<open>
  C28. However many relay replicas redeem through the shared table at once, and whichever
  acknowledgements are lost or late, no two different calls report success for the same
  (fingerprint, nullifier) pair: a token is spent at most once across all replicas.
\<close>

theorem shared_redeem_at_most_once:
  assumes "table_service C rows" and "claims_reachable C w0 (ph, w)"
    and "ph i = CDone f n cid (Inr True)" and "ph j = CDone f n cid' (Inr True)"
  shows "i = j"
proof -
  from claims_reachable_inv [OF assms(1,2)] have inv: "claims_inv rows (ph, w)" .
  with assms(3,4) have "claimed rows w f n cid" "claimed rows w f n cid'" by (auto simp: claims_inv_def)
  then have "cid = cid'" by (auto simp: claimed_def)
  with inv assms(3,4) show ?thesis by (auto simp: claims_inv_def)
qed

definition hex_a :: string where
  "hex_a = replicate 64 CHR ''a''"

lemma shared_example:
  "claims_reachable local_table \<lparr>tw_rows = [], tw_rev = 0, tw_lose = True\<rparr>
     ((\<lambda>_. CIdle)(0 := CDone hex_a hex_a ''x'' (Inr True)),
      \<lparr>tw_rows = [((''spent-v1-'' @ hex_a, hex_a), (''0'', [(''claimID'', ''x'')]))], tw_rev = 1, tw_lose = False\<rparr>)"
proof -
  let ?w = "\<lparr>tw_rows = [], tw_rev = 0, tw_lose = True\<rparr>"
  let ?w' = "\<lparr>tw_rows = [((''spent-v1-'' @ hex_a, hex_a), (''0'', [(''claimID'', ''x'')]))], tw_rev = 1, tw_lose = False\<rparr>"
  have start: "claim_start True hex_a hex_a ''x'' = CCreate hex_a hex_a ''x''" by code_simp
  have r1: "claims_reachable local_table ?w ((\<lambda>_. CIdle)(0 := CCreate hex_a hex_a ''x''), ?w)"
    unfolding start [symmetric]
    by (rule claims_next [OF claims_init]) (rule begin_claim, simp_all)
  have c: "claim_step local_table 5000 (CCreate hex_a hex_a ''x'', 0, ?w) = (CCheck hex_a hex_a ''x'', 1, ?w')"
    by code_simp
  have d: "claim_step local_table 5000 (CCheck hex_a hex_a ''x'', 1, ?w') = (CDone hex_a hex_a ''x'' (Inr True), 2, ?w')"
    by code_simp
  have run: "claims_reachable local_table ?w ((\<lambda>_. CIdle)(0 := q), v')"
    if "claims_reachable local_table ?w ((\<lambda>_. CIdle)(0 := p), v)"
      and "claim_step local_table 5000 (p, t, v) = (q, t', v')" for p q v v' t t'
    using claims_next [OF that(1) run_claim [of local_table 5000 _ 0 t v q t' v']] that(2) by simp
  show ?thesis by (rule run [OF run [OF r1 c] d])
qed

theorem shared_redeem_at_most_once_witness:
  "{i. ((\<lambda>_. CIdle)(0 := CDone hex_a hex_a ''x'' (Inr True))) i = CDone hex_a hex_a ''x'' (Inr True)} = {0 :: nat}"
  (is "{i. ?ph i = ?d} = _")
proof -
  have z: "?ph 0 = ?d" by (rule fun_upd_same)
  have "i = 0" if "?ph i = ?d" for i :: nat
    by (rule shared_redeem_at_most_once [OF local_table_service shared_example that z])
  with z show ?thesis by blast
qed

text \<open>
  A token whose claim row was already made under another claim ID (by another replica, or before a
  restart) is never admitted again by the shared store, whatever errors the service returns.
\<close>

theorem azure_redeem_respects_claim:
  assumes svc: "table_service C rows" and cl: "claimed rows (snd tw) f n cid'" and ne: "cid' \<noteq> cid"
  shows "fst (azure_redeem C timeoutMs ready cid f n tw) \<noteq> Inr True"
proof -
  let ?d = "fst tw + timeoutMs"
  let ?I = "\<lambda>st. claimed rows (snd (snd st)) f n cid' \<and> claim_result (fst st) \<noteq> Inr True
      \<and> claim_args (fst st) = Some (f, n, cid)"
  have step: "?I (claim_step C ?d st)" if I: "?I st" for st
  proof -
    obtain p t w where st: "st = (p, t, w)" by (cases st) auto
    obtain p' t' w' where st': "claim_step C ?d (p, t, w) = (p', t', w')" by (cases "claim_step C ?d (p, t, w)") auto
    from I st have c: "claimed rows w f n cid'" by simp
    note c' = claim_step_keeps [OF svc st' c]
    have a': "claim_args p' = Some (f, n, cid)" using I st claim_step_args [OF st'] by simp
    have "p' \<noteq> CDone f n cid (Inr True)"
    proof
      assume p': "p' = CDone f n cid (Inr True)"
      with I st have "p \<noteq> p'" by auto
      with claim_step_done [OF svc st' p'] c' ne show False by (auto simp: claimed_def)
    qed
    with a' have "claim_result p' \<noteq> Inr True" by (cases p') auto
    with a' c' show ?thesis by (simp add: st st')
  qed
  have "?I (claim_start ready f n cid, tw)" using cl by (auto simp: claim_start_def)
  then have "?I ((claim_step C ?d ^^ 3) (claim_start ready f n cid, tw))"
    unfolding numeral_3_eq_3 funpow.simps comp_apply id_apply by (rule step [OF step [OF step]])
  then show ?thesis by (auto simp: azure_redeem_def Let_def)
qed

theorem azure_redeem_respects_claim_witness:
  "fst (azure_redeem local_table 5000 True ''y'' hex_a hex_a (0, \<lparr>tw_rows =
      [((''spent-v1-'' @ hex_a, hex_a), (''0'', [(''claimID'', ''x'')]))], tw_rev = 1, tw_lose = False\<rparr>)) \<noteq> Inr True"
  by (rule azure_redeem_respects_claim [OF local_table_service, where cid' = "''x''"])
     (auto simp: claimed_def jmap_simps)

end
