(* ===== verification/Utf8.thy ===== *)
theory Utf8
  imports NodeRuntime
begin

text \<open>
  UTF-8 as \<open>Buffer.from(s, 'utf8')\<close> and \<open>buf.toString('utf8')\<close> compute it, on lists of code points.
  The decoder is the state machine of the WHATWG encoding standard, which Node implements: an
  ill-formed sequence gives one U+FFFD per maximal valid prefix and decoding resumes at the byte
  that broke it. The round trip below is what the text strings of the CBOR codec rest on.
\<close>

definition scalar_value :: "nat \<Rightarrow> bool" where
  "scalar_value c \<longleftrightarrow> c < 55296 \<or> (57344 \<le> c \<and> c < 1114112)"

definition utf8_enc :: "nat \<Rightarrow> bytes" where
  "utf8_enc c =
     (if c < 128 then [of_nat c]
      else if c < 2048 then [of_nat (192 + c div 64), of_nat (128 + c mod 64)]
      else if c < 65536 then
        [of_nat (224 + c div 4096), of_nat (128 + c div 64 mod 64), of_nat (128 + c mod 64)]
      else [of_nat (240 + c div 262144), of_nat (128 + c div 4096 mod 64),
            of_nat (128 + c div 64 mod 64), of_nat (128 + c mod 64)])"

record utf8_state =
  needed :: nat
  code_point :: nat
  lower :: nat
  upper :: nat

definition utf8_init :: utf8_state where
  "utf8_init = \<lparr>needed = 0, code_point = 0, lower = 128, upper = 191\<rparr>"

text \<open>A byte met in the initial state: the code points it emits and the next state.\<close>

definition utf8_start :: "nat \<Rightarrow> nat list \<times> utf8_state" where
  "utf8_start b =
     (if b < 128 then ([b], utf8_init)
      else if 194 \<le> b \<and> b \<le> 223 then
        ([], \<lparr>needed = 1, code_point = b - 192, lower = 128, upper = 191\<rparr>)
      else if 224 \<le> b \<and> b \<le> 239 then
        ([], \<lparr>needed = 2, code_point = b - 224, lower = (if b = 224 then 160 else 128),
              upper = (if b = 237 then 159 else 191)\<rparr>)
      else if 240 \<le> b \<and> b \<le> 244 then
        ([], \<lparr>needed = 3, code_point = b - 240, lower = (if b = 240 then 144 else 128),
              upper = (if b = 244 then 143 else 191)\<rparr>)
      else ([65533], utf8_init))"

definition utf8_step :: "utf8_state \<Rightarrow> nat \<Rightarrow> nat list \<times> utf8_state" where
  "utf8_step s b =
     (if needed s = 0 then utf8_start b
      else if lower s \<le> b \<and> b \<le> upper s then
        (let cp = code_point s * 64 + (b - 128) in
         if needed s = 1 then ([cp], utf8_init)
         else ([], \<lparr>needed = needed s - 1, code_point = cp, lower = 128, upper = 191\<rparr>))
      else (let (out, s') = utf8_start b in (65533 # out, s')))"

fun utf8_run :: "utf8_state \<Rightarrow> bytes \<Rightarrow> nat list" where
  "utf8_run s [] = (if needed s = 0 then [] else [65533])"
| "utf8_run s (b # bs) = (let (out, s') = utf8_step s (unat b) in out @ utf8_run s' bs)"

definition utf8_decode :: "bytes \<Rightarrow> nat list" where
  "utf8_decode bs = utf8_run utf8_init bs"

definition utf8_encode :: "nat list \<Rightarrow> bytes" where
  "utf8_encode cs = concat (map utf8_enc cs)"

text \<open>The code points of a string literal of the source.\<close>

definition code_points :: "string \<Rightarrow> nat list" where
  "code_points s = map of_char s"

lemma code_points_scalar [simp]: "list_all scalar_value (code_points s)"
proof -
  have "scalar_value (of_char c)" for c
  proof -
    have "(of_char c :: nat) < 256" by simp
    then have "(of_char c :: nat) < 55296" by (rule order_less_trans) simp
    then show ?thesis by (simp add: scalar_value_def)
  qed
  then show ?thesis by (simp add: code_points_def list_all_iff)
qed

lemma utf8_run_enc:
  assumes "scalar_value c"
  shows "utf8_run utf8_init (utf8_enc c @ bs) = c # utf8_run utf8_init bs"
proof -
  have c: "c < 1114112" "c < 55296 \<or> 57344 \<le> c" using assms by (auto simp: scalar_value_def)
  define w x y z where q: "w = c mod 64" "x = c div 64 mod 64" "y = c div 4096 mod 64" "z = c div 262144"
  have lo: "w < 64" "x < 64" "y < 64" "z < 5" using c by (auto simp: q)
  have c': "c = 262144 * z + 4096 * y + 64 * x + w" 
  proof -
    have d: "c div 4096 = c div 64 div 64" "z = c div 64 div 64 div 64"
      by (simp_all add: q div_mult2_eq [symmetric])
    moreover have "c = 64 * (c div 64) + w" "c div 64 = 64 * (c div 64 div 64) + x"
      by (simp_all add: q)
    moreover have "c div 64 div 64 = 64 * (c div 64 div 64 div 64) + y" by (simp add: q d(1))
    ultimately show ?thesis by linarith
  qed
  note defs = utf8_enc_def utf8_init_def utf8_step_def utf8_start_def unat_of_nat_byte Let_def
  consider "c < 128" | "128 \<le> c" "c < 2048" | "2048 \<le> c" "c < 65536" | "65536 \<le> c" by linarith
  then show ?thesis
  proof cases
    case 1
    then show ?thesis by (simp add: defs)
  next
    case 2
    then have e: "utf8_enc c = [of_nat (192 + x), of_nat (128 + w)]" by (simp add: utf8_enc_def q)
    have z: "y = 0" "z = 0" using 2 c' lo by linarith+
    with 2 c' lo have "2 \<le> x" "x < 32" by linarith+
    with z show ?thesis using lo c' unfolding e by (simp add: defs del: of_nat_add)
  next
    case 3
    then have e: "utf8_enc c = [of_nat (224 + y), of_nat (128 + x), of_nat (128 + w)]"
      by (simp add: utf8_enc_def q)
    have z: "z = 0" using 3 c' lo by linarith
    with 3 c' lo have h: "z = 0" "y < 16" by linarith+
    have r: "y = 0 \<Longrightarrow> 32 \<le> x" "y = 13 \<Longrightarrow> x \<le> 31" using 3 h c c' lo by linarith+
    show ?thesis using h r lo c' unfolding e
      by (cases "y = 0"; cases "y = 13") (simp_all add: defs del: of_nat_add)
  next
    case 4
    then have e: "utf8_enc c = [of_nat (240 + z), of_nat (128 + y), of_nat (128 + x), of_nat (128 + w)]"
      by (simp add: utf8_enc_def q)
    have r: "z = 0 \<Longrightarrow> 16 \<le> y" "z = 4 \<Longrightarrow> y \<le> 15" using 4 c c' lo by linarith+
    show ?thesis using r lo c' unfolding e
      by (cases "z = 0"; cases "z = 4") (simp_all add: defs del: of_nat_add)
  qed
qed

lemma utf8_roundtrip: "list_all scalar_value cs \<Longrightarrow> utf8_decode (utf8_encode cs) = cs"
  unfolding utf8_decode_def utf8_encode_def
proof (induction cs)
  case Nil
  then show ?case by (simp add: utf8_init_def)
next
  case (Cons c cs)
  then show ?case by (simp add: utf8_run_enc)
qed


definition utf8_pending :: "utf8_state \<Rightarrow> nat" where
  "utf8_pending s = (if needed s = 0 then 0 else 1)"

lemma utf8_start_emits: "utf8_start b = (out, s') \<Longrightarrow> length out + utf8_pending s' = 1"
  by (auto simp: utf8_start_def utf8_pending_def utf8_init_def split: if_splits)

lemma utf8_step_emits: "utf8_step s b = (out, s') \<Longrightarrow> length out + utf8_pending s' \<le> 1 + utf8_pending s"
  using utf8_start_emits [of b]
  by (auto simp: utf8_step_def utf8_pending_def [of s] utf8_init_def Let_def split: if_splits prod.splits)
     (auto simp: utf8_pending_def)

lemma utf8_run_length: "length (utf8_run s bs) \<le> length bs + utf8_pending s"
proof (induction bs arbitrary: s)
  case Nil
  then show ?case by (simp add: utf8_pending_def)
next
  case (Cons b bs)
  obtain out s' where st: "utf8_step s (unat b) = (out, s')" by (rule prod.exhaust)
  with Cons.IH [of s'] utf8_step_emits [OF st] show ?case by simp
qed

lemma utf8_decode_length: "length (utf8_decode bs) \<le> length bs"
  using utf8_run_length [of utf8_init bs] by (simp add: utf8_decode_def utf8_pending_def utf8_init_def)

end
