(* ===== verification/Cbor.thy ===== *)
theory Cbor
  imports Utf8
begin

text \<open>
  The CBOR reader of \<^verbatim>\<open>token-issuer/appattest.js\<close> (\<open>cborDecodeFirst\<close>, \<open>cborReadItem\<close>,
  \<open>cborReadLength\<close>) and the encoders of \<^verbatim>\<open>token-issuer/appattest-fixtures.js\<close>. The reader's state is the
  buffer and a position; a throw is \<open>Inl\<close> of the message, after which the state is dropped. Shown:
  progress and bounds of every read, bounds on the nesting and the size of a decoded value, that the
  result depends only on the bytes read, and that the reader inverts the encoders.
\<close>

text \<open>
  A decoded value: a number, a \<open>Buffer\<close>, a string (its code points), an array or a \<open>Map\<close> in insertion
  order.
\<close>

datatype cbor =
    CNum int
  | CBytes bytes
  | CText "nat list"
  | CArray "cbor list"
  | CMap "(cbor \<times> cbor) list"

text \<open>
  \<open>Map\<close> compares keys by \<open>SameValueZero\<close>: numbers and strings by value, objects by identity; every
  decoded object is fresh, so no two of them are the same key.
\<close>

fun same_key :: "cbor \<Rightarrow> cbor \<Rightarrow> bool" where
  "same_key (CNum a) (CNum b) = (a = b)"
| "same_key (CText a) (CText b) = (a = b)"
| "same_key _ _ = False"

fun cmap_set :: "(cbor \<times> cbor) list \<Rightarrow> cbor \<Rightarrow> cbor \<Rightarrow> (cbor \<times> cbor) list" where
  "cmap_set [] k v = [(k, v)]"
| "cmap_set ((k', v') # m) k v = (if same_key k' k then (k', v) # m else (k', v') # cmap_set m k v)"

text \<open>\<open>m.get(k)\<close>; \<open>None\<close> is \<open>undefined\<close>.\<close>

fun cmap_get :: "(cbor \<times> cbor) list \<Rightarrow> cbor \<Rightarrow> cbor option" where
  "cmap_get [] k = None"
| "cmap_get ((k', v') # m) k = (if same_key k' k then Some v' else cmap_get m k)"

text \<open>\<open>readUInt16BE\<close> and \<open>readUInt32BE\<close>: the big-endian value of the \<open>k\<close> bytes at a position.\<close>

definition be_nat :: "bytes \<Rightarrow> nat" where
  "be_nat bs = foldl (\<lambda>a b. 256 * a + unat b) 0 bs"

definition readUIntBE :: "nat \<Rightarrow> bytes \<Rightarrow> nat \<Rightarrow> nat" where
  "readUIntBE k buf pos = be_nat (take k (drop pos buf))"

definition cborReadLength :: "bytes \<Rightarrow> nat \<Rightarrow> nat \<Rightarrow> string + nat \<times> nat" where
  "cborReadLength buf pos minor =
     (if minor < 24 then Inr (minor, pos)
      else if minor = 24 then
        (if pos + 1 > length buf then Inl ''cbor: truncated len8''
         else Inr (unat (buf ! pos), pos + 1))
      else if minor = 25 then
        (if pos + 2 > length buf then Inl ''cbor: truncated len16''
         else Inr (readUIntBE 2 buf pos, pos + 2))
      else if minor = 26 then
        (if pos + 4 > length buf then Inl ''cbor: truncated len32''
         else Inr (readUIntBE 4 buf pos, pos + 4))
      else if minor = 27 then
        (if pos + 8 > length buf then Inl ''cbor: truncated len64''
         else if readUIntBE 4 buf pos \<noteq> 0 then Inl ''cbor: length too large''
         else Inr (readUIntBE 4 buf (pos + 4), pos + 8))
      else Inl ''cbor: indefinite or reserved length not supported'')"

definition CBOR_MAX_DEPTH :: nat where
  "CBOR_MAX_DEPTH = 16"

text \<open>
  \<open>cborReadItems\<close> is the loop of the array case, \<open>cborReadPairs\<close> that of the map case, with the
  number of rounds left and the values read so far.
\<close>

function cborReadItem :: "bytes \<Rightarrow> nat \<Rightarrow> nat \<Rightarrow> string + cbor \<times> nat"
  and cborReadItems :: "bytes \<Rightarrow> nat \<Rightarrow> nat \<Rightarrow> nat \<Rightarrow> cbor list \<Rightarrow> string + cbor list \<times> nat"
  and cborReadPairs :: "bytes \<Rightarrow> nat \<Rightarrow> nat \<Rightarrow> nat \<Rightarrow> (cbor \<times> cbor) list \<Rightarrow> string + (cbor \<times> cbor) list \<times> nat"
where
  "cborReadItem buf depth pos =
     (if depth > CBOR_MAX_DEPTH then Inl ''cbor: max depth exceeded''
      else if pos \<ge> length buf then Inl ''cbor: truncated''
      else
        let ib = unat (buf ! pos); major = ib div 32; minor = ib mod 32 in
        (case cborReadLength buf (pos + 1) minor of
           Inl e \<Rightarrow> Inl e
         | Inr (n, p) \<Rightarrow>
             if major = 0 then Inr (CNum (int n), p)
             else if major = 1 then Inr (CNum (-1 - int n), p)
             else if major = 2 then
               (if p + n > length buf then Inl ''cbor: byte string overruns''
                else Inr (CBytes (take n (drop p buf)), p + n))
             else if major = 3 then
               (if p + n > length buf then Inl ''cbor: text string overruns''
                else Inr (CText (utf8_decode (take n (drop p buf))), p + n))
             else if major = 4 then map_sum id (map_prod CArray id) (cborReadItems buf (depth + 1) n p [])
             else if major = 5 then map_sum id (map_prod CMap id) (cborReadPairs buf (depth + 1) n p [])
             else Inl (''cbor: unsupported major type '' @ js_nat_string major)))"
| "cborReadItems buf depth 0 pos arr = Inr (arr, pos)"
| "cborReadItems buf depth (Suc n) pos arr =
     (case cborReadItem buf depth pos of
        Inl e \<Rightarrow> Inl e
      | Inr (v, p) \<Rightarrow> cborReadItems buf depth n p (arr @ [v]))"
| "cborReadPairs buf depth 0 pos m = Inr (m, pos)"
| "cborReadPairs buf depth (Suc n) pos m =
     (case cborReadItem buf depth pos of
        Inl e \<Rightarrow> Inl e
      | Inr (k, p) \<Rightarrow>
          (case cborReadItem buf depth p of
             Inl e \<Rightarrow> Inl e
           | Inr (v, q) \<Rightarrow> cborReadPairs buf depth n q (cmap_set m k v)))"
  by pat_completeness auto

termination
  by (relation "measures
        [\<lambda>x. case x of Inl (_, d, _) \<Rightarrow> Suc CBOR_MAX_DEPTH - d
           | Inr (Inl (_, d, _, _, _)) \<Rightarrow> Suc CBOR_MAX_DEPTH - d
           | Inr (Inr (_, d, _, _, _)) \<Rightarrow> Suc CBOR_MAX_DEPTH - d,
         \<lambda>x. case x of Inl _ \<Rightarrow> 0 | Inr (Inl (_, _, n, _, _)) \<Rightarrow> Suc n | Inr (Inr (_, _, n, _, _)) \<Rightarrow> Suc n]")
     auto

declare cborReadItem.simps [simp del]

definition cborDecodeFirst :: "bytes \<Rightarrow> string + cbor \<times> nat" where
  "cborDecodeFirst buf = cborReadItem buf 0 0"

section \<open>Bounds\<close>

fun cbor_size :: "cbor \<Rightarrow> nat" where
  "cbor_size (CNum n) = 1"
| "cbor_size (CBytes bs) = 1 + length bs"
| "cbor_size (CText cs) = 1 + length cs"
| "cbor_size (CArray vs) = 1 + (\<Sum>v\<leftarrow>vs. cbor_size v)"
| "cbor_size (CMap kvs) = 1 + (\<Sum>(k, v)\<leftarrow>kvs. cbor_size k + cbor_size v)"

text \<open>The levels of nesting; a leaf has one.\<close>

fun cbor_depth :: "cbor \<Rightarrow> nat" where
  "cbor_depth (CArray vs) = 1 + foldr (\<lambda>v d. max (cbor_depth v) d) vs 0"
| "cbor_depth (CMap kvs) = 1 + foldr (\<lambda>(k, v) d. max (cbor_depth k) (max (cbor_depth v) d)) kvs 0"
| "cbor_depth _ = 1"

abbreviation sizes :: "cbor list \<Rightarrow> nat" where
  "sizes vs \<equiv> (\<Sum>v\<leftarrow>vs. cbor_size v)"

abbreviation pair_sizes :: "(cbor \<times> cbor) list \<Rightarrow> nat" where
  "pair_sizes kvs \<equiv> (\<Sum>(k, v)\<leftarrow>kvs. cbor_size k + cbor_size v)"

lemma cbor_size_pos: "0 < cbor_size v"
  by (cases v) auto

lemma foldr_max_le: "foldr (\<lambda>v d. max (f v) d) vs 0 \<le> (m :: nat) \<longleftrightarrow> (\<forall>v \<in> set vs. f v \<le> m)"
  by (induction vs) auto

lemma cbor_depth_array: "cbor_depth (CArray vs) \<le> Suc m \<longleftrightarrow> (\<forall>v \<in> set vs. cbor_depth v \<le> m)"
  by (simp add: foldr_max_le)

lemma cbor_depth_map:
  "cbor_depth (CMap kvs) \<le> Suc m \<longleftrightarrow> (\<forall>(k, v) \<in> set kvs. cbor_depth k \<le> m \<and> cbor_depth v \<le> m)"
proof -
  have "foldr (\<lambda>(k, v) d. max (cbor_depth k) (max (cbor_depth v) d)) kvs 0 \<le> m
    \<longleftrightarrow> (\<forall>(k, v) \<in> set kvs. cbor_depth k \<le> m \<and> cbor_depth v \<le> m)"
    by (induction kvs) auto
  then show ?thesis by simp
qed

lemma be_nat_snoc: "be_nat (bs @ [b]) = 256 * be_nat bs + unat b"
  by (simp add: be_nat_def)

lemma be_nat_less: "be_nat bs < 256 ^ length bs"
proof (induction bs rule: rev_induct)
  case (snoc b bs)
  with byte_lt_256 [of b] show ?case by (simp add: be_nat_snoc)
qed (simp add: be_nat_def)

lemma be_nat_le: assumes "length bs \<le> k" shows "be_nat bs < 256 ^ k"
  using be_nat_less [of bs] assms by (meson less_le_trans one_le_numeral power_increasing)

lemma readUIntBE_less: "readUIntBE k buf pos < 256 ^ k"
  unfolding readUIntBE_def by (rule be_nat_le) simp

lemma cborReadLength_bounds:
  assumes "cborReadLength buf pos minor = Inr (n, p)" "pos \<le> length buf"
  shows "pos \<le> p \<and> p \<le> length buf \<and> n < 2 ^ 32"
  using assms byte_lt_256 [of "buf ! pos"] readUIntBE_less [of 2 buf pos]
    readUIntBE_less [of 4 buf pos] readUIntBE_less [of 4 buf "pos + 4"]
  by (auto simp: cborReadLength_def split: if_splits)

lemma cmap_set_sizes: "pair_sizes (cmap_set m k v) \<le> pair_sizes m + cbor_size k + cbor_size v"
  by (induction m k v rule: cmap_set.induct) auto

lemma cmap_set_entries: "set (cmap_set m k v) \<subseteq> insert (k, v) (set m \<union> {(k', v) | k' v'. (k', v') \<in> set m})"
  by (induction m k v rule: cmap_set.induct) auto

lemma cmap_set_depth:
  "\<forall>(k, v) \<in> set m. cbor_depth k \<le> d \<and> cbor_depth v \<le> d \<Longrightarrow> cbor_depth k \<le> d \<Longrightarrow> cbor_depth v \<le> d
   \<Longrightarrow> \<forall>(k, v) \<in> set (cmap_set m k v). cbor_depth k \<le> d \<and> cbor_depth v \<le> d"
  by (induction m k v rule: cmap_set.induct) auto

text \<open>The ways in which a read of one item succeeds.\<close>

lemma cborReadItem_cases:
  assumes "cborReadItem buf depth pos = Inr (v, p)"
  obtains (header) n q where "depth \<le> CBOR_MAX_DEPTH" "pos < length buf"
      "cborReadLength buf (pos + 1) (unat (buf ! pos) mod 32) = Inr (n, q)" "q \<le> length buf" "pos < q"
      "(unat (buf ! pos) div 32 = 0 \<and> v = CNum (int n) \<and> p = q)
       \<or> (unat (buf ! pos) div 32 = 1 \<and> v = CNum (-1 - int n) \<and> p = q)
       \<or> (unat (buf ! pos) div 32 = 2 \<and> v = CBytes (take n (drop q buf)) \<and> p = q + n \<and> q + n \<le> length buf)
       \<or> (unat (buf ! pos) div 32 = 3 \<and> v = CText (utf8_decode (take n (drop q buf))) \<and> p = q + n
           \<and> q + n \<le> length buf)
       \<or> (unat (buf ! pos) div 32 = 4
           \<and> (\<exists>vs. v = CArray vs \<and> cborReadItems buf (depth + 1) n q [] = Inr (vs, p)))
       \<or> (unat (buf ! pos) div 32 = 5
           \<and> (\<exists>kvs. v = CMap kvs \<and> cborReadPairs buf (depth + 1) n q [] = Inr (kvs, p)))"
proof -
  let ?ib = "unat (buf ! pos)"
  have d: "depth \<le> CBOR_MAX_DEPTH" and pos: "pos < length buf"
    using assms by (auto simp: cborReadItem.simps [of buf depth pos] split: if_splits)
  from assms d pos obtain n q where len: "cborReadLength buf (pos + 1) (?ib mod 32) = Inr (n, q)"
    by (auto simp: cborReadItem.simps [of buf depth pos] Let_def split: sum.splits)
  have q: "q \<le> length buf" "pos < q" using cborReadLength_bounds [OF len] pos by auto
  from assms [unfolded cborReadItem.simps [of buf depth pos] Let_def len] d pos
  show ?thesis by (intro header [OF d pos len q]) (auto split: if_splits)
qed

text \<open>What a successful read by each of the three readers guarantees.\<close>

lemma cbor_read_bounds:
  "cborReadItem buf depth pos = Inr (v, p) \<Longrightarrow>
     pos + cbor_size v \<le> p \<and> p \<le> length buf \<and> cbor_depth v \<le> Suc CBOR_MAX_DEPTH - depth"
  "cborReadItems buf depth n pos arr = Inr (vs, p) \<Longrightarrow> pos \<le> length buf \<Longrightarrow>
     \<forall>v \<in> set arr. cbor_depth v \<le> Suc CBOR_MAX_DEPTH - depth \<Longrightarrow>
     pos + sizes vs \<le> p + sizes arr \<and> pos \<le> p \<and> p \<le> length buf \<and>
     (\<forall>v \<in> set vs. cbor_depth v \<le> Suc CBOR_MAX_DEPTH - depth) \<and> length vs = length arr + n"
  "cborReadPairs buf depth n pos m = Inr (kvs, p) \<Longrightarrow> pos \<le> length buf \<Longrightarrow>
     \<forall>(k, v) \<in> set m. cbor_depth k \<le> Suc CBOR_MAX_DEPTH - depth \<and> cbor_depth v \<le> Suc CBOR_MAX_DEPTH - depth \<Longrightarrow>
     pos + pair_sizes kvs \<le> p + pair_sizes m \<and> pos \<le> p \<and> p \<le> length buf \<and>
     (\<forall>(k, v) \<in> set kvs. cbor_depth k \<le> Suc CBOR_MAX_DEPTH - depth \<and> cbor_depth v \<le> Suc CBOR_MAX_DEPTH - depth)"
proof (induction buf depth pos and buf depth n pos arr and buf depth n pos m arbitrary: v p and vs p and kvs p
    rule: cborReadItem_cborReadItems_cborReadPairs.induct)
  case (1 buf depth pos)
  from 1(3) show ?case
  proof (cases rule: cborReadItem_cases)
    case (header n q)
    let ?ib = "unat (buf ! pos)"
    note h = header(1-3) [folded not_less]
    have dd: "Suc CBOR_MAX_DEPTH - depth = Suc (Suc CBOR_MAX_DEPTH - (depth + 1))" using header(1) by simp
    have arr: "q + sizes vs \<le> p \<and> p \<le> length buf \<and> cbor_depth (CArray vs) \<le> Suc CBOR_MAX_DEPTH - depth"
      if "?ib div 32 = 4" "cborReadItems buf (depth + 1) n q [] = Inr (vs, p)" for vs
      using 1(1) [OF _ _ refl refl refl header(3) refl] header that
      unfolding dd cbor_depth_array by simp
    have mp: "q + pair_sizes kvs \<le> p \<and> p \<le> length buf \<and> cbor_depth (CMap kvs) \<le> Suc CBOR_MAX_DEPTH - depth"
      if "?ib div 32 = 5" "cborReadPairs buf (depth + 1) n q [] = Inr (kvs, p)" for kvs
      using 1(2) [OF _ _ refl refl refl header(3) refl] header that
      unfolding dd cbor_depth_map by simp
    have tx: "length (utf8_decode (take n (drop q buf))) \<le> n"
      using utf8_decode_length [of "take n (drop q buf)"] by simp
    show ?thesis using header(1,4-6) arr mp tx by (elim disjE) (auto simp del: cbor_depth.simps simp: dd cbor_depth.simps(3-))
  qed
next
  case (2 buf depth pos arr)
  then show ?case by simp
next
  case (3 buf depth n pos arr)
  then obtain v q where v: "cborReadItem buf depth pos = Inr (v, q)"
    and rest: "cborReadItems buf depth n q (arr @ [v]) = Inr (vs, p)" by (auto split: sum.splits)
  from 3(1) [OF v] 3(2) [OF v refl rest] 3(4,5) cbor_size_pos [of v] show ?case by auto
next
  case (4 buf depth pos m)
  then show ?case by simp
next
  case (5 buf depth n pos m)
  then obtain k q v r where k: "cborReadItem buf depth pos = Inr (k, q)"
    and v: "cborReadItem buf depth q = Inr (v, r)"
    and rest: "cborReadPairs buf depth n r (cmap_set m k v) = Inr (kvs, p)"
    by (auto split: sum.splits)
  note bk = 5(1) [OF k] and bv = 5(2) [OF k refl v]
  have "r + pair_sizes kvs \<le> p + pair_sizes (cmap_set m k v) \<and> r \<le> p \<and> p \<le> length buf \<and>
     (\<forall>(k, v) \<in> set kvs. cbor_depth k \<le> Suc CBOR_MAX_DEPTH - depth \<and> cbor_depth v \<le> Suc CBOR_MAX_DEPTH - depth)"
    using bk bv cmap_set_depth [OF 5(6), of k v] by (intro 5(3) [OF k refl v refl rest]) auto
  with bk bv cmap_set_sizes [of m k v] show ?case by auto
qed

lemma cbor_read_loop_progress:
  "cborReadItems buf depth n pos arr = Inr (vs, p) \<Longrightarrow> pos \<le> length buf \<Longrightarrow> pos \<le> p"
  "cborReadPairs buf depth n pos m = Inr (kvs, p) \<Longrightarrow> pos \<le> length buf \<Longrightarrow> pos \<le> p"
proof -
  have item: "pos \<le> p \<and> p \<le> length buf" if "cborReadItem buf depth pos = Inr (v, p)" for pos v p
    using cbor_read_bounds(1) [OF that] by simp
  show "cborReadItems buf depth n pos arr = Inr (vs, p) \<Longrightarrow> pos \<le> length buf \<Longrightarrow> pos \<le> p"
    by (induction n arbitrary: pos arr) (fastforce dest: item split: sum.splits)+
  show "cborReadPairs buf depth n pos m = Inr (kvs, p) \<Longrightarrow> pos \<le> length buf \<Longrightarrow> pos \<le> p"
    by (induction n arbitrary: pos m) (fastforce dest: item split: sum.splits)+
qed

text \<open>A successful read depends only on the bytes it has consumed.\<close>

definition agree :: "nat \<Rightarrow> bytes \<Rightarrow> bytes \<Rightarrow> bool" where
  "agree p b b' \<longleftrightarrow> p \<le> length b \<and> p \<le> length b' \<and> take p b = take p b'"

lemma agree_mono: "agree p b b' \<Longrightarrow> q \<le> p \<Longrightarrow> agree q b b'"
  by (auto simp: agree_def) (metis min.absorb1 take_take)

lemma agree_nth: "agree p b b' \<Longrightarrow> i < p \<Longrightarrow> b' ! i = b ! i"
  unfolding agree_def by (metis nth_take)

lemma agree_slice: "agree p b b' \<Longrightarrow> q + n \<le> p \<Longrightarrow> take n (drop q b') = take n (drop q b)"
  by (drule agree_mono [where q = "q + n"]) (simp_all add: agree_def take_drop add.commute)

lemma cborReadLength_agree:
  assumes "cborReadLength buf pos minor = Inr (n, p)" "agree p buf buf'"
  shows "cborReadLength buf' pos minor = Inr (n, p)"
proof -
  have "readUIntBE k buf' i = readUIntBE k buf i" if "i + k \<le> p" for k i
    using agree_slice [OF assms(2) that] by (simp add: readUIntBE_def)
  then show ?thesis using assms(1) agree_nth [OF assms(2), of pos] assms(2)
    by (auto simp: cborReadLength_def agree_def split: if_splits)
qed

lemma cbor_read_agree:
  "cborReadItem buf depth pos = Inr (v, p) \<Longrightarrow> agree p buf buf' \<Longrightarrow> cborReadItem buf' depth pos = Inr (v, p)"
  "cborReadItems buf depth n pos arr = Inr (vs, p) \<Longrightarrow> pos \<le> length buf \<Longrightarrow> agree p buf buf' \<Longrightarrow>
     cborReadItems buf' depth n pos arr = Inr (vs, p)"
  "cborReadPairs buf depth n pos m = Inr (kvs, p) \<Longrightarrow> pos \<le> length buf \<Longrightarrow> agree p buf buf' \<Longrightarrow>
     cborReadPairs buf' depth n pos m = Inr (kvs, p)"
proof (induction buf depth pos and buf depth n pos arr and buf depth n pos m arbitrary: v p and vs p and kvs p
    rule: cborReadItem_cborReadItems_cborReadPairs.induct)
  case (1 buf depth pos)
  from 1(3) show ?case
  proof (cases rule: cborReadItem_cases)
    case (header n q)
    have "q \<le> p" using header(4,6) cbor_read_loop_progress by (elim disjE) auto
    then have b: "buf' ! pos = buf ! pos" and pos: "pos < length buf'"
      and len: "cborReadLength buf' (pos + 1) (unat (buf ! pos) mod 32) = Inr (n, q)"
      using 1(4) header(3,5) agree_nth [OF 1(4)] cborReadLength_agree [OF header(3) agree_mono [OF 1(4)]]
      by (auto simp: agree_def)
    have tk: "take n (drop q buf') = take n (drop q buf)" "q + n \<le> length buf'" if "p = q + n"
      using agree_slice [OF 1(4)] 1(4) that by (auto simp: agree_def)
    have arr: "cborReadItems buf' (depth + 1) n q [] = Inr (vs, p)"
      if "unat (buf ! pos) div 32 = 4" "cborReadItems buf (depth + 1) n q [] = Inr (vs, p)" for vs
      using 1(1) [OF _ _ refl refl refl header(3) refl] header 1(4) that by simp
    have mp: "cborReadPairs buf' (depth + 1) n q [] = Inr (kvs, p)"
      if "unat (buf ! pos) div 32 = 5" "cborReadPairs buf (depth + 1) n q [] = Inr (kvs, p)" for kvs
      using 1(2) [OF _ _ refl refl refl header(3) refl] header 1(4) that by simp
    show ?thesis using header(1,6) pos arr mp tk
      by (subst cborReadItem.simps, unfold Let_def b len) (elim disjE; auto)
  qed
next
  case (2 buf depth pos arr)
  then show ?case by simp
next
  case (3 buf depth n pos arr)
  then obtain v q where v: "cborReadItem buf depth pos = Inr (v, q)"
    and rest: "cborReadItems buf depth n q (arr @ [v]) = Inr (vs, p)" by (auto split: sum.splits)
  have q: "q \<le> length buf" using cbor_read_bounds(1) [OF v] by simp
  have "cborReadItem buf' depth pos = Inr (v, q)"
    using 3(1) [OF v] agree_mono [OF 3(5)] cbor_read_loop_progress(1) [OF rest q] by blast
  with 3(2) [OF v refl rest q 3(5)] show ?case by simp
next
  case (4 buf depth pos m)
  then show ?case by simp
next
  case (5 buf depth n pos m)
  then obtain k q v r where k: "cborReadItem buf depth pos = Inr (k, q)"
    and v: "cborReadItem buf depth q = Inr (v, r)"
    and rest: "cborReadPairs buf depth n r (cmap_set m k v) = Inr (kvs, p)"
    by (auto split: sum.splits)
  have r: "r \<le> length buf" "q \<le> r" using cbor_read_bounds(1) [OF v] by simp_all
  have "r \<le> p" using cbor_read_loop_progress(2) [OF rest r(1)] .
  then have "cborReadItem buf' depth pos = Inr (k, q)" "cborReadItem buf' depth q = Inr (v, r)"
    using 5(1) [OF k] 5(2) [OF k refl v] agree_mono [OF 5(6)] r by (blast intro: order_trans)+
  with 5(3) [OF k refl v refl rest r(1) 5(6)] show ?case by simp
qed

section \<open>The encoders\<close>

text \<open>
  \<open>cborUint(n)\<close>: \<open>Buffer.from([n])\<close> keeps the low byte; \<open>writeUInt32BE\<close> throws (\<open>None\<close>) on a number
  of more than 32 bits.
\<close>

definition cborUint :: "int \<Rightarrow> bytes option" where
  "cborUint n =
     (if n < 24 then Some [word_of_int n]
      else if n < 256 then Some [0x18, word_of_int n]
      else if n < 65536 then Some [0x19, word_of_int (n div 256), word_of_int n]
      else if n < 4294967296 then
        Some [0x1a, word_of_int (n div 16777216), word_of_int (n div 65536), word_of_int (n div 256), word_of_int n]
      else None)"

text \<open>\<open>head[0] = (head[0] & 0x1f) | major\<close>, which every encoder below applies to \<open>cborUint\<close>'s bytes.\<close>

definition cbor_head :: "byte \<Rightarrow> int \<Rightarrow> bytes option" where
  "cbor_head major n = map_option (\<lambda>u. ((hd u AND 0x1f) OR major) # tl u) (cborUint n)"

definition cborNegInt :: "int \<Rightarrow> bytes option" where
  "cborNegInt n = cbor_head 0x20 (-1 - n)"

definition cborBytes :: "bytes \<Rightarrow> bytes option" where
  "cborBytes buf = map_option (\<lambda>h. h @ buf) (cbor_head 0x40 (int (length buf)))"

definition cborText :: "nat list \<Rightarrow> bytes option" where
  "cborText str = (let b = utf8_encode str in map_option (\<lambda>h. h @ b) (cbor_head 0x60 (int (length b))))"

definition cborArray :: "bytes list \<Rightarrow> bytes option" where
  "cborArray items = map_option (\<lambda>h. h @ concat items) (cbor_head 0x80 (int (length items)))"

definition cborMap :: "(bytes \<times> bytes) list \<Rightarrow> bytes option" where
  "cborMap pairs =
     map_option (\<lambda>h. h @ concat (map (\<lambda>(k, v). k @ v) pairs)) (cbor_head 0xa0 (int (length pairs)))"

text \<open>The encoding of a value, put together from the encoders.\<close>

definition pair_opt :: "'a option \<times> 'b option \<Rightarrow> ('a \<times> 'b) option" where
  "pair_opt p = (case p of (Some a, Some b) \<Rightarrow> Some (a, b) | _ \<Rightarrow> None)"

fun cbor_encode :: "cbor \<Rightarrow> bytes option" where
  "cbor_encode (CNum n) = (if 0 \<le> n then cborUint n else cborNegInt n)"
| "cbor_encode (CBytes bs) = cborBytes bs"
| "cbor_encode (CText cs) = cborText cs"
| "cbor_encode (CArray vs) = Option.bind (those (map cbor_encode vs)) cborArray"
| "cbor_encode (CMap kvs) =
     Option.bind (those (map (\<lambda>(k, v). pair_opt (cbor_encode k, cbor_encode v)) kvs)) cborMap"

text \<open>The values an encoder can be given: text of scalar values, no key of a map twice.\<close>

fun cbor_value :: "cbor \<Rightarrow> bool" where
  "cbor_value (CText cs) = list_all scalar_value cs"
| "cbor_value (CArray vs) = list_all cbor_value vs"
| "cbor_value (CMap kvs) =
     (sorted_wrt (\<lambda>p q. \<not> same_key (fst p) (fst q)) kvs \<and> list_all (\<lambda>(k, v). cbor_value k \<and> cbor_value v) kvs)"
| "cbor_value _ = True"

lemma major_byte:
  assumes "unat (x :: byte) < 32" "m < 8"
  shows "unat ((x AND 0x1f) OR of_nat (32 * m)) = 32 * m + unat x"
proof -
  have "list_all (\<lambda>k. list_all (\<lambda>m. unat (((of_nat k :: byte) AND 0x1f) OR of_nat (32 * m)) = 32 * m + k)
      [0..<8]) [0..<32]" by code_simp
  then have "unat (((of_nat (unat x) :: byte) AND 0x1f) OR of_nat (32 * m)) = 32 * m + unat x"
    using assms unfolding list_all_iff set_upt by (auto simp only: atLeastLessThan_iff zero_le)
  then show ?thesis by simp
qed

lemma unat_word_of_int_byte: "unat (word_of_int n :: byte) = nat (n mod 256)"
  by (simp add: unat_eq_nat_uint uint_word_of_int)

lemma be_nat_2:
  assumes "0 \<le> n" "n < 65536"
  shows "be_nat [word_of_int (n div 256), word_of_int n] = nat n"
proof -
  have "int (be_nat [word_of_int (n div 256), word_of_int n]) = 256 * (n div 256) + n mod 256"
    using assms pos_imp_zdiv_nonneg_iff [of 256 n] by (simp add: be_nat_def unat_word_of_int_byte)
  also have "\<dots> = n" by simp
  finally show ?thesis by linarith
qed

lemma be_nat_4:
  assumes "0 \<le> n" "n < 4294967296"
  shows "be_nat [word_of_int (n div 16777216), word_of_int (n div 65536), word_of_int (n div 256), word_of_int n]
    = nat n" (is "be_nat ?bs = _")
proof -
  define a b c where abc: "a = n div 256" "b = n div 65536" "c = n div 16777216"
  have "n div 65536 = n div 256 div 256" "n div 16777216 = n div 256 div 256 div 256"
    by (simp_all add: zdiv_zmult2_eq [symmetric])
  then have d: "b = a div 256" "c = b div 256" by (simp_all only: abc)
  have s: "256 * c + b mod 256 = b" "256 * b + a mod 256 = a" "256 * a + n mod 256 = n"
    by (simp_all only: d abc(1) mult_div_mod_eq)
  have c: "0 \<le> c" "c < 256" using assms by (auto simp: abc pos_imp_zdiv_nonneg_iff)
  then have "c mod 256 = c" by simp
  then have "int (be_nat [word_of_int c, word_of_int b, word_of_int a, word_of_int n])
      = 256 * (256 * (256 * c + b mod 256) + a mod 256) + n mod 256"
    using c by (simp add: be_nat_def unat_word_of_int_byte)
  also have "\<dots> = n" by (simp only: s)
  finally show ?thesis unfolding abc by linarith
qed

lemma cborUint_cases:
  assumes "cborUint n = Some u" "0 \<le> n"
  obtains (tiny) "u = [word_of_int n]" "n < 24"
  | (b1) "u = [0x18, word_of_int n]" "n < 256"
  | (b2) t where "u = 0x19 # t" "length t = 2" "be_nat t = nat n"
  | (b4) t where "u = 0x1a # t" "length t = 4" "be_nat t = nat n"
  using assms be_nat_2 [of n] be_nat_4 [of n] unfolding cborUint_def
  by (cases "n < 24"; cases "n < 256"; cases "n < 65536"; cases "n < 4294967296") auto

lemma cborUint_shape:
  assumes "cborUint n = Some u" "0 \<le> n"
  obtains x t where "u = x # t" "unat x < 32"
    "\<And>buf pos. take (length t) (drop pos buf) = t \<Longrightarrow> pos + length t \<le> length buf \<Longrightarrow>
       cborReadLength buf pos (unat x) = Inr (nat n, pos + length t)"
  using assms
proof (cases rule: cborUint_cases)
  case tiny
  then show ?thesis using assms
    by (intro that [of "word_of_int n" "[]"]) (simp_all add: cborReadLength_def unat_word_of_int_byte)
next
  case b1
  have "unat (buf ! pos) = nat n" if "take 1 (drop pos buf) = [word_of_int n]" "pos + 1 \<le> length buf"
    for buf :: bytes and pos
    using that b1 assms(2) by (simp add: take_Suc hd_drop_conv_nth unat_word_of_int_byte)
  with b1 show ?thesis
    by (intro that [of "0x18" "[word_of_int n]"]) (simp_all add: cborReadLength_def)
next
  case (b2 t)
  then show ?thesis by (intro that [of "0x19" t]) (simp_all add: cborReadLength_def readUIntBE_def)
next
  case (b4 t)
  then show ?thesis by (intro that [of "0x1a" t]) (simp_all add: cborReadLength_def readUIntBE_def)
qed

lemma cborUint_major0: "cborUint n = Some u \<Longrightarrow> 0 \<le> n \<Longrightarrow> cbor_head 0 n = Some u"
  using major_byte [of "hd u" 0]
  by (auto simp: cbor_head_def elim!: cborUint_shape intro: word_unat_eq_iff [THEN iffD2])

text \<open>Reading the head of an item that an encoder wrote.\<close>

lemma cbor_head_read:
  assumes "cbor_head (of_nat (32 * m)) n = Some h" "0 \<le> n" "m < 8"
    and "buf = pre @ h @ rest"
  shows "length pre < length buf" "unat (buf ! length pre) div 32 = m"
    "cborReadLength buf (length pre + 1) (unat (buf ! length pre) mod 32) = Inr (nat n, length pre + length h)"
proof -
  from assms(1) obtain u where u: "cborUint n = Some u" and h: "h = ((hd u AND 0x1f) OR of_nat (32 * m)) # tl u"
    by (auto simp: cbor_head_def)
  obtain x t where xt: "u = x # t" "unat x < 32"
    and rd: "\<And>buf pos. take (length t) (drop pos buf) = t \<Longrightarrow> pos + length t \<le> length buf \<Longrightarrow>
       cborReadLength buf pos (unat x) = Inr (nat n, pos + length t)"
    using cborUint_shape [OF u assms(2)] by blast
  have b: "unat (buf ! length pre) = 32 * m + unat x"
    using major_byte [OF xt(2) assms(3)] by (simp add: assms(4) h xt(1) del: of_nat_mult)
  show "length pre < length buf" by (simp add: h assms(4))
  show "unat (buf ! length pre) div 32 = m" using b xt(2) by simp
  show "cborReadLength buf (length pre + 1) (unat (buf ! length pre) mod 32) = Inr (nat n, length pre + length h)"
    using rd [of "length pre + 1" buf] b xt by (simp add: assms(4) h)
qed

abbreviation reads_back :: "cbor \<Rightarrow> bool" where
  "reads_back v \<equiv> \<forall>bs pre rest depth. cbor_encode v = Some bs \<longrightarrow> cbor_value v \<longrightarrow>
     cbor_depth v + depth \<le> Suc CBOR_MAX_DEPTH \<longrightarrow>
     cborReadItem (pre @ bs @ rest) depth (length pre) = Inr (v, length pre + length bs)"

lemma those_Some_iff: "those xs = Some ys \<longleftrightarrow> xs = map Some ys"
proof (induction xs arbitrary: ys)
  case Nil
  then show ?case by (cases ys) auto
next
  case (Cons x xs)
  then show ?case by (cases ys; cases x) auto
qed

lemma map_Some_all2: "map f xs = map Some ys \<longleftrightarrow> list_all2 (\<lambda>x y. f x = Some y) xs ys"
  by (simp add: list.rel_eq [symmetric] list.rel_map)

lemma items_read_back:
  assumes "list_all2 (\<lambda>v bs. \<forall>pre rest. cborReadItem (pre @ bs @ rest) depth (length pre) = Inr (v, length pre + length bs)) vs bss"
  shows "cborReadItems (pre @ concat bss @ rest) depth (length vs) (length pre) arr
    = Inr (arr @ vs, length pre + length (concat bss))"
  using assms
proof (induction vs bss arbitrary: pre arr rule: list_all2_induct)
  case (Cons v vs bs bss)
  from Cons(3) [of "pre @ bs" "arr @ [v]"] Cons(1) show ?case by simp
qed simp

lemma cmap_set_new: "\<forall>p \<in> set m. \<not> same_key (fst p) k \<Longrightarrow> cmap_set m k v = m @ [(k, v)]"
  by (induction m k v rule: cmap_set.induct) auto

lemma pairs_read_back:
  assumes "list_all2 (\<lambda>kv bs. \<forall>pre rest.
       cborReadItem (pre @ fst bs @ rest) depth (length pre) = Inr (fst kv, length pre + length (fst bs)) \<and>
       cborReadItem (pre @ snd bs @ rest) depth (length pre) = Inr (snd kv, length pre + length (snd bs))) kvs bss"
    and "sorted_wrt (\<lambda>p q. \<not> same_key (fst p) (fst q)) (m @ kvs)"
  shows "cborReadPairs (pre @ concat (map (\<lambda>(k, v). k @ v) bss) @ rest) depth (length kvs) (length pre) m
    = Inr (m @ kvs, length pre + length (concat (map (\<lambda>(k, v). k @ v) bss)))"
  using assms
proof (induction kvs bss arbitrary: pre m rule: list_all2_induct)
  case (Cons kv kvs bs bss)
  obtain k v where kv: "kv = (k, v)" by (rule prod.exhaust)
  obtain bk bv where bs: "bs = (bk, bv)" by (rule prod.exhaust)
  have new: "cmap_set m k v = m @ [(k, v)]"
    using Cons(4) by (intro cmap_set_new) (simp add: sorted_wrt_append kv)
  have "sorted_wrt (\<lambda>p q. \<not> same_key (fst p) (fst q)) ((m @ [(k, v)]) @ kvs)" using Cons(4) kv by simp
  from Cons(3) [OF this, of "pre @ bk @ bv"]
  have ih: "cborReadPairs (pre @ bk @ bv @ concat (map (\<lambda>(k, v). k @ v) bss) @ rest) depth (length kvs)
      (length pre + (length bk + length bv)) (m @ [(k, v)])
    = Inr (m @ (k, v) # kvs, length pre + (length bk + length bv) + length (concat (map (\<lambda>(k, v). k @ v) bss)))"
    by simp
  have rk: "cborReadItem (pre @ bk @ bv @ r) depth (length pre) = Inr (k, length pre + length bk)" for r
    using Cons(1) kv bs by simp
  have "cborReadItem ((pre @ bk) @ bv @ r) depth (length (pre @ bk)) = Inr (v, length (pre @ bk) + length bv)" for r
    using Cons(1) kv bs by (metis snd_conv)
  then have rv: "cborReadItem (pre @ bk @ bv @ r) depth (length pre + length bk)
      = Inr (v, length pre + (length bk + length bv))" for r by simp
  show ?case using ih by (simp add: kv bs rk rv new add.assoc)
qed simp

lemma reads_back: "reads_back v"
proof (induction v)
  case (CNum n)
  show ?case
  proof (intro allI impI)
    fix bs pre rest depth
    assume e: "cbor_encode (CNum n) = Some bs" and d: "cbor_depth (CNum n) + depth \<le> Suc CBOR_MAX_DEPTH"
    let ?m = "if 0 \<le> n then 0 else 1 :: nat" and ?n = "if 0 \<le> n then n else -1 - n"
    have "cbor_head (of_nat (32 * ?m)) ?n = Some bs" using e cborUint_major0 by (auto simp: cborNegInt_def split: if_splits)
    note h = cbor_head_read [OF this _ _ refl, of pre rest]
    show "cborReadItem (pre @ bs @ rest) depth (length pre) = Inr (CNum n, length pre + length bs)"
      using h d by (subst cborReadItem.simps) (auto simp: Let_def split: if_splits)
  qed
next
  case (CBytes b)
  show ?case
  proof (intro allI impI)
    fix bs pre rest depth
    assume e: "cbor_encode (CBytes b) = Some bs" and d: "cbor_depth (CBytes b) + depth \<le> Suc CBOR_MAX_DEPTH"
    then obtain h where "cbor_head (of_nat (32 * 2)) (int (length b)) = Some h" and bs: "bs = h @ b"
      by (auto simp: cborBytes_def)
    note h = cbor_head_read [OF this(1) _ _ refl, of pre "b @ rest"]
    show "cborReadItem (pre @ bs @ rest) depth (length pre) = Inr (CBytes b, length pre + length bs)"
      using h d by (subst cborReadItem.simps) (auto simp: Let_def bs)
  qed
next
  case (CText cs)
  show ?case
  proof (intro allI impI)
    fix bs pre rest depth
    assume e: "cbor_encode (CText cs) = Some bs" and d: "cbor_depth (CText cs) + depth \<le> Suc CBOR_MAX_DEPTH"
      and s: "cbor_value (CText cs)"
    then obtain h where "cbor_head (of_nat (32 * 3)) (int (length (utf8_encode cs))) = Some h"
      and bs: "bs = h @ utf8_encode cs"
      by (auto simp: cborText_def Let_def)
    note h = cbor_head_read [OF this(1) _ _ refl, of pre "utf8_encode cs @ rest"]
    show "cborReadItem (pre @ bs @ rest) depth (length pre) = Inr (CText cs, length pre + length bs)"
      using h d utf8_roundtrip [of cs] s by (subst cborReadItem.simps) (auto simp: Let_def bs)
  qed
next
  case (CArray vs)
  show ?case
  proof (intro allI impI)
    fix bs pre rest depth
    assume e: "cbor_encode (CArray vs) = Some bs" and d: "cbor_depth (CArray vs) + depth \<le> Suc CBOR_MAX_DEPTH"
      and s: "cbor_value (CArray vs)"
    from e obtain bss where those: "list_all2 (\<lambda>v bs. cbor_encode v = Some bs) vs bss" and "cborArray bss = Some bs"
      by (auto simp: bind_eq_Some_conv those_Some_iff map_Some_all2)
    then obtain h where "cbor_head (of_nat (32 * 4)) (int (length bss)) = Some h" and bs: "bs = h @ concat bss"
      by (auto simp: cborArray_def)
    note h = cbor_head_read [OF this(1) _ _ refl, of pre "concat bss @ rest"]
    have len: "length bss = length vs" using those by (simp add: list_all2_lengthD)
    have dep: "depth \<le> CBOR_MAX_DEPTH" "\<forall>v \<in> set vs. cbor_depth v + (depth + 1) \<le> Suc CBOR_MAX_DEPTH"
      using d cbor_depth_array [of vs "CBOR_MAX_DEPTH - depth"] by auto
    have "list_all2 (\<lambda>v bs. \<forall>pre rest. cborReadItem (pre @ bs @ rest) (depth + 1) (length pre)
        = Inr (v, length pre + length bs)) vs bss"
      by (rule list.rel_mono_strong [OF those]) (use CArray dep(2) s in \<open>auto simp: list_all_iff\<close>)
    from items_read_back [OF this, of "pre @ h" rest "[]"]
    show "cborReadItem (pre @ bs @ rest) depth (length pre) = Inr (CArray vs, length pre + length bs)"
      using h dep(1) by (subst cborReadItem.simps) (auto simp: Let_def bs len)
  qed
next
  case (CMap kvs)
  show ?case
  proof (intro allI impI)
    fix bs pre rest depth
    assume e: "cbor_encode (CMap kvs) = Some bs" and d: "cbor_depth (CMap kvs) + depth \<le> Suc CBOR_MAX_DEPTH"
      and s: "cbor_value (CMap kvs)"
    from e obtain bss where "list_all2 (\<lambda>kv bs. pair_opt (cbor_encode (fst kv), cbor_encode (snd kv)) = Some bs) kvs bss"
      and enc: "cborMap bss = Some bs"
      by (auto simp: bind_eq_Some_conv those_Some_iff map_Some_all2 case_prod_beta)
    from this(1) have those: "list_all2 (\<lambda>kv bs. cbor_encode (fst kv) = Some (fst bs) \<and> cbor_encode (snd kv) = Some (snd bs))
        kvs bss"
      by (rule list_all2_mono) (auto simp: pair_opt_def split: option.splits)
    from enc obtain h where "cbor_head (of_nat (32 * 5)) (int (length bss)) = Some h"
      and bs: "bs = h @ concat (map (\<lambda>(k, v). k @ v) bss)"
      by (auto simp: cborMap_def)
    note h = cbor_head_read [OF this(1) _ _ refl, of pre "concat (map (\<lambda>(k, v). k @ v) bss) @ rest"]
    have len: "length bss = length kvs" using those by (simp add: list_all2_lengthD)
    have dep: "depth \<le> CBOR_MAX_DEPTH" "\<forall>(k, v) \<in> set kvs. cbor_depth k + (depth + 1) \<le> Suc CBOR_MAX_DEPTH
        \<and> cbor_depth v + (depth + 1) \<le> Suc CBOR_MAX_DEPTH"
      using d cbor_depth_map [of kvs "CBOR_MAX_DEPTH - depth"] by auto
    have "list_all2 (\<lambda>kv bs. \<forall>pre rest.
        cborReadItem (pre @ fst bs @ rest) (depth + 1) (length pre) = Inr (fst kv, length pre + length (fst bs)) \<and>
        cborReadItem (pre @ snd bs @ rest) (depth + 1) (length pre) = Inr (snd kv, length pre + length (snd bs)))
        kvs bss"
      by (rule list.rel_mono_strong [OF those])
         (use CMap dep(2) s in \<open>fastforce simp: list_all_iff\<close>)
    from pairs_read_back [OF this, of "[]" "pre @ h" rest] s
    show "cborReadItem (pre @ bs @ rest) depth (length pre) = Inr (CMap kvs, length pre + length bs)"
      using h dep(1) by (subst cborReadItem.simps) (auto simp: Let_def bs len)
  qed
qed

section \<open>Properties\<close>

text \<open>
  C30. Decoding is bounded by its input: a successful decode ends inside the buffer after at least one
  byte, the value it returns is nested at most seventeen levels deep, and its size (items, bytes and
  code points) is at most the number of bytes consumed, whatever lengths the input announces.
\<close>

theorem cbor_decode_bounded:
  assumes "cborDecodeFirst buf = Inr (v, e)"
  shows "0 < e \<and> e \<le> length buf \<and> cbor_depth v \<le> 17 \<and> cbor_size v \<le> e"
  using cbor_read_bounds(1) [OF assms [unfolded cborDecodeFirst_def]] cbor_size_pos [of v]
  by (auto simp: CBOR_MAX_DEPTH_def)

definition ex_cbor :: bytes where
  "ex_cbor = [0xa2, 0x63, 0x66, 0x6d, 0x74, 0x82, 0x05, 0x20, 0x01, 0x42, 0xde, 0xad, 0xff]"

definition ex_cbor_value :: cbor where
  "ex_cbor_value = CMap [(CText [102, 109, 116], CArray [CNum 5, CNum (-1)]), (CNum 1, CBytes [0xde, 0xad])]"

theorem cbor_decode_bounded_witness:
  "cborDecodeFirst ex_cbor = Inr (ex_cbor_value, 12) \<and> cbor_depth ex_cbor_value \<le> 17"
proof -
  have d: "cborDecodeFirst ex_cbor = Inr (ex_cbor_value, 12)" by code_simp
  from cbor_decode_bounded [OF d] d show ?thesis by simp
qed

text \<open>
  Encoded items are self-delimiting: the decoder's answer is determined by the bytes it consumed,
  whatever follows them, and every input cut off before that point is refused.
\<close>

theorem cbor_decode_prefix:
  assumes d: "cborDecodeFirst buf = Inr (v, e)"
  shows "cborDecodeFirst (take e buf @ rest) = Inr (v, e)
    \<and> (\<forall>k < e. \<exists>msg. cborDecodeFirst (take k buf) = Inl msg)"
proof -
  have e: "e \<le> length buf" using cbor_read_bounds(1) d unfolding cborDecodeFirst_def by blast
  then have "agree e buf (take e buf @ rest)" by (simp add: agree_def)
  with d have whole: "cborDecodeFirst (take e buf @ rest) = Inr (v, e)"
    unfolding cborDecodeFirst_def by (rule cbor_read_agree)
  have "\<exists>msg. cborDecodeFirst (take k buf) = Inl msg" if k: "k < e" for k
  proof (rule ccontr)
    assume "\<nexists>msg. cborDecodeFirst (take k buf) = Inl msg"
    then obtain v' e' where d': "cborDecodeFirst (take k buf) = Inr (v', e')"
      by (metis sum.exhaust prod.exhaust)
    then have e': "e' \<le> k" using cbor_read_bounds(1) [of "take k buf"] k e unfolding cborDecodeFirst_def by fastforce
    then have "agree e' (take k buf) buf" using k e by (simp add: agree_def)
    with d' have "cborDecodeFirst buf = Inr (v', e')"
      unfolding cborDecodeFirst_def by (rule cbor_read_agree)
    with d e' k show False by simp
  qed
  with whole show ?thesis by blast
qed

theorem cbor_decode_prefix_witness:
  "cborDecodeFirst (take 12 ex_cbor @ []) = Inr (ex_cbor_value, 12)
   \<and> (\<exists>msg. cborDecodeFirst (take 11 ex_cbor) = Inl msg)"
proof -
  have d: "cborDecodeFirst ex_cbor = Inr (ex_cbor_value, 12)" by code_simp
  from cbor_decode_prefix [OF d, of "[]"] show ?thesis by auto
qed

text \<open>
  C31. The reader inverts the repository's encoders: whatever value they encode (numbers of 32 bits,
  strings of Unicode scalar values, maps without a repeated key, at most seventeen levels), decoding
  its bytes, followed by anything, gives back the value and the length of the encoding.
\<close>

theorem cbor_roundtrip:
  assumes "cbor_encode v = Some bs" "cbor_value v" "cbor_depth v \<le> 17"
  shows "cborDecodeFirst (bs @ rest) = Inr (v, length bs)"
  using reads_back [of v, THEN spec, THEN spec, of bs "[]"] assms
  by (simp add: cborDecodeFirst_def CBOR_MAX_DEPTH_def)

theorem cbor_roundtrip_witness:
  "cborDecodeFirst (butlast ex_cbor @ [0]) = Inr (ex_cbor_value, length (butlast ex_cbor))"
proof -
  have "cbor_encode ex_cbor_value = Some (butlast ex_cbor)"
    by (simp add: ex_cbor_value_def ex_cbor_def cborText_def cborBytes_def cborArray_def cborMap_def cborNegInt_def
        cbor_head_def cborUint_def utf8_encode_def utf8_enc_def pair_opt_def)
  moreover have "cbor_value ex_cbor_value" by (simp add: ex_cbor_value_def scalar_value_def)
  moreover have "cbor_depth ex_cbor_value \<le> 17" by (simp add: ex_cbor_value_def)
  ultimately have e: "cbor_encode ex_cbor_value = Some (butlast ex_cbor)" "cbor_value ex_cbor_value"
    "cbor_depth ex_cbor_value \<le> 17" by simp_all
  from cbor_roundtrip [OF e, of "[0]"] show ?thesis .
qed

end
