(* ===== verification/Der.thy ===== *)
theory Der
  imports Cbor "HOL-Library.Monad_Syntax"
begin

text \<open>
  The DER walk of \<^verbatim>\<open>token-issuer/appattest.js\<close> (\<open>derReadTLV\<close>, \<open>encodeOid\<close>, \<open>findExtensionValue\<close>,
  \<open>parseAppleNonce\<close>) and the DER encoders of \<^verbatim>\<open>token-issuer/appattest-fixtures.js\<close>. Offsets are integers,
  because a four-byte length is computed with 32-bit signed shifts and can be negative; \<open>buf[i]\<close>
  outside the buffer is \<open>undefined\<close> (\<open>None\<close>). The two loops may run forever and are partial
  functions: \<open>None\<close> is "does not return". Shown: on the encoding of a tree the walk is the depth-first
  search of the tree, the nonce extension is read back, and the input on which the walk hangs.
\<close>

definition at :: "bytes \<Rightarrow> int \<Rightarrow> byte option" where
  "at buf i = (if 0 \<le> i \<and> i < int (length buf) then Some (buf ! nat i) else None)"

text \<open>\<open>buf.subarray(a, b)\<close>: a negative index counts from the end, and both are clamped.\<close>

definition clamp_index :: "bytes \<Rightarrow> int \<Rightarrow> nat" where
  "clamp_index buf i = (if i < 0 then nat (int (length buf) + i) else min (nat i) (length buf))"

definition subarray :: "bytes \<Rightarrow> int \<Rightarrow> int \<Rightarrow> bytes" where
  "subarray buf a b = take (clamp_index buf b - clamp_index buf a) (drop (clamp_index buf a) buf)"

text \<open>\<open>t_len\<close> is \<open>None\<close> where the code computes with \<open>undefined\<close>; every later sum is then NaN.\<close>

record tlv_view =
  t_tag :: "byte option"
  t_len :: "int option"
  t_contentStart :: int

text \<open>\<open>len = (len << 8) | byte\<close> on 32-bit signed integers.\<close>

definition long_length :: "bytes \<Rightarrow> int" where
  "long_length bs = sint (foldl (\<lambda>len b. push_bit 8 len OR ucast b) (0 :: 32 word) bs)"

definition derReadTLV :: "bytes \<Rightarrow> int \<Rightarrow> string + tlv_view" where
  "derReadTLV buf off =
     (if off + 1 > int (length buf) then Inl ''der: truncated tag''
      else if off + 1 \<ge> int (length buf) then Inl ''der: truncated length''
      else
        case at buf (off + 1) of
          None \<Rightarrow> Inr \<lparr>t_tag = at buf off, t_len = None, t_contentStart = off + 2\<rparr>
        | Some b \<Rightarrow>
            if b AND 0x80 = 0 then
              (if off + 2 + int (unat b) > int (length buf) then Inl ''der: content overruns''
               else Inr \<lparr>t_tag = at buf off, t_len = Some (int (unat b)), t_contentStart = off + 2\<rparr>)
            else
              let nBytes = unat (b AND 0x7f) in
              if nBytes = 0 \<or> nBytes > 4 then Inl ''der: bad long-form length''
              else if off + 2 + int nBytes > int (length buf) then Inl ''der: truncated long length''
              else
                let len = long_length (take nBytes (drop (nat (off + 2)) buf)) in
                if off + 2 + int nBytes + len > int (length buf) then Inl ''der: content overruns''
                else Inr \<lparr>t_tag = at buf off, t_len = Some len, t_contentStart = off + 2 + int nBytes\<rparr>)"

text \<open>
  \<open>encodeOid\<close>: \<open>parseInt(x, 10)\<close> of each part (\<open>None\<close> is NaN, which the bit operations read as 0), the
  arithmetic on 32-bit signed integers.
\<close>

definition toInt32 :: "int option \<Rightarrow> 32 word" where
  "toInt32 v = (case v of None \<Rightarrow> 0 | Some n \<Rightarrow> word_of_int n)"

function oid_stack :: "int \<Rightarrow> bytes \<Rightarrow> bytes" where
  "oid_stack v stack = (if v > 0 then oid_stack (v div 128) (word_of_int (v mod 128 + 128) # stack) else stack)"
  by pat_completeness auto

termination
  by (relation "measure (\<lambda>(v, _). nat v)") auto

declare oid_stack.simps [simp del]

definition oid_part :: "int option \<Rightarrow> bytes" where
  "oid_part part = (let v = sint (toInt32 part) in oid_stack (v div 128) [word_of_int (v mod 128)])"

definition encodeOid :: "string \<Rightarrow> string + bytes" where
  "encodeOid dotted =
     (let parts = map parseInt10 (js_split CHR ''.'' dotted) in
      if length parts < 2 then Inl ''oid: too short''
      else Inr ((case (parts ! 0, parts ! 1) of
                   (Some a, Some b) \<Rightarrow> word_of_int (40 * a + b) | _ \<Rightarrow> 0)
                # concat (map oid_part (drop 2 parts))))"

text \<open>The inner \<open>while (sib < cEnd)\<close>; a throw is caught outside and means "no match".\<close>

partial_function (option) der_siblings :: "bytes \<Rightarrow> int \<Rightarrow> int \<Rightarrow> bytes option option" where
  "der_siblings buf sib cEnd =
     (if sib < cEnd then
        (case derReadTLV buf sib of
           Inl _ \<Rightarrow> Some None
         | Inr s \<Rightarrow>
             (case t_len s of
                None \<Rightarrow> Some None
              | Some len \<Rightarrow>
                  if t_tag s = Some 0x04
                  then Some (Some (subarray buf (t_contentStart s) (t_contentStart s + len)))
                  else der_siblings buf (t_contentStart s + len) cEnd))
      else Some None)"

text \<open>The \<open>try\<close> block on a SEQUENCE: does it begin with the OID, and what is its OCTET STRING?\<close>

definition der_extension :: "bytes \<Rightarrow> bytes \<Rightarrow> int \<Rightarrow> int \<Rightarrow> bytes option option" where
  "der_extension oidBytes buf cStart cEnd =
     (case derReadTLV buf cStart of
        Inl _ \<Rightarrow> Some None
      | Inr inner \<Rightarrow>
          if t_tag inner = Some 0x06 \<and> t_len inner = Some (int (length oidBytes))
             \<and> subarray buf (t_contentStart inner) (t_contentStart inner + int (length oidBytes)) = oidBytes
          then der_siblings buf (t_contentStart inner + int (length oidBytes)) cEnd
          else Some None)"

definition constructed :: "byte option \<Rightarrow> bool" where
  "constructed tag = (case tag of None \<Rightarrow> False | Some t \<Rightarrow> t AND 0x20 \<noteq> 0)"

text \<open>
  \<open>walk\<close> from offset \<open>off\<close>; the result is \<open>found.value\<close>. The test at the entry and the loop condition
  on \<open>found.value\<close> become the early results.
\<close>

partial_function (option) der_walk :: "bytes \<Rightarrow> bytes \<Rightarrow> int \<Rightarrow> int \<Rightarrow> nat \<Rightarrow> bytes option option" where
  "der_walk oidBytes buf off end' depth =
     (if depth > 24 then Some None
      else if off < end' then
        (case derReadTLV buf off of
           Inl _ \<Rightarrow> Some None
         | Inr t \<Rightarrow>
             (case t_len t of
                None \<Rightarrow> Some None
              | Some len \<Rightarrow>
                  do {
                    ext \<leftarrow> (if t_tag t = Some 0x30 then der_extension oidBytes buf (t_contentStart t) (t_contentStart t + len)
                            else Some None);
                    case ext of
                      Some v \<Rightarrow> Some (Some v)
                    | None \<Rightarrow>
                        do {
                          r \<leftarrow> (if constructed (t_tag t)
                                then der_walk oidBytes buf (t_contentStart t) (t_contentStart t + len) (depth + 1)
                                else Some None);
                          case r of
                            Some v \<Rightarrow> Some (Some v)
                          | None \<Rightarrow> der_walk oidBytes buf (t_contentStart t + len) end' depth
                        }
                  }))
      else Some None)"

declare der_siblings.simps [code] der_walk.simps [code]

definition findExtensionValue :: "bytes \<Rightarrow> string \<Rightarrow> (string + bytes option) option" where
  "findExtensionValue certDer oidDotted =
     (case encodeOid oidDotted of
        Inl e \<Rightarrow> Some (Inl e)
      | Inr oidBytes \<Rightarrow> map_option Inr (der_walk oidBytes certDer 0 (int (length certDer)) 0))"

definition parseAppleNonce :: "bytes \<Rightarrow> string + bytes" where
  "parseAppleNonce extnValueDer =
     bind_res (derReadTLV extnValueDer 0) (\<lambda>seq.
     if t_tag seq \<noteq> Some 0x30 then Inl ''nonce: outer not SEQUENCE'' else
     bind_res (derReadTLV extnValueDer (t_contentStart seq)) (\<lambda>ctx.
     if t_tag ctx \<noteq> Some 0xa1 then Inl ''nonce: expected [1] context tag'' else
     bind_res (derReadTLV extnValueDer (t_contentStart ctx)) (\<lambda>oct.
     if t_tag oct \<noteq> Some 0x04 then Inl ''nonce: inner not OCTET STRING''
     else if t_len oct \<noteq> Some 32 then Inl ''nonce: not 32 bytes''
     else Inr (subarray extnValueDer (t_contentStart oct) (t_contentStart oct + 32)))))"

definition APPLE_NONCE_OID :: string where
  "APPLE_NONCE_OID = ''1.2.840.113635.100.8.2''"

section \<open>The encoders\<close>

lemma sint32_le: "0 < v \<Longrightarrow> sint (word_of_int v :: 32 word) \<le> v"
proof (cases "v < 2 ^ 31")
  case False
  have "sint (word_of_int v :: 32 word) < 2 ^ 31" using sint_lt [of "word_of_int v :: 32 word"] by simp
  with False show ?thesis by linarith
qed (simp add: signed_of_int signed_take_bit_int_eq_self)

text \<open>\<open>while (v > 0) { bytes.unshift(v & 0xff); v >>= 8; }\<close> with 32-bit signed shifts.\<close>

function der_len_bytes :: "int \<Rightarrow> bytes \<Rightarrow> bytes" where
  "der_len_bytes v acc =
     (if v > 0 then der_len_bytes (sint (word_of_int v :: 32 word) div 256) (word_of_int v # acc) else acc)"
  by pat_completeness auto

termination
proof (relation "measure (\<lambda>(v, _). nat v)")
  fix v :: int and acc :: bytes
  assume v: "0 < v"
  have "sint (word_of_int v :: 32 word) div 256 < v" using sint32_le [OF v] v by linarith
  with v show "((sint (word_of_int v :: 32 word) div 256, word_of_int v # acc), v, acc) \<in> measure (\<lambda>(v, _). nat v)"
    by simp
qed simp

declare der_len_bytes.simps [simp del]

definition derLen :: "int \<Rightarrow> bytes" where
  "derLen n =
     (if n < 0x80 then [word_of_int n]
      else let bytes = der_len_bytes n [] in (0x80 OR of_nat (length bytes)) # bytes)"

definition tlv :: "byte \<Rightarrow> bytes \<Rightarrow> bytes" where
  "tlv tag content = tag # derLen (int (length content)) @ content"

definition derSeq :: "bytes list \<Rightarrow> bytes" where
  "derSeq items = tlv 0x30 (concat items)"

definition derSet :: "bytes list \<Rightarrow> bytes" where
  "derSet items = tlv 0x31 (concat items)"

definition derOctetString :: "bytes \<Rightarrow> bytes" where
  "derOctetString buf = tlv 0x04 buf"

definition derBoolean :: "bool \<Rightarrow> bytes" where
  "derBoolean b = tlv 0x01 [if b then 0xff else 0x00]"

definition context_tag :: "nat \<Rightarrow> bool \<Rightarrow> byte" where
  "context_tag tagNum constr = (0x80 OR (if constr then 0x20 else 0x00)) OR of_nat tagNum"

definition derContext :: "nat \<Rightarrow> bool \<Rightarrow> bytes \<Rightarrow> bytes" where
  "derContext tagNum constr content = tlv (context_tag tagNum constr) content"

function nat_bytes :: "nat \<Rightarrow> bytes \<Rightarrow> bytes" where
  "nat_bytes v acc = (if v > 0 then nat_bytes (v div 256) (of_nat v # acc) else acc)"
  by pat_completeness auto

termination
  by (relation "measure fst") auto

definition derInteger :: "nat \<Rightarrow> bytes" where
  "derInteger v =
     (let bytes = (if v = 0 then [0] else nat_bytes v []) in
      tlv 0x02 (if hd bytes AND 0x80 \<noteq> 0 then 0x00 # bytes else bytes))"

definition derOid :: "string \<Rightarrow> bytes" where
  "derOid dotted =
     (let parts = map parseInt10 (js_split CHR ''.'' dotted) in
      tlv 0x06 ((case parts of Some a # Some b # _ \<Rightarrow> word_of_int (40 * a + b) | _ \<Rightarrow> 0)
                # concat (map oid_part (drop 2 parts))))"

text \<open>The value of the nonce extension, and the extension itself.\<close>

definition nonce_extnValue :: "bytes \<Rightarrow> bytes" where
  "nonce_extnValue nonce32 = derSeq [derContext 1 True (derOctetString nonce32)]"

definition appleNonceExtension :: "bytes \<Rightarrow> bytes" where
  "appleNonceExtension nonce32 = derSeq [derOid ''1.2.840.113635.100.8.2'', derOctetString (nonce_extnValue nonce32)]"

section \<open>Reading what the encoders wrote\<close>

lemma push_byte: "push_bit 8 w OR ucast (b :: byte) = 256 * w + (ucast b :: 32 word)"
proof -
  have "push_bit 8 w OR ucast b = push_bit 8 w + (ucast b :: 32 word)"
  proof (rule disjunctive_add_eq_or [symmetric], rule bit_word_eqI)
    fix n
    show "bit (push_bit 8 w AND (ucast b :: 32 word)) n = bit (0 :: 32 word) n"
      using bit_imp_le_length [of b n] by (auto simp: bit_simps)
  qed
  then show ?thesis by (simp add: push_bit_eq_mult)
qed

lemma foldl_push_byte:
  "foldl (\<lambda>len b. push_bit 8 len OR ucast b) (0 :: 32 word) bs = of_nat (be_nat bs)"
proof (induction bs rule: rev_induct)
  case (snoc b bs)
  then show ?case by (simp add: push_byte be_nat_snoc) 
qed (simp add: be_nat_def)

lemma long_length_eq: "long_length bs = sint (of_nat (be_nat bs) :: 32 word)"
  by (simp add: long_length_def foldl_push_byte)

lemma long_length_small: "be_nat bs < 2 ^ 31 \<Longrightarrow> long_length bs = int (be_nat bs)"
  by (simp add: long_length_eq signed_of_nat signed_take_bit_int_eq_self)

lemma der_len_bytes_step:
  assumes "0 < v" "v < 2 ^ 31"
  shows "der_len_bytes v acc = der_len_bytes (v div 256) (word_of_int v # acc)"
  using assms by (subst der_len_bytes.simps) (simp add: signed_of_int signed_take_bit_int_eq_self)

lemma be_nat_Cons: "be_nat (b # bs) = unat b * 256 ^ length bs + be_nat bs"
proof (induction bs rule: rev_induct)
  case (snoc c bs)
  then show ?case using be_nat_snoc [of "b # bs" c] by (simp add: be_nat_snoc algebra_simps)
qed (simp add: be_nat_def)

text \<open>The length octets: their value, and how many there are.\<close>

lemma der_len_bytes_value:
  "0 \<le> v \<Longrightarrow> v < 2 ^ 31 \<Longrightarrow> be_nat (der_len_bytes v acc) = nat v * 256 ^ length acc + be_nat acc"
proof (induction v acc rule: der_len_bytes.induct)
  case (1 v acc)
  show ?case
  proof (cases "v = 0")
    case False
    with 1(2) have v: "0 < v" by simp
    have s: "sint (word_of_int v :: 32 word) = v" using v 1(3) by (simp add: signed_of_int signed_take_bit_int_eq_self)
    have "be_nat (der_len_bytes (v div 256) (word_of_int v # acc))
        = nat (v div 256) * 256 ^ Suc (length acc) + be_nat (word_of_int v # acc)"
      using 1(1) [OF v, unfolded s] v 1(3) by (simp add: pos_imp_zdiv_nonneg_iff)
    also have "\<dots> = (nat (v div 256) * 256 + nat (v mod 256)) * 256 ^ length acc + be_nat acc"
      by (simp add: be_nat_Cons unat_word_of_int_byte algebra_simps)
    also have "nat (v div 256) * 256 + nat (v mod 256) = nat v"
      using v by (simp add: nat_div_distrib nat_mod_distrib)
    finally show ?thesis by (simp add: der_len_bytes_step [OF v 1(3)])
  qed (simp add: der_len_bytes.simps [of 0])
qed

lemma der_len_bytes_length:
  "0 \<le> v \<Longrightarrow> v < 2 ^ 31 \<Longrightarrow> v < 256 ^ k \<Longrightarrow> length (der_len_bytes v acc) \<le> length acc + k"
proof (induction k arbitrary: v acc)
  case (Suc k)
  show ?case
  proof (cases "v = 0")
    case False
    with Suc.prems have v: "0 < v" by simp
    have "v div 256 < 256 ^ k" using Suc.prems(3) by (simp add: div_less_iff_less_mult mult.commute)
    then show ?thesis
      using Suc.IH [of "v div 256" "word_of_int v # acc"] v Suc.prems(2)
      by (simp add: der_len_bytes_step pos_imp_zdiv_nonneg_iff)
  qed (simp add: der_len_bytes.simps [of 0])
qed (simp add: der_len_bytes.simps)

lemma der_len_bytes_nonempty: "0 < v \<Longrightarrow> length acc < length (der_len_bytes v acc)"
proof (induction v acc rule: der_len_bytes.induct)
  case (1 v acc)
  have "length acc < length (der_len_bytes w (word_of_int v # acc))"
    if "w = sint (word_of_int v :: 32 word) div 256" for w
  proof (cases "0 < w")
    case True
    then show ?thesis using 1(1) [OF 1(2)] that by simp
  next
    case False
    then show ?thesis by (simp add: der_len_bytes.simps [of w])
  qed
  with 1(2) show ?case by (subst der_len_bytes.simps) simp
qed

lemma long_form_byte:
  assumes "k < 8"
  shows "(0x80 OR of_nat k :: byte) AND 0x80 \<noteq> 0" "unat ((0x80 OR of_nat k :: byte) AND 0x7f) = k"
proof -
  have "list_all (\<lambda>k. (0x80 OR of_nat k :: byte) AND 0x80 \<noteq> 0 \<and> unat ((0x80 OR of_nat k :: byte) AND 0x7f) = k)
      [0..<8]" by code_simp
  then have "(0x80 OR of_nat k :: byte) AND 0x80 \<noteq> 0 \<and> unat ((0x80 OR of_nat k :: byte) AND 0x7f) = k"
    using assms unfolding list_all_iff set_upt by (auto simp only: atLeastLessThan_iff zero_le)
  then show "(0x80 OR of_nat k :: byte) AND 0x80 \<noteq> 0" "unat ((0x80 OR of_nat k :: byte) AND 0x7f) = k"
    by simp_all
qed

lemma short_form_byte: "n < 128 \<Longrightarrow> (of_nat n :: byte) AND 0x80 = 0"
proof -
  have "list_all (\<lambda>n. (of_nat n :: byte) AND 0x80 = 0) [0..<128]" by code_simp
  then show "n < 128 \<Longrightarrow> ?thesis" unfolding list_all_iff set_upt by (auto simp only: atLeastLessThan_iff zero_le)
qed

text \<open>\<open>derReadTLV\<close> reads back what \<open>tlv\<close> wrote, wherever it stands.\<close>

lemma derReadTLV_tlv:
  assumes n: "int (length content) < 2 ^ 31"
  shows "derReadTLV (pre @ tlv tag content @ rest) (int (length pre)) =
    Inr \<lparr>t_tag = Some tag, t_len = Some (int (length content)),
         t_contentStart = int (length pre) + 1 + int (length (derLen (int (length content))))\<rparr>"
proof (cases "length content < 128")
  case True
  then show ?thesis using short_form_byte [OF True]
    by (auto simp: derReadTLV_def tlv_def derLen_def at_def nth_append nat_add_distrib unat_of_nat_byte
        Suc_nat_eq_nat_zadd1 unat_of_nat)
next
  case False
  define bs where "bs = der_len_bytes (int (length content)) []"
  have len: "length bs \<le> 4" "length bs \<noteq> 0" and val: "be_nat bs = length content"
    using der_len_bytes_length [of "int (length content)" 4 "[]"] der_len_bytes_value [of "int (length content)" "[]"]
      der_len_bytes_nonempty [of "int (length content)" "[]"] n False by (auto simp: bs_def be_nat_def)
  have ll: "long_length bs = int (length content)" using long_length_small [of bs] val n by simp
  have d: "derLen (int (length content)) = (0x80 OR of_nat (length bs)) # bs"
    using False by (simp add: derLen_def bs_def Let_def)
  have b: "(0x80 OR of_nat (length bs) :: byte) AND 0x80 \<noteq> 0" "unat ((0x80 OR of_nat (length bs) :: byte) AND 0x7f) = length bs"
    using long_form_byte [of "length bs"] len by simp_all
  show ?thesis unfolding tlv_def d using b len ll
    by (simp add: derReadTLV_def at_def nth_append nat_add_distrib Let_def)
qed

section \<open>The walk on well-formed DER\<close>

text \<open>A DER value as a tree, its encoding with the repository's \<open>tlv\<close>, and the search the walk performs.\<close>

datatype der = Prim byte bytes | Constr byte "der list"

fun der_enc :: "der \<Rightarrow> bytes" where
  "der_enc (Prim t c) = tlv t c"
| "der_enc (Constr t ks) = tlv t (concat (map der_enc ks))"

fun der_tag :: "der \<Rightarrow> byte" where
  "der_tag (Prim t c) = t"
| "der_tag (Constr t ks) = t"

fun der_content :: "der \<Rightarrow> bytes" where
  "der_content (Prim t c) = c"
| "der_content (Constr t ks) = concat (map der_enc ks)"

fun der_ok :: "der \<Rightarrow> bool" where
  "der_ok (Prim t c) = (t AND 0x20 = 0)"
| "der_ok (Constr t ks) = (t AND 0x20 \<noteq> 0 \<and> list_all der_ok ks)"

fun der_levels :: "der \<Rightarrow> nat" where
  "der_levels (Prim t c) = 1"
| "der_levels (Constr t ks) = 1 + foldr (\<lambda>k d. max (der_levels k) d) ks 0"

text \<open>The extnValue of an Extension: the first OCTET STRING after the OID.\<close>

fun ext_of :: "bytes \<Rightarrow> der list \<Rightarrow> bytes option" where
  "ext_of oid [] = None"
| "ext_of oid (k # ks) =
     (if der_tag k = 0x06 \<and> der_content k = oid then map_option der_content (find (\<lambda>k. der_tag k = 0x04) ks)
      else None)"

fun der_find :: "bytes \<Rightarrow> der \<Rightarrow> bytes option"
  and der_finds :: "bytes \<Rightarrow> der list \<Rightarrow> bytes option"
where
  "der_find oid (Prim t c) = None"
| "der_find oid (Constr t ks) =
     (case (if t = 0x30 then ext_of oid ks else None) of Some v \<Rightarrow> Some v | None \<Rightarrow> der_finds oid ks)"
| "der_finds oid [] = None"
| "der_finds oid (k # ks) = (case der_find oid k of Some v \<Rightarrow> Some v | None \<Rightarrow> der_finds oid ks)"

lemma der_enc_tlv: "der_enc k = tlv (der_tag k) (der_content k)"
  by (cases k) simp_all

lemma tlv_subarray:
  "subarray (pre @ tlv tag c @ rest) (int (length pre) + 1 + int (length (derLen (int (length c)))))
     (int (length pre) + 1 + int (length (derLen (int (length c)))) + int (length c)) = c"
proof -
  have eq: "pre @ tlv tag c @ rest = (pre @ tag # derLen (int (length c))) @ c @ rest" by (simp add: tlv_def)
  have i: "int (length pre) + 1 + int (length (derLen (int (length c)))) = int (length (pre @ tag # derLen (int (length c))))"
    by simp
  show ?thesis unfolding eq i by (simp add: subarray_def clamp_index_def nat_add_distrib)
qed

abbreviation region :: "der list \<Rightarrow> bytes" where
  "region ks \<equiv> concat (map der_enc ks)"

lemma content_start:
  "int (length pre) + 1 + int (length (derLen (int (length c)))) + int (length c)
   = int (length pre) + int (length (tlv tag c))"
  by (simp add: tlv_def)

lemma der_siblings_step:
  assumes "off < e" "derReadTLV buf off = Inr \<lparr>t_tag = Some t, t_len = Some l, t_contentStart = c\<rparr>"
  shows "der_siblings buf off e =
    (if t = 0x04 then Some (Some (subarray buf c (c + l))) else der_siblings buf (c + l) e)"
  using assms by (subst der_siblings.simps) simp

lemma der_siblings_region:
  "int (length (pre @ region ks @ rest)) < 2 ^ 31 \<Longrightarrow>
   der_siblings (pre @ region ks @ rest) (int (length pre)) (int (length pre) + int (length (region ks)))
   = Some (map_option der_content (find (\<lambda>k. der_tag k = 0x04) ks))"
proof (induction ks arbitrary: pre)
  case Nil
  then show ?case by (simp add: der_siblings.simps)
next
  case (Cons k ks)
  let ?c = "der_content k" and ?b = "pre @ region (k # ks) @ rest"
  have b: "?b = pre @ tlv (der_tag k) ?c @ region ks @ rest" by (simp add: der_enc_tlv [of k])
  have n: "int (length ?c) < 2 ^ 31" using Cons.prems by (simp add: der_enc_tlv [of k] tlv_def)
  note rd = derReadTLV_tlv [OF n, of pre "der_tag k" "region ks @ rest", folded b]
  have ih: "der_siblings ?b (int (length pre) + int (length (tlv (der_tag k) ?c)))
       (int (length pre) + int (length (region (k # ks))))
     = Some (map_option der_content (find (\<lambda>k. der_tag k = 0x04) ks))"
    using Cons.IH [of "pre @ der_enc k"] Cons.prems by (simp add: der_enc_tlv [of k] add.assoc)
  have lt: "int (length pre) < int (length pre) + int (length (region (k # ks)))"
    by (simp add: der_enc_tlv [of k] tlv_def)
  show ?case unfolding der_siblings_step [OF lt rd] content_start [of pre ?c "der_tag k"]
    using ih tlv_subarray [of pre "der_tag k" ?c "region ks @ rest", folded b]
    by (auto simp add: content_start [of pre ?c "der_tag k"] simp del: list.map concat.simps)
qed

lemma derReadTLV_progress: "derReadTLV buf off = Inr t \<Longrightarrow> off + 2 \<le> t_contentStart t"
  by (auto simp: derReadTLV_def Let_def split: if_splits option.splits)

lemma der_extension_region:
  assumes "int (length (pre @ region ks @ rest)) < 2 ^ 31"
  shows "der_extension oid (pre @ region ks @ rest) (int (length pre)) (int (length pre) + int (length (region ks)))
    = Some (ext_of oid ks)"
proof (cases ks)
  case Nil
  have "der_siblings (pre @ rest) (t_contentStart t + int (length oid)) (int (length pre)) = Some None"
    if "derReadTLV (pre @ rest) (int (length pre)) = Inr t" for t
    using derReadTLV_progress [OF that] by (simp add: der_siblings.simps)
  then show ?thesis by (auto simp: Nil der_extension_def split: sum.splits)
next
  case (Cons k ks')
  let ?c = "der_content k" and ?b = "pre @ region (k # ks') @ rest"
  have b: "?b = pre @ tlv (der_tag k) ?c @ region ks' @ rest" by (simp add: der_enc_tlv [of k])
  have n: "int (length ?c) < 2 ^ 31" using assms by (simp add: Cons der_enc_tlv [of k] tlv_def)
  note rd = derReadTLV_tlv [OF n, of pre "der_tag k" "region ks' @ rest", folded b]
  have sib: "der_siblings ?b (int (length pre) + int (length (tlv (der_tag k) ?c)))
       (int (length pre) + int (length (region (k # ks'))))
     = Some (map_option der_content (find (\<lambda>k. der_tag k = 0x04) ks'))"
    using der_siblings_region [of "pre @ der_enc k" ks' rest] assms
    by (simp add: Cons der_enc_tlv [of k] add.assoc)
  show ?thesis
  proof (cases "der_tag k = 0x06 \<and> ?c = oid")
    case True
    then show ?thesis unfolding Cons der_extension_def rd
      using sib tlv_subarray [of pre "der_tag k" ?c "region ks' @ rest", folded b]
      by (simp add: content_start [of pre oid 6])
  next
    case False
    then show ?thesis unfolding Cons der_extension_def rd
      using tlv_subarray [of pre "der_tag k" ?c "region ks' @ rest", folded b]
      by auto
  qed
qed

lemma der_walk_step:
  assumes "depth \<le> 24" "off < e" "derReadTLV buf off = Inr \<lparr>t_tag = Some t, t_len = Some l, t_contentStart = c\<rparr>"
    and "(if t = 0x30 then der_extension oid buf c (c + l) else Some None) = Some ext"
    and "(if t AND 0x20 \<noteq> 0 then der_walk oid buf c (c + l) (depth + 1) else Some None) = Some r"
  shows "der_walk oid buf off e depth =
    (case ext of Some v \<Rightarrow> Some (Some v) | None \<Rightarrow>
      (case r of Some v \<Rightarrow> Some (Some v) | None \<Rightarrow> der_walk oid buf (c + l) e depth))"
  using assms by (subst der_walk.simps) (auto simp: constructed_def split: option.splits)

lemma foldr_max_levels: "foldr (\<lambda>k d. max (der_levels k) d) ks 0 \<le> m \<longleftrightarrow> (\<forall>k \<in> set ks. der_levels k \<le> m)"
  by (rule foldr_max_le)

definition walks :: "bytes \<Rightarrow> der list \<Rightarrow> bool" where
  "walks oid ks \<longleftrightarrow> (\<forall>pre rest depth. int (length (pre @ region ks @ rest)) < 2 ^ 31 \<longrightarrow>
     (\<forall>k \<in> set ks. der_ok k \<and> depth + der_levels k \<le> 25) \<longrightarrow>
     der_walk oid (pre @ region ks @ rest) (int (length pre)) (int (length pre) + int (length (region ks))) depth
     = Some (der_finds oid ks))"

lemmas walksD = walks_def [THEN iffD1, rule_format]

text \<open>What the walk does at one element: \<open>der_find\<close>, given that it handles the element's children.\<close>

lemma walks_Cons:
  assumes kids: "\<And>t cs. k = Constr t cs \<Longrightarrow> walks oid cs" and ks: "walks oid ks"
  shows "walks oid (k # ks)"
  unfolding walks_def
proof (intro allI impI)
  fix pre rest depth
  let ?b = "pre @ region (k # ks) @ rest" and ?c = "der_content k" and ?t = "der_tag k"
  let ?s = "int (length pre) + 1 + int (length (derLen (int (length ?c))))"
  let ?e = "int (length pre) + int (length (region (k # ks)))"
  assume n: "int (length ?b) < 2 ^ 31" and ok: "\<forall>j \<in> set (k # ks). der_ok j \<and> depth + der_levels j \<le> 25"
  have b: "?b = pre @ tlv ?t ?c @ region ks @ rest" by (simp add: der_enc_tlv [of k])
  have b': "?b = (pre @ ?t # derLen (int (length ?c))) @ ?c @ region ks @ rest"
    by (simp add: der_enc_tlv [of k] tlv_def)
  have nc: "int (length ?c) < 2 ^ 31" using n by (simp add: der_enc_tlv [of k] tlv_def)
  note rd = derReadTLV_tlv [OF nc, of pre ?t "region ks @ rest", folded b]
  have s: "?s = int (length (pre @ ?t # derLen (int (length ?c))))" by simp
  have lt: "int (length pre) < ?e" by (simp add: der_enc_tlv [of k] tlv_def)
  have lev: "0 < der_levels k" by (cases k) simp_all
  have ext: "(if ?t = 0x30 then der_extension oid ?b ?s (?s + int (length ?c)) else Some None)
      = Some (case k of Prim t c \<Rightarrow> None | Constr t cs \<Rightarrow> if t = 0x30 then ext_of oid cs else None)"
  proof (cases k)
    case (Prim t c)
    then have "?t \<noteq> 0x30" using ok by auto
    with Prim show ?thesis by simp
  next
    case (Constr t cs)
    then show ?thesis
      using der_extension_region [of "pre @ ?t # derLen (int (length ?c))" cs "region ks @ rest" oid] n
      unfolding b' s by auto
  qed
  have sub: "(if ?t AND 0x20 \<noteq> 0 then der_walk oid ?b ?s (?s + int (length ?c)) (depth + 1) else Some None)
      = Some (case k of Prim t c \<Rightarrow> None | Constr t cs \<Rightarrow> der_finds oid cs)"
  proof (cases k)
    case (Prim t c)
    then show ?thesis using ok by simp
  next
    case (Constr t cs)
    have "\<forall>j \<in> set cs. der_ok j \<and> (depth + 1) + der_levels j \<le> 25"
      using ok foldr_max_levels [of cs "24 - depth"] by (force simp: Constr list_all_iff)
    then show ?thesis
      using walksD [OF kids [OF Constr], of "pre @ ?t # derLen (int (length ?c))" "region ks @ rest" "depth + 1"] n ok
      unfolding b' s by (simp add: Constr)
  qed
  have tl: "der_walk oid ?b (?s + int (length ?c)) ?e depth = Some (der_finds oid ks)"
    unfolding content_start [of pre ?c ?t]
    using walksD [OF ks, of "pre @ der_enc k" rest depth] n ok by (simp add: der_enc_tlv [of k] add.assoc)
  have d: "depth \<le> 24" using ok lev by auto
  show "der_walk oid ?b (int (length pre)) ?e depth = Some (der_finds oid (k # ks))"
    unfolding der_walk_step [OF d lt rd ext sub] tl by (cases k) (auto split: option.splits)
qed

lemma walks_list: "(\<And>k t cs. k \<in> set ks \<Longrightarrow> k = Constr t cs \<Longrightarrow> walks oid cs) \<Longrightarrow> walks oid ks"
proof (induction ks)
  case Nil
  show ?case by (auto simp: walks_def der_walk.simps)
next
  case (Cons k ks)
  then show ?case by (intro walks_Cons) auto
qed

lemma walks_kids: "k = Constr t cs \<Longrightarrow> walks oid cs"
proof (induction k arbitrary: t cs)
  case (Constr t' cs')
  show ?case by (rule walks_list) (use Constr in auto)
qed simp

section \<open>Properties\<close>

lemma apple_oid: "encodeOid APPLE_NONCE_OID = Inr [0x2a, 0x86, 0x48, 0x86, 0xf7, 0x63, 0x64, 0x08, 0x02]"
proof -
  have x: "js_split CHR ''.'' APPLE_NONCE_OID = [''1'', ''2'', ''840'', ''113635'', ''100'', ''8'', ''2'']"
    by (simp add: APPLE_NONCE_OID_def)
  show ?thesis
    by (simp add: encodeOid_def x parseInt10_def js_ws_def is_digit_def read_dec_def Let_def oid_part_def
        toInt32_def oid_stack.simps)
qed

text \<open>
  C32. On every well-formed DER value of at most 25 levels and less than 2 GiB, \<open>findExtensionValue\<close>
  terminates and returns exactly what a depth-first search of the value returns: the extnValue of the
  first SEQUENCE that begins with the OID and has an OCTET STRING after it, or nothing.
\<close>

theorem findExtensionValue_is_search:
  assumes "encodeOid oidDotted = Inr oid" "der_ok t" "der_levels t \<le> 25" "int (length (der_enc t)) < 2 ^ 31"
  shows "findExtensionValue (der_enc t) oidDotted = Some (Inr (der_find oid t))"
proof -
  have "walks oid [t]" by (rule walks_list) (rule walks_kids)
  from walksD [OF this, of "[]" "[]" 0] assms show ?thesis
    by (simp add: findExtensionValue_def split: option.splits)
qed

definition ex_ext :: der where
  "ex_ext = Constr 0x30 [Prim 0x02 [7], Constr 0xa3 [Constr 0x30
     [Prim 0x06 [0x2a, 0x86, 0x48, 0x86, 0xf7, 0x63, 0x64, 0x08, 0x02], Prim 0x01 [0xff], Prim 0x04 [1, 2, 3]]]]"

theorem findExtensionValue_is_search_witness:
  "findExtensionValue (der_enc ex_ext) APPLE_NONCE_OID = Some (Inr (Some [1, 2, 3]))"
proof -
  have "der_ok ex_ext" "der_levels ex_ext \<le> 25"
    "der_find [0x2a, 0x86, 0x48, 0x86, 0xf7, 0x63, 0x64, 0x08, 0x02] ex_ext = Some [1, 2, 3]"
    by (simp_all add: ex_ext_def)
  moreover have "int (length (der_enc ex_ext)) < 2 ^ 31"
    by (simp add: ex_ext_def tlv_def derLen_def)
  ultimately show ?thesis using findExtensionValue_is_search [OF apple_oid] by simp
qed

text \<open>An input without a negative length, at every offset.\<close>

definition der_forward :: "bytes \<Rightarrow> bool" where
  "der_forward buf \<longleftrightarrow> list_all (\<lambda>off. case derReadTLV buf (int off) of
     Inl _ \<Rightarrow> True | Inr t \<Rightarrow> (case t_len t of None \<Rightarrow> True | Some l \<Rightarrow> 0 \<le> l)) [0..<length buf]"

lemma derReadTLV_lt: "derReadTLV buf off = Inr t \<Longrightarrow> off < int (length buf)"
  by (auto simp: derReadTLV_def split: if_splits)

lemma der_forwardD:
  assumes "der_forward buf" "derReadTLV buf off = Inr t" "t_len t = Some l" "0 \<le> off"
  shows "0 \<le> l"
proof -
  have "nat off \<in> set [0..<length buf]" using derReadTLV_lt [OF assms(2)] assms(4) by (simp add: nat_less_iff)
  with assms show ?thesis unfolding der_forward_def list_all_iff by fastforce
qed

lemma der_siblings_returns:
  "der_forward buf \<Longrightarrow> 0 \<le> sib \<Longrightarrow> \<exists>r. der_siblings buf sib e = Some r"
proof (induction "nat (e - sib)" arbitrary: sib rule: less_induct)
  case less
  show ?case
  proof (cases "sib < e")
    case True
    have "\<exists>r. der_siblings buf (t_contentStart s + l) e = Some r"
      if "derReadTLV buf sib = Inr s" "t_len s = Some l" for s l
      using der_forwardD [OF less.prems(1) that less.prems(2)] derReadTLV_progress [OF that(1)] less.prems True
      by (intro less.hyps) auto
    with True show ?thesis by (subst der_siblings.simps) (auto split: sum.splits option.splits)
  next
    case False
    then show ?thesis by (subst der_siblings.simps) simp
  qed
qed

lemma der_extension_returns: "der_forward buf \<Longrightarrow> 0 \<le> c \<Longrightarrow> \<exists>r. der_extension oid buf c e = Some r"
  unfolding der_extension_def
  by (auto split: sum.splits intro!: der_siblings_returns dest: derReadTLV_progress)

lemma der_walk_returns:
  "der_forward buf \<Longrightarrow> 0 \<le> off \<Longrightarrow> \<exists>r. der_walk oid buf off e depth = Some r"
proof (induction "(25 - depth, nat (e - off))" arbitrary: off e depth
    rule: wf_induct_rule [OF wf_lex_prod [OF wf_less_than wf_less_than]])
  case 1
  show ?case
  proof (cases "depth \<le> 24 \<and> off < e")
    case True
    have step: "\<exists>r. der_walk oid buf off e depth = Some r" if t: "derReadTLV buf off = Inr t" "t_len t = Some l" for t l
    proof -
      have c: "off < t_contentStart t" "0 \<le> l"
        using der_forwardD [OF 1(2) t 1(3)] derReadTLV_progress [OF t(1)] by auto
      have "\<exists>x. der_extension oid buf (t_contentStart t) (t_contentStart t + l) = Some x"
        using der_extension_returns [OF 1(2)] c 1(3) by simp
      moreover have "\<exists>r. der_walk oid buf (t_contentStart t) (t_contentStart t + l) (depth + 1) = Some r"
        using True c 1(2,3) by (intro 1(1)) auto
      moreover have "\<exists>r. der_walk oid buf (t_contentStart t + l) e depth = Some r"
        using True c 1(2,3) by (intro 1(1)) auto
      ultimately show ?thesis using True t
        by (subst der_walk.simps) (auto split: option.splits)
    qed
    show ?thesis
    proof (cases "\<exists>t l. derReadTLV buf off = Inr t \<and> t_len t = Some l")
      case False
      then show ?thesis using True by (subst der_walk.simps) (auto split: sum.splits option.splits)
    qed (use step in blast)
  next
    case False
    then show ?thesis by (subst der_walk.simps) auto
  qed
qed

text \<open>
  C33. The walk returns on every input, well-formed or not, in which no length reads as a negative
  number: only a four-byte length of \<open>2^31\<close> or more can keep it from returning.
\<close>

theorem findExtensionValue_returns:
  assumes "der_forward certDer"
  shows "\<exists>r. findExtensionValue certDer oidDotted = Some r"
  using der_walk_returns [OF assms, of 0 _ "int (length certDer)" 0]
  by (auto simp: findExtensionValue_def split: sum.splits)

theorem findExtensionValue_returns_witness:
  "\<exists>r. findExtensionValue [0x30, 0x84, 0x00, 0x00, 0x00, 0x05, 0x30] APPLE_NONCE_OID = Some r"
  by (rule findExtensionValue_returns) code_simp

lemma der_walk_hangs:
  assumes rd: "derReadTLV b0 0 = Inr \<lparr>t_tag = Some 4, t_len = Some (-6), t_contentStart = 6\<rparr>"
  shows "der_walk oid b off e d = Some r \<Longrightarrow> off \<noteq> 0 \<or> e \<noteq> 6 \<or> b \<noteq> b0 \<or> d \<noteq> 0"
proof (erule der_walk.raw_induct [where P = "\<lambda>oid b off e d r. off \<noteq> 0 \<or> e \<noteq> 6 \<or> b \<noteq> b0 \<or> d \<noteq> 0", rotated], goal_cases)
  case (1 walk oid b off e d r)
  then show ?case by (auto simp: rd constructed_def split: if_splits)
qed

text \<open>
  C34. The walk hangs on the six bytes \<^verbatim>\<open>04 84 ff ff ff fa\<close>: the length reads as -6, the element ends
  where it began, and the loop never advances.
\<close>

theorem findExtensionValue_hangs:
  "findExtensionValue [0x04, 0x84, 0xff, 0xff, 0xff, 0xfa] APPLE_NONCE_OID = None"
proof -
  let ?b = "[0x04, 0x84, 0xff, 0xff, 0xff, 0xfa] :: bytes"
  have "derReadTLV ?b 0 = Inr \<lparr>t_tag = Some 4, t_len = Some (-6), t_contentStart = 6\<rparr>" by code_simp
  then have "der_walk oid ?b 0 6 0 = None" for oid
    using der_walk_hangs [of ?b oid ?b 0 6 0] by (cases "der_walk oid ?b 0 6 0") auto
  then show ?thesis by (simp add: findExtensionValue_def apple_oid)
qed

lemma derLen_length: "0 \<le> n \<Longrightarrow> n < 2 ^ 31 \<Longrightarrow> length (derLen n) \<le> 5"
  using der_len_bytes_length [of n 4 "[]"] by (auto simp: derLen_def Let_def)

lemma tlv_length:
  assumes "int (length c) < 2 ^ 31"
  shows "length (tlv t c) \<le> length c + 6"
  using derLen_length [of "int (length c)"] assms by (simp add: tlv_def)

lemma tlv_first: "int (length c) < 2 ^ 31 \<Longrightarrow> derReadTLV (tlv t c) 0 =
    Inr \<lparr>t_tag = Some t, t_len = Some (int (length c)), t_contentStart = 1 + int (length (derLen (int (length c))))\<rparr>"
  using derReadTLV_tlv [of c "[]" t "[]"] by simp

lemma tlv_nested:
  assumes "int (length c) < 2 ^ 31"
  shows "derReadTLV (pre @ tlv t c) (int (length pre)) =
    Inr \<lparr>t_tag = Some t, t_len = Some (int (length c)),
         t_contentStart = int (length (pre @ t # derLen (int (length c))))\<rparr>"
  using derReadTLV_tlv [OF assms, of pre t "[]"] by simp

text \<open>
  C29. The nonce survives its DER wrapping: from the extension value that the fixtures build,
  \<open>parseAppleNonce\<close> returns the nonce if it has 32 bytes and an error otherwise; and whatever it returns,
  on any input, has 32 bytes.
\<close>

theorem parseAppleNonce_roundtrip:
  assumes n: "int (length nonce) < 2 ^ 30"
  shows "parseAppleNonce (nonce_extnValue nonce) =
      (if length nonce = 32 then Inr nonce else Inl ''nonce: not 32 bytes'')
    \<and> (\<forall>der n. parseAppleNonce der = Inr n \<longrightarrow> length n = 32)"
proof (intro conjI allI impI)
  define oct where "oct = tlv 0x04 nonce"
  define ctx where "ctx = tlv 0xa1 oct"
  have l: "int (length nonce) < 2 ^ 31" "int (length oct) < 2 ^ 31" "int (length ctx) < 2 ^ 31"
    using n tlv_length [of nonce "0x04"] tlv_length [of oct "0xa1"] by (auto simp: oct_def ctx_def)
  define p1 where "p1 = 0x30 # derLen (int (length ctx))"
  define p2 where "p2 = p1 @ 0xa1 # derLen (int (length oct))"
  have b: "nonce_extnValue nonce = tlv 0x30 ctx" "tlv 0x30 ctx = p1 @ tlv 0xa1 oct" "tlv 0x30 ctx = p2 @ tlv 0x04 nonce"
    by (simp_all add: nonce_extnValue_def derSeq_def derContext_def derOctetString_def context_tag_def oct_def ctx_def
        p1_def p2_def tlv_def)
  have r1: "derReadTLV (tlv 0x30 ctx) 0 = Inr \<lparr>t_tag = Some 0x30, t_len = Some (int (length ctx)), t_contentStart = int (length p1)\<rparr>"
    using tlv_first [OF l(3)] by (simp add: p1_def)
  have r2: "derReadTLV (tlv 0x30 ctx) (int (length p1)) =
      Inr \<lparr>t_tag = Some 0xa1, t_len = Some (int (length oct)), t_contentStart = int (length p2)\<rparr>"
    unfolding b(2) p2_def by (rule tlv_nested [OF l(2)])
  have r3: "derReadTLV (tlv 0x30 ctx) (int (length p2)) =
      Inr \<lparr>t_tag = Some 0x04, t_len = Some (int (length nonce)),
           t_contentStart = int (length p2) + 1 + int (length (derLen (int (length nonce))))\<rparr>"
    unfolding b(3) using derReadTLV_tlv [OF l(1), of p2 "0x04" "[]"] by simp
  show "parseAppleNonce (nonce_extnValue nonce) =
      (if length nonce = 32 then Inr nonce else Inl ''nonce: not 32 bytes'')"
    unfolding parseAppleNonce_def b(1)
    using r1 r2 r3 tlv_subarray [of p2 "0x04" nonce "[]", folded b(3)] by (auto simp: b(3) [symmetric])
next
  fix der n
  assume p: "parseAppleNonce der = Inr n"
  then obtain sq cx t where r: "derReadTLV der 0 = Inr sq" "derReadTLV der (t_contentStart sq) = Inr cx"
    and t: "derReadTLV der (t_contentStart cx) = Inr t" "t_len t = Some 32"
      "n = subarray der (t_contentStart t) (t_contentStart t + 32)"
    by (auto simp: parseAppleNonce_def bind_res_Inr_iff split: if_splits)
  have c: "0 \<le> t_contentStart t"
    using derReadTLV_progress [OF r(1)] derReadTLV_progress [OF r(2)] derReadTLV_progress [OF t(1)] by linarith
  have "t_contentStart t + 32 \<le> int (length der)"
    using t(1,2) by (auto simp: derReadTLV_def Let_def split: if_splits option.splits)
  with t(3) c show "length n = 32" by (simp add: subarray_def clamp_index_def nat_add_distrib)
qed

theorem parseAppleNonce_roundtrip_witness:
  "parseAppleNonce (nonce_extnValue (replicate 32 0x5a)) = Inr (replicate 32 0x5a)
   \<and> parseAppleNonce (nonce_extnValue (replicate 31 0)) = Inl ''nonce: not 32 bytes''"
  using parseAppleNonce_roundtrip [of "replicate 32 0x5a"] parseAppleNonce_roundtrip [of "replicate 31 0"] by simp

end
