(* ===== verification/AppAttest.thy ===== *)
theory AppAttest
  imports Der StateStore
begin

text \<open>
  App Attest validation (\<^verbatim>\<open>token-issuer/appattest.js\<close>): authenticator data, COSE keys, the five checks and
  \<open>validateAppAttest\<close>. A check that throws is \<open>Inl\<close> of the message. Node's certificates and keys are
  unknown types \<open>'c\<close> and \<open>'k\<close> with the operations of \<open>attest_env\<close>, which also holds the operator's
  configuration. Shown: what an accepted attestation and an accepted assertion guarantee, that an
  unconfigured validator accepts nothing, and how a failure is categorised.
\<close>

text \<open>
  \<open>ae_bufFrom\<close> is \<open>Buffer.from(v, 'base64')\<close> on an arbitrary value, \<open>ae_b64dec\<close> the same on a string;
  \<open>ae_certJwk\<close> is \<open>cert.publicKey.export({format: 'jwk'})\<close> with decoded coordinates, \<open>ae_certVerify c d\<close>
  is \<open>c.verify(d.publicKey)\<close>, \<open>ae_validFrom\<close> and \<open>ae_validTo\<close> are times in milliseconds (\<open>None\<close> is NaN).
\<close>

record ('c, 'k) attest_env =
  ae_rootPemB64 :: string
  ae_teamId :: string
  ae_bundleId :: string
  ae_aaguidLabel :: string
  ae_skew :: int
  ae_sha256 :: "bytes \<Rightarrow> bytes"
  ae_b64dec :: "string \<Rightarrow> bytes"
  ae_bufFrom :: "jv \<Rightarrow> string + bytes"
  ae_b64enc :: "bytes \<Rightarrow> string"
  ae_x509pem :: "nat list \<Rightarrow> string + 'c"
  ae_x509 :: "bytes \<Rightarrow> string + 'c"
  ae_validFrom :: "'c \<Rightarrow> int option"
  ae_validTo :: "'c \<Rightarrow> int option"
  ae_checkIssued :: "'c \<Rightarrow> 'c \<Rightarrow> bool"
  ae_certVerify :: "'c \<Rightarrow> 'c \<Rightarrow> bool"
  ae_raw :: "'c \<Rightarrow> bytes"
  ae_certJwk :: "'c \<Rightarrow> string + (string \<times> string \<times> bytes \<times> bytes)"
  ae_ecKey :: "bytes \<Rightarrow> bytes \<Rightarrow> string + 'k"
  ae_keyPem :: "'k \<Rightarrow> string"
  ae_pemKey :: "string \<Rightarrow> string + 'k"
  ae_ecVerify :: "bytes \<Rightarrow> 'k \<Rightarrow> bytes \<Rightarrow> string + bool"

section \<open>Configuration and helpers\<close>

definition APP_ATTEST_READY :: "('c, 'k) attest_env \<Rightarrow> bool" where
  "APP_ATTEST_READY E \<longleftrightarrow> ae_rootPemB64 E \<noteq> [] \<and> ae_teamId E \<noteq> [] \<and> ae_bundleId E \<noteq> []"

definition appId :: "('c, 'k) attest_env \<Rightarrow> string" where
  "appId E = ae_teamId E @ ''.'' @ ae_bundleId E"

definition appIdHash :: "('c, 'k) attest_env \<Rightarrow> bytes" where
  "appIdHash E = ae_sha256 E (utf8_bytes (appId E))"

text \<open>\<open>Buffer.from(label, 'ascii')\<close> keeps the low byte of each code unit; \<open>copy\<close> stops after 16.\<close>

definition ascii_bytes :: "string \<Rightarrow> bytes" where
  "ascii_bytes s = map (\<lambda>c. of_nat (of_char c)) s"

definition aaguidBuf :: "string \<Rightarrow> bytes" where
  "aaguidBuf label = take 16 (ascii_bytes label @ replicate 16 0)"

definition expectedAaguid :: "('c, 'k) attest_env \<Rightarrow> bytes" where
  "expectedAaguid E = aaguidBuf (ae_aaguidLabel E)"

text \<open>\<open>crypto.timingSafeEqual\<close> throws on buffers of different lengths.\<close>

definition timingSafeEqual :: "bytes \<Rightarrow> bytes \<Rightarrow> string + bool" where
  "timingSafeEqual a b =
     (if length a \<noteq> length b then Inl ''Input buffers must have the same byte length'' else Inr (a = b))"

definition throw_unless :: "bool \<Rightarrow> string \<Rightarrow> string + unit" where
  "throw_unless P msg = (if P then Inr () else Inl msg)"

lemma throw_unless_Inr [simp]: "throw_unless P msg = Inr u \<longleftrightarrow> P"
  by (simp add: throw_unless_def)

lemma timingSafeEqual_True [simp]: "timingSafeEqual a b = Inr True \<longleftrightarrow> a = b"
  by (auto simp: timingSafeEqual_def)

section \<open>Authenticator data\<close>

record 'k ec_public_key =
  keyObject :: 'k
  rawPoint :: bytes

definition uncompressed :: "bytes \<Rightarrow> bytes \<Rightarrow> bytes" where
  "uncompressed x y = 0x04 # x @ y"

definition cose_bytes :: "cbor option \<Rightarrow> bytes option" where
  "cose_bytes v = (case v of Some (CBytes b) \<Rightarrow> Some b | _ \<Rightarrow> None)"

definition coseKeyToEcPublicKey :: "('c, 'k) attest_env \<Rightarrow> cbor \<Rightarrow> string + 'k ec_public_key" where
  "coseKeyToEcPublicKey E coseKey =
     (case coseKey of
        CMap m \<Rightarrow>
          (let kty = cmap_get m (CNum 1); alg = cmap_get m (CNum 3); crv = cmap_get m (CNum (-1));
               x = cose_bytes (cmap_get m (CNum (-2))); y = cose_bytes (cmap_get m (CNum (-3))) in
           if kty \<noteq> Some (CNum 2) then Inl ''cose: kty must be EC2''
           else if alg \<noteq> Some (CNum (-7)) then Inl ''cose: alg must be ES256''
           else if crv \<noteq> Some (CNum 1) then Inl ''cose: crv must be P-256''
           else case x of
             None \<Rightarrow> Inl ''cose: bad x''
           | Some xb \<Rightarrow>
               if length xb \<noteq> 32 then Inl ''cose: bad x''
               else (case y of
                 None \<Rightarrow> Inl ''cose: bad y''
               | Some yb \<Rightarrow>
                   if length yb \<noteq> 32 then Inl ''cose: bad y''
                   else map_sum id (\<lambda>k. \<lparr>keyObject = k, rawPoint = uncompressed xb yb\<rparr>) (ae_ecKey E xb yb)))
      | _ \<Rightarrow> Inl ''cose: not a map'')"

text \<open>\<open>ad_cred\<close> holds \<open>aaguid\<close>, \<open>credentialId\<close> and \<open>credentialPublicKey\<close> where they are set.\<close>

record 'k auth_data =
  ad_rpIdHash :: bytes
  ad_flags :: byte
  ad_signCount :: nat
  ad_cred :: "(bytes \<times> bytes \<times> 'k ec_public_key) option"

definition parseAuthenticatorData :: "('c, 'k) attest_env \<Rightarrow> bytes \<Rightarrow> bool \<Rightarrow> string + 'k auth_data" where
  "parseAuthenticatorData E authData attestedCredentialData =
     (if length authData < 37 then Inl ''authData: too short''
      else
        let flags = authData ! 32;
            out = \<lparr>ad_rpIdHash = take 32 authData, ad_flags = flags, ad_signCount = readUIntBE 4 authData 33,
                   ad_cred = None\<rparr> in
        if attestedCredentialData \<and> flags AND 0x40 \<noteq> 0 then
          (if 37 + 18 > length authData then Inl ''authData: attestedCredentialData truncated''
           else
             let aaguid = take 16 (drop 37 authData); credIdLen = readUIntBE 2 authData 53 in
             if 55 + credIdLen > length authData then Inl ''authData: credentialId truncated''
             else
               let credentialId = take credIdLen (drop 55 authData) in
               bind_res (cborDecodeFirst (drop (55 + credIdLen) authData)) (\<lambda>(coseKey, _).
               map_sum id (\<lambda>pk. out\<lparr>ad_cred := Some (aaguid, credentialId, pk)\<rparr>) (coseKeyToEcPublicKey E coseKey)))
        else Inr out)"

section \<open>The checks\<close>

fun map_res :: "('a \<Rightarrow> 'e + 'b) \<Rightarrow> 'a list \<Rightarrow> 'e + 'b list" where
  "map_res f [] = Inr []"
| "map_res f (x # xs) = bind_res (f x) (\<lambda>y. map_sum id (\<lambda>ys. y # ys) (map_res f xs))"

lemma map_res_Inr: "map_res f xs = Inr ys \<longleftrightarrow> list_all2 (\<lambda>x y. f x = Inr y) xs ys"
proof (induction xs arbitrary: ys)
  case Nil
  then show ?case by (cases ys) auto
next
  case (Cons x xs)
  then show ?case by (cases ys) (auto simp: bind_res_Inr_iff)
qed

definition x5c_cert :: "('c, 'k) attest_env \<Rightarrow> cbor \<Rightarrow> string + 'c" where
  "x5c_cert E der = (case der of CBytes b \<Rightarrow> ae_x509 E b | _ \<Rightarrow> Inl ''chain: x5c entry not bytes'')"

definition cert_window :: "('c, 'k) attest_env \<Rightarrow> int \<Rightarrow> 'c \<Rightarrow> string + unit" where
  "cert_window E now c =
     (case (ae_validFrom E c, ae_validTo E c) of
        (Some nb, Some na) \<Rightarrow>
          if now < nb - ae_skew E then Inl ''chain: cert not yet valid''
          else if now > na + ae_skew E then Inl ''chain: cert expired''
          else Inr ()
      | _ \<Rightarrow> Inl ''chain: bad validity dates'')"

fun chain_links :: "('c, 'k) attest_env \<Rightarrow> nat \<Rightarrow> 'c list \<Rightarrow> string + unit" where
  "chain_links E i (child # issuer # rest) =
     (if \<not> ae_checkIssued E child issuer then Inl (''chain: cert '' @ js_nat_string i @ '' not issued by next'')
      else if \<not> ae_certVerify E child issuer then Inl (''chain: cert '' @ js_nat_string i @ '' signature invalid'')
      else chain_links E (i + 1) (issuer # rest))"
| "chain_links E i _ = Inr ()"

definition verifyCertChain :: "('c, 'k) attest_env \<Rightarrow> int \<Rightarrow> cbor \<Rightarrow> string + 'c" where
  "verifyCertChain E now x5c =
     (if ae_rootPemB64 E = [] then Inl ''chain: no root CA configured''
      else case x5c of
        CArray ders \<Rightarrow>
          if length ders < 1 then Inl ''chain: empty x5c''
          else
            bind_res (ae_x509pem E (utf8_decode (ae_b64dec E (ae_rootPemB64 E)))) (\<lambda>root.
            bind_res (map_res (x5c_cert E) ders) (\<lambda>certs.
            bind_res (map_res (cert_window E now) (certs @ [root])) (\<lambda>_.
            bind_res (chain_links E 0 (certs @ [root])) (\<lambda>_.
            if \<not> ae_certVerify E root root then Inl ''chain: root not self-signed''
            else Inr (hd certs)))))
      | _ \<Rightarrow> Inl ''chain: empty x5c'')"

text \<open>\<open>None\<close> where the DER walk does not return.\<close>

definition verifyNonce :: "('c, 'k) attest_env \<Rightarrow> bytes \<Rightarrow> bytes \<Rightarrow> 'c \<Rightarrow> (string + unit) option" where
  "verifyNonce E authData clientDataHash credCert =
     (case findExtensionValue (ae_raw E credCert) APPLE_NONCE_OID of
        None \<Rightarrow> None
      | Some r \<Rightarrow> Some
          (bind_res r (\<lambda>extnValue.
           case extnValue of
             None \<Rightarrow> Inl ''nonce: extension missing''
           | Some v \<Rightarrow>
               bind_res (parseAppleNonce v) (\<lambda>actual.
               bind_res (timingSafeEqual (ae_sha256 E (authData @ clientDataHash)) actual) (\<lambda>eq.
               throw_unless eq ''nonce: mismatch'')))))"

definition decodeKeyId :: "('c, 'k) attest_env \<Rightarrow> jv \<Rightarrow> string + bytes" where
  "decodeKeyId E keyId =
     (case jstr keyId of
        None \<Rightarrow> Inl ''keyId: missing''
      | Some s \<Rightarrow> if s = [] then Inl ''keyId: missing'' else Inr (ae_b64dec E s))"

definition verifyKeyId :: "('c, 'k) attest_env \<Rightarrow> 'c \<Rightarrow> jv \<Rightarrow> (bytes \<times> bytes \<times> 'k ec_public_key) option \<Rightarrow> string + bytes" where
  "verifyKeyId E credCert presentedKeyId cred =
     bind_res (ae_certJwk E credCert) (\<lambda>(kty, crv, x, y).
     if kty \<noteq> ''EC'' \<or> crv \<noteq> ''P-256'' then Inl ''keyId: leaf key not P-256''
     else let certPoint = uncompressed x y in
       (case cred of
          None \<Rightarrow> Inl ''The otherBuffer argument must be an instance of Buffer or Uint8Array. Received undefined''
        | Some (_, credentialId, pk) \<Rightarrow>
            if certPoint \<noteq> rawPoint pk then Inl ''keyId: cert key != authData credential key''
            else let computed = ae_sha256 E certPoint in
              bind_res (decodeKeyId E presentedKeyId) (\<lambda>presented.
              bind_res (if length presented \<noteq> 32 then Inr False else timingSafeEqual computed presented) (\<lambda>eq.
              if \<not> eq then Inl ''keyId: presented keyId != SHA256(pubkey)''
              else bind_res (if length credentialId \<noteq> 32 then Inr False else timingSafeEqual computed credentialId) (\<lambda>eq.
                if \<not> eq then Inl ''keyId: credentialId != SHA256(pubkey)'' else Inr computed)))))"

definition verifyAttestationAuthData :: "('c, 'k) attest_env \<Rightarrow> 'k auth_data \<Rightarrow> string + unit" where
  "verifyAttestationAuthData E parsed =
     bind_res (timingSafeEqual (ad_rpIdHash parsed) (appIdHash E)) (\<lambda>eq.
     if \<not> eq then Inl ''authData: rpIdHash != SHA256(appID)''
     else if ad_flags parsed AND 0x40 = 0 then Inl ''authData: AT flag not set''
     else if map_option fst (ad_cred parsed) \<noteq> Some (expectedAaguid E) then Inl ''authData: aaguid mismatch''
     else if ad_signCount parsed \<noteq> 0 then Inl ''authData: first attestation signCount must be 0''
     else Inr ())"

definition ctext :: "string \<Rightarrow> cbor" where
  "ctext s = CText (code_points s)"

definition verifyAssertion :: "('c, 'k) attest_env \<Rightarrow> bytes \<Rightarrow> bytes \<Rightarrow> 'k \<Rightarrow> int \<Rightarrow> string + nat" where
  "verifyAssertion E assertionBuf clientDataHash storedKey storedCounter =
     bind_res (cborDecodeFirst assertionBuf) (\<lambda>(assertion, _).
     case assertion of
       CMap m \<Rightarrow>
         (case (cose_bytes (cmap_get m (ctext ''signature'')), cose_bytes (cmap_get m (ctext ''authenticatorData''))) of
            (Some signature, Some authData) \<Rightarrow>
              bind_res (ae_ecVerify E (ae_sha256 E (authData @ clientDataHash)) storedKey signature) (\<lambda>ok.
              if \<not> ok then Inl ''assertion: bad signature''
              else bind_res (parseAuthenticatorData E authData False) (\<lambda>parsed.
                bind_res (timingSafeEqual (ad_rpIdHash parsed) (appIdHash E)) (\<lambda>eq.
                if \<not> eq then Inl ''assertion: rpIdHash != SHA256(appID)''
                else if \<not> int (ad_signCount parsed) > storedCounter
                  then Inl ''assertion: signCount not strictly increasing''
                else Inr (ad_signCount parsed))))
          | _ \<Rightarrow> Inl ''assertion: missing signature/authenticatorData'')
     | _ \<Rightarrow> Inl ''assertion: not a CBOR map'')"

definition decodeAttestation :: "bytes \<Rightarrow> string + cbor \<times> bytes" where
  "decodeAttestation attestationBuf =
     bind_res (cborDecodeFirst attestationBuf) (\<lambda>(value, _).
     case value of
       CMap m \<Rightarrow>
         if cmap_get m (ctext ''fmt'') \<noteq> Some (ctext ''apple-appattest'')
           then Inl ''attestation: fmt must be apple-appattest''
         else (case cmap_get m (ctext ''attStmt'') of
           Some (CMap st) \<Rightarrow>
             (case cmap_get st (ctext ''x5c'') of
                Some (CArray ders) \<Rightarrow>
                  if length ders < 1 then Inl ''attestation: x5c missing''
                  else (case cose_bytes (cmap_get m (ctext ''authData'')) of
                    None \<Rightarrow> Inl ''attestation: authData missing''
                  | Some authData \<Rightarrow> Inr (CArray ders, authData))
              | _ \<Rightarrow> Inl ''attestation: x5c missing'')
         | _ \<Rightarrow> Inl ''attestation: attStmt missing'')
     | _ \<Rightarrow> Inl ''attestation: not a CBOR map'')"

section \<open>validateAppAttest\<close>

datatype attest_result =
    AttestOk (ar_mode: string) (ar_keyId: string) (ar_pem: string) (ar_signCount: nat)
  | AttestFail (ar_reason: string) (ar_detail: "string option")

text \<open>The attestation branch of the \<open>try\<close> block; \<open>None\<close> where it does not return.\<close>

definition attest_register :: "('c, 'k) attest_env \<Rightarrow> int \<Rightarrow> jv \<Rightarrow> jv \<Rightarrow> bytes \<Rightarrow> (string + attest_result) option" where
  "attest_register E now keyId attestation cdh =
     (case bind_res (ae_bufFrom E attestation) (\<lambda>buf.
           bind_res (decodeAttestation buf) (\<lambda>(x5c, authData).
           map_sum id (\<lambda>cert. (cert, authData)) (verifyCertChain E now x5c))) of
        Inl e \<Rightarrow> Some (Inl e)
      | Inr (credCert, authData) \<Rightarrow>
          (case verifyNonce E authData cdh credCert of
             None \<Rightarrow> None
           | Some r \<Rightarrow> Some
               (bind_res r (\<lambda>_.
                bind_res (parseAuthenticatorData E authData True) (\<lambda>parsed.
                bind_res (verifyKeyId E credCert keyId (ad_cred parsed)) (\<lambda>canonicalKeyId.
                bind_res (verifyAttestationAuthData E parsed) (\<lambda>_.
                case ad_cred parsed of
                  None \<Rightarrow> Inl ''Cannot read properties of undefined''
                | Some (_, _, pk) \<Rightarrow>
                    Inr (AttestOk ''attestation'' (ae_b64enc E canonicalKeyId) (ae_keyPem E (keyObject pk))
                           (ad_signCount parsed)))))))))"

text \<open>The assertion branch after the store has answered with \<open>record\<close>.\<close>

definition attest_assert :: "('c, 'k) attest_env \<Rightarrow> string \<Rightarrow> (string \<times> int) option \<Rightarrow> jv \<Rightarrow> bytes \<Rightarrow> string + attest_result" where
  "attest_assert E storeKeyId record assertion cdh =
     (case record of
        None \<Rightarrow> Inr (AttestFail ''unknown_device_key'' None)
      | Some (pem, stored) \<Rightarrow>
          if pem = [] then Inr (AttestFail ''unknown_device_key'' None)
          else
            bind_res (ae_pemKey E pem) (\<lambda>pub.
            bind_res (ae_bufFrom E assertion) (\<lambda>buf.
            map_sum id (\<lambda>newCount. AttestOk ''assertion'' storeKeyId pem newCount)
              (verifyAssertion E buf cdh pub stored))))"

text \<open>The \<open>catch\<close> of \<open>validateAppAttest\<close> for an error message.\<close>

fun attest_caught :: "string + attest_result \<Rightarrow> attest_result" where
  "attest_caught (Inr r) = r"
| "attest_caught (Inl msg) = AttestFail ''verification_failed'' (Some msg)"

definition validateAppAttest :: "('c, 'k) attest_env \<Rightarrow> int
    \<Rightarrow> ('s \<Rightarrow> string \<Rightarrow> (state_error + (string \<times> int) option) \<times> 's) option
    \<Rightarrow> jv \<Rightarrow> jv \<Rightarrow> jv \<Rightarrow> jv \<Rightarrow> 's \<Rightarrow> attest_result option \<times> 's" where
  "validateAppAttest E now keyStore keyId attestation assertion clientDataHash s =
     (if \<not> APP_ATTEST_READY E then (Some (AttestFail ''app_attest_not_configured'' None), s)
      else case jstr clientDataHash of
        None \<Rightarrow> (Some (AttestFail ''missing_client_data_hash'' None), s)
      | Some h \<Rightarrow>
          if h = [] then (Some (AttestFail ''missing_client_data_hash'' None), s)
          else
            let cdh = ae_b64dec E h in
            if length cdh \<noteq> 32 then (Some (AttestFail ''client_data_hash_not_32_bytes'' None), s)
            else if truthy attestation then (map_option attest_caught (attest_register E now keyId attestation cdh), s)
            else if truthy assertion then
              (case keyStore of
                 None \<Rightarrow> (Some (AttestFail ''no_attested_key_store'' None), s)
               | Some getKey \<Rightarrow>
                   (case decodeKeyId E keyId of
                      Inl msg \<Rightarrow> (Some (AttestFail ''verification_failed'' (Some msg)), s)
                    | Inr raw \<Rightarrow>
                        let storeKeyId = ae_b64enc E raw in
                        (case getKey s storeKeyId of
                           (Inl StateUnavailable, s') \<Rightarrow> (Some (AttestFail ''state_unavailable'' None), s')
                         | (Inl TypeError, s') \<Rightarrow> (Some (AttestFail ''verification_failed'' (Some ''TypeError'')), s')
                         | (Inr record, s') \<Rightarrow>
                             (Some (attest_caught (attest_assert E storeKeyId record assertion cdh)), s'))))
            else (Some (AttestFail ''no_attestation_or_assertion'' None), s))"

section \<open>Failure categories\<close>

definition failure_reasons :: "(string \<times> string) list" where
  "failure_reasons =
     [(''app_attest_not_configured'', ''configuration''),
      (''missing_client_data_hash'', ''client_data''),
      (''client_data_hash_not_32_bytes'', ''client_data''),
      (''bad_client_data_hash'', ''client_data''),
      (''no_attestation_or_assertion'', ''proof_format''),
      (''no_attested_key_store'', ''configuration''),
      (''unknown_device_key'', ''unknown_device_key''),
      (''state_unavailable'', ''state_unavailable''),
      (''key_mismatch'', ''key_binding''),
      (''replayed_assertion'', ''counter''),
      (''expired_epoch'', ''expired_epoch''),
      (''quota_exceeded'', ''quota'')]"

definition startsWith :: "string \<Rightarrow> string \<Rightarrow> bool" where
  "startsWith s p \<longleftrightarrow> take (length p) s = p"

definition attestationFailureCategory :: "string \<Rightarrow> string option \<Rightarrow> string" where
  "attestationFailureCategory reason detail_opt =
     (case map_of failure_reasons reason of
        Some c \<Rightarrow> c
      | None \<Rightarrow>
          let detail = (case detail_opt of None \<Rightarrow> [] | Some d \<Rightarrow> d) in
          if detail = ''authData: aaguid mismatch'' then ''environment''
          else if detail \<in> {''authData: rpIdHash != SHA256(appID)'', ''assertion: rpIdHash != SHA256(appID)''}
            then ''app_identity''
          else if detail \<in> {''authData: first attestation signCount must be 0'', ''assertion: signCount not strictly increasing''}
            then ''counter''
          else if detail = ''assertion: bad signature'' then ''assertion_signature''
          else if startsWith detail ''chain:'' then ''certificate_chain''
          else if startsWith detail ''nonce:'' then ''nonce_binding''
          else if startsWith detail ''keyId:'' then ''key_binding''
          else if list_ex (startsWith detail) [''cbor:'', ''der:'', ''cose:'', ''authData:'', ''attestation:'', ''assertion:'']
            then ''proof_format''
          else ''verification'')"

section \<open>What the checks establish\<close>

text \<open>A chain is anchored when every certificate is inside its window and issued and signed by the next.\<close>

definition in_window :: "('c, 'k) attest_env \<Rightarrow> int \<Rightarrow> 'c \<Rightarrow> bool" where
  "in_window E now c \<longleftrightarrow> (\<exists>nb na. ae_validFrom E c = Some nb \<and> ae_validTo E c = Some na
     \<and> nb - ae_skew E \<le> now \<and> now \<le> na + ae_skew E)"

definition anchored :: "('c, 'k) attest_env \<Rightarrow> int \<Rightarrow> 'c list \<Rightarrow> 'c \<Rightarrow> bool" where
  "anchored E now certs root \<longleftrightarrow>
     certs \<noteq> [] \<and> list_all (in_window E now) (certs @ [root])
     \<and> successively (\<lambda>c d. ae_checkIssued E c d \<and> ae_certVerify E c d) (certs @ [root])
     \<and> ae_certVerify E root root"

lemma cert_window_iff: "cert_window E now c = Inr u \<longleftrightarrow> in_window E now c"
  by (auto simp: cert_window_def in_window_def not_less split: option.splits)

lemma chain_links_iff:
  "chain_links E i cs = Inr u \<longleftrightarrow> successively (\<lambda>c d. ae_checkIssued E c d \<and> ae_certVerify E c d) cs"
  by (induction E i cs rule: chain_links.induct) auto

lemma windows_iff: "(\<exists>us. map_res (cert_window E now) cs = Inr us) \<longleftrightarrow> list_all (in_window E now) cs"
proof (induction cs)
  case (Cons c cs)
  then show ?case by (auto simp: bind_res_Inr_iff cert_window_iff)
qed simp

lemma verifyCertChain_iff:
  "verifyCertChain E now x5c = Inr leaf \<longleftrightarrow>
     ae_rootPemB64 E \<noteq> [] \<and>
     (\<exists>ders certs root. x5c = CArray ders \<and> list_all2 (\<lambda>d c. x5c_cert E d = Inr c) ders certs \<and> leaf = hd certs
        \<and> ae_x509pem E (utf8_decode (ae_b64dec E (ae_rootPemB64 E))) = Inr root \<and> anchored E now certs root)"
  (is "?L \<longleftrightarrow> ?R")
proof
  assume ?L
  then obtain ders root certs where "ae_rootPemB64 E \<noteq> []" "x5c = CArray ders" "ders \<noteq> []"
    "ae_x509pem E (utf8_decode (ae_b64dec E (ae_rootPemB64 E))) = Inr root"
    "map_res (x5c_cert E) ders = Inr certs" "\<exists>us. map_res (cert_window E now) (certs @ [root]) = Inr us"
    "chain_links E 0 (certs @ [root]) = Inr ()" "ae_certVerify E root root" "leaf = hd certs"
    by (auto simp: verifyCertChain_def bind_res_Inr_iff split: if_splits cbor.splits)
  then show ?R unfolding windows_iff by (auto simp: anchored_def chain_links_iff map_res_Inr)
next
  assume ?R
  then obtain ders certs root where r: "ae_rootPemB64 E \<noteq> []" "x5c = CArray ders"
    "map_res (x5c_cert E) ders = Inr certs" "leaf = hd certs"
    "ae_x509pem E (utf8_decode (ae_b64dec E (ae_rootPemB64 E))) = Inr root" and a: "anchored E now certs root"
    by (auto simp: map_res_Inr)
  have "ders \<noteq> []" using r(3) a by (auto simp: anchored_def)
  moreover obtain us where "map_res (cert_window E now) (certs @ [root]) = Inr us"
    using a windows_iff [of E now "certs @ [root]"] by (auto simp: anchored_def)
  ultimately show ?L using r a
    by (simp add: verifyCertChain_def anchored_def chain_links_iff [of E 0 _ "()", symmetric] Suc_le_eq)
qed

text \<open>The two ways the code tests the result of \<open>timingSafeEqual\<close>.\<close>

lemma timingSafeEqual_throw [simp]:
  "bind_res (timingSafeEqual a b) (\<lambda>eq. throw_unless eq msg) = Inr u \<longleftrightarrow> a = b"
  by (auto simp: timingSafeEqual_def)

lemma timingSafeEqual_32 [simp]:
  "bind_res (if length b \<noteq> 32 then Inr False else timingSafeEqual a b) (\<lambda>eq. if \<not> eq then Inl msg else r) = Inr z
   \<longleftrightarrow> a = b \<and> length a = 32 \<and> r = Inr z"
  by (auto simp: timingSafeEqual_def)

lemma verifyNonce_iff:
  "verifyNonce E authData cdh cert = Some (Inr u) \<longleftrightarrow>
     (\<exists>v. findExtensionValue (ae_raw E cert) APPLE_NONCE_OID = Some (Inr (Some v))
        \<and> parseAppleNonce v = Inr (ae_sha256 E (authData @ cdh)))"
  unfolding verifyNonce_def
  by (cases "findExtensionValue (ae_raw E cert) APPLE_NONCE_OID")
     (auto simp: bind_res_Inr_iff [of _ "\<lambda>extnValue. case_option _ _ extnValue"]
        bind_res_Inr_iff [of "parseAppleNonce _"] simp del: timingSafeEqual_True split: option.splits)

lemma decodeKeyId_iff: "decodeKeyId E k = Inr b \<longleftrightarrow> (\<exists>s. k = JStr s \<and> s \<noteq> [] \<and> b = ae_b64dec E s)"
  by (auto simp: decodeKeyId_def split: option.splits if_splits)

lemma verifyKeyId_iff:
  "verifyKeyId E cert keyId cred = Inr h \<longleftrightarrow>
     (\<exists>x y aaguid pk s. ae_certJwk E cert = Inr (''EC'', ''P-256'', x, y) \<and> cred = Some (aaguid, h, pk)
        \<and> rawPoint pk = uncompressed x y \<and> h = ae_sha256 E (uncompressed x y) \<and> length h = 32
        \<and> keyId = JStr s \<and> s \<noteq> [] \<and> ae_b64dec E s = h)"
proof (cases "ae_certJwk E cert")
  case (Inr j)
  obtain kty crv x y where j: "j = (kty, crv, x, y)" by (metis prod.exhaust)
  show ?thesis
  proof (cases cred)
    case None
    then show ?thesis by (simp add: verifyKeyId_def Inr j)
  next
    case (Some c)
    obtain aaguid cid pk where c: "c = (aaguid, cid, pk)" by (metis prod.exhaust)
    show ?thesis
      by (simp add: verifyKeyId_def Inr j Some c Let_def bind_res_Inr_iff [of "decodeKeyId E keyId"] decodeKeyId_iff)
         (auto simp: eq_commute)
  qed
qed (simp add: verifyKeyId_def)

lemma verifyAttestationAuthData_iff:
  "verifyAttestationAuthData E p = Inr u \<longleftrightarrow>
     ad_rpIdHash p = appIdHash E \<and> ad_flags p AND 0x40 \<noteq> 0 \<and> map_option fst (ad_cred p) = Some (expectedAaguid E)
     \<and> ad_signCount p = 0"
  by (auto simp: verifyAttestationAuthData_def bind_res_Inr_iff timingSafeEqual_def split: if_splits)

lemma coseKey_point:
  assumes "coseKeyToEcPublicKey E v = Inr pk"
  obtains x y where "length x = 32" "length y = 32" "rawPoint pk = uncompressed x y" "ae_ecKey E x y = Inr (keyObject pk)"
  using assms by (auto simp: coseKeyToEcPublicKey_def Let_def split: cbor.splits if_splits option.splits)

lemma parseAuthenticatorData_fields:
  assumes "parseAuthenticatorData E authData cred = Inr p"
  shows "37 \<le> length authData \<and> ad_rpIdHash p = take 32 authData \<and> ad_flags p = authData ! 32
    \<and> ad_signCount p = readUIntBE 4 authData 33"
  using assms by (auto simp: parseAuthenticatorData_def Let_def bind_res_Inr_iff split: if_splits)

lemma parseAuthenticatorData_cred:
  assumes "parseAuthenticatorData E authData cred = Inr p" "ad_cred p = Some (aaguid, credentialId, pk)"
  shows "aaguid = take 16 (drop 37 authData) \<and> credentialId = take (readUIntBE 2 authData 53) (drop 55 authData)
    \<and> (\<exists>x y. length x = 32 \<and> length y = 32 \<and> rawPoint pk = uncompressed x y \<and> ae_ecKey E x y = Inr (keyObject pk))"
proof -
  obtain v where "coseKeyToEcPublicKey E v = Inr pk" and "aaguid = take 16 (drop 37 authData)"
    "credentialId = take (readUIntBE 2 authData 53) (drop 55 authData)"
    using assms by (auto simp: parseAuthenticatorData_def Let_def bind_res_Inr_iff split: if_splits)
  then show ?thesis by (metis coseKey_point)
qed

lemma attest_register_ok:
  assumes "attest_register E now keyId att cdh = Some (Inr r)"
  obtains buf ders authData leaf p h aaguid pk where "ae_bufFrom E att = Inr buf"
    "decodeAttestation buf = Inr (ders, authData)" "verifyCertChain E now ders = Inr leaf"
    "verifyNonce E authData cdh leaf = Some (Inr ())" "parseAuthenticatorData E authData True = Inr p"
    "verifyKeyId E leaf keyId (ad_cred p) = Inr h" "verifyAttestationAuthData E p = Inr ()"
    "ad_cred p = Some (aaguid, h, pk)"
    "r = AttestOk ''attestation'' (ae_b64enc E h) (ae_keyPem E (keyObject pk)) (ad_signCount p)"
proof -
  from assms obtain leaf authData where 1: "bind_res (ae_bufFrom E att) (\<lambda>buf.
           bind_res (decodeAttestation buf) (\<lambda>(x5c, authData).
           map_sum id (\<lambda>cert. (cert, authData)) (verifyCertChain E now x5c))) = Inr (leaf, authData)"
    and 2: "verifyNonce E authData cdh leaf \<noteq> None"
    by (auto simp: attest_register_def split: sum.splits option.splits)
  from assms 1 2 obtain p h aaguid i pk where "verifyNonce E authData cdh leaf = Some (Inr ())"
    "parseAuthenticatorData E authData True = Inr p" "verifyKeyId E leaf keyId (ad_cred p) = Inr h"
    "verifyAttestationAuthData E p = Inr ()" "ad_cred p = Some (aaguid, i, pk)"
    "r = AttestOk ''attestation'' (ae_b64enc E h) (ae_keyPem E (keyObject pk)) (ad_signCount p)"
    unfolding attest_register_def 1
    by (auto simp: bind_res_Inr_iff split: option.splits)
  moreover from this have "i = h" by (auto simp: verifyKeyId_iff)
  moreover from 1 obtain buf ders where "ae_bufFrom E att = Inr buf" "decodeAttestation buf = Inr (ders, authData)"
    "verifyCertChain E now ders = Inr leaf" by (auto simp: bind_res_Inr_iff)
  ultimately show thesis using that by blast
qed

lemma attest_register_mode: "attest_register E now keyId att cdh = Some (Inr r) \<Longrightarrow> \<exists>k p n. r = AttestOk ''attestation'' k p n"
  by (erule attest_register_ok) blast

lemma attest_assert_mode:
  "attest_assert E kid rc a cdh = Inr (AttestOk m k p n) \<Longrightarrow> m = ''assertion''"
  by (auto simp: attest_assert_def bind_res_Inr_iff split: option.splits if_splits)

lemma attest_caught_Ok: "attest_caught r = AttestOk m k p n \<longleftrightarrow> r = Inr (AttestOk m k p n)"
  by (cases r) auto

text \<open>
  C20. An accepted attestation proves what Apple's procedure asks for: the validator is configured; the
  certificates of the statement, each inside its validity window, chain by name and signature to the
  pinned root; the leaf's nonce extension holds the hash of the authenticator data and the client data
  hash; the identity returned is the hash of the leaf's P-256 key, which is the key id presented, the
  credential id and the key in the authenticator data; the authenticator data name this app and this
  App Attest environment with counter 0; and no state was touched.
\<close>

theorem attestation_sound:
  assumes "validateAppAttest E now st keyId att asr cdh s = (Some (AttestOk ''attestation'' kid pem n), s')"
  shows "APP_ATTEST_READY E \<and> s' = s \<and> n = 0 \<and>
    (\<exists>h buf ders authData certs root v x y xk yk key.
       cdh = JStr h \<and> length (ae_b64dec E h) = 32 \<and> ae_bufFrom E att = Inr buf
       \<and> decodeAttestation buf = Inr (CArray ders, authData)
       \<and> list_all2 (\<lambda>d c. x5c_cert E d = Inr c) ders certs
       \<and> ae_x509pem E (utf8_decode (ae_b64dec E (ae_rootPemB64 E))) = Inr root \<and> anchored E now certs root
       \<and> findExtensionValue (ae_raw E (hd certs)) APPLE_NONCE_OID = Some (Inr (Some v))
       \<and> parseAppleNonce v = Inr (ae_sha256 E (authData @ ae_b64dec E h))
       \<and> ae_certJwk E (hd certs) = Inr (''EC'', ''P-256'', x, y)
       \<and> decodeKeyId E keyId = Inr (ae_sha256 E (uncompressed x y))
       \<and> take (readUIntBE 2 authData 53) (drop 55 authData) = ae_sha256 E (uncompressed x y)
       \<and> kid = ae_b64enc E (ae_sha256 E (uncompressed x y))
       \<and> uncompressed xk yk = uncompressed x y \<and> ae_ecKey E xk yk = Inr key \<and> pem = ae_keyPem E key
       \<and> take 32 authData = appIdHash E \<and> take 16 (drop 37 authData) = expectedAaguid E)"
proof -
  from assms obtain h where h: "APP_ATTEST_READY E" "cdh = JStr h" "length (ae_b64dec E h) = 32" "s' = s"
    and "attest_register E now keyId att (ae_b64dec E h) = Some (Inr (AttestOk ''attestation'' kid pem n))"
    by (auto simp: validateAppAttest_def Let_def attest_caught_Ok split: if_splits option.splits sum.splits prod.splits
        state_error.splits dest: attest_assert_mode)
  from this(5) obtain buf ders authData leaf p hs aaguid pk where r: "ae_bufFrom E att = Inr buf"
    "decodeAttestation buf = Inr (ders, authData)" "verifyCertChain E now ders = Inr leaf"
    "verifyNonce E authData (ae_b64dec E h) leaf = Some (Inr ())" "parseAuthenticatorData E authData True = Inr p"
    "verifyKeyId E leaf keyId (ad_cred p) = Inr hs" "verifyAttestationAuthData E p = Inr ()"
    "ad_cred p = Some (aaguid, hs, pk)"
    and res: "AttestOk ''attestation'' kid pem n
      = AttestOk ''attestation'' (ae_b64enc E hs) (ae_keyPem E (keyObject pk)) (ad_signCount p)"
    by (rule attest_register_ok)
  note chain = r(3) [unfolded verifyCertChain_iff] and nonce = r(4) [unfolded verifyNonce_iff]
    and kid = r(6) [unfolded verifyKeyId_iff] and ad = r(7) [unfolded verifyAttestationAuthData_iff]
    and fields = parseAuthenticatorData_fields [OF r(5)] and cred = parseAuthenticatorData_cred [OF r(5) r(8)]
  from chain obtain xs certs root where c: "ders = CArray xs" "list_all2 (\<lambda>d c. x5c_cert E d = Inr c) xs certs"
    "leaf = hd certs" "ae_x509pem E (utf8_decode (ae_b64dec E (ae_rootPemB64 E))) = Inr root" "anchored E now certs root"
    by blast
  from nonce obtain v where v: "findExtensionValue (ae_raw E leaf) APPLE_NONCE_OID = Some (Inr (Some v))"
    "parseAppleNonce v = Inr (ae_sha256 E (authData @ ae_b64dec E h))" by blast
  from kid r(8) obtain x y where k: "ae_certJwk E leaf = Inr (''EC'', ''P-256'', x, y)" "rawPoint pk = uncompressed x y"
    "hs = ae_sha256 E (uncompressed x y)" "decodeKeyId E keyId = Inr hs" by (auto simp: decodeKeyId_iff)
  from cred obtain xk yk where e: "rawPoint pk = uncompressed xk yk" "ae_ecKey E xk yk = Inr (keyObject pk)"
    "aaguid = take 16 (drop 37 authData)" "hs = take (readUIntBE 2 authData 53) (drop 55 authData)" by blast
  have "\<exists>v. findExtensionValue (ae_raw E (hd certs)) APPLE_NONCE_OID = Some (Inr (Some v))
       \<and> parseAppleNonce v = Inr (ae_sha256 E (authData @ ae_b64dec E h))" using v c(3) by blast
  moreover have "take 32 authData = appIdHash E" "take 16 (drop 37 authData) = expectedAaguid E" "n = 0"
    using ad fields e(3) r(8) res by auto
  ultimately show ?thesis using h r(1,2) c k e res by (simp (no_asm_use)) metis
qed

section \<open>A concrete validator\<close>

text \<open>
  A small instance of the cryptographic operations: a certificate is its DER bytes, a key its point,
  every hash is the same 32 bytes, and a signature is valid when it is the single byte 1.
\<close>

definition ex_hash :: bytes where
  "ex_hash = replicate 32 7"

definition ex_leaf :: bytes where
  "ex_leaf = [0x30, 0x33, 0x06, 0x09, 0x2a, 0x86, 0x48, 0x86, 0xf7, 0x63, 0x64, 0x08, 0x02,
     0x04, 0x26, 0x30, 0x24, 0xa1, 0x22, 0x04, 0x20] @ ex_hash"

definition ex_authData :: bytes where
  "ex_authData = ex_hash @ [0x40, 0, 0, 0, 0] @ aaguidBuf ''appattest'' @ [0, 0x20] @ ex_hash
     @ [0xa5, 0x01, 0x02, 0x03, 0x26, 0x20, 0x01, 0x21, 0x58, 0x20] @ replicate 32 1
     @ [0x22, 0x58, 0x20] @ replicate 32 2"

definition ex_attestation :: bytes where
  "ex_attestation = [0xa3, 0x63, 0x66, 0x6d, 0x74, 0x6f] @ ascii_bytes ''apple-appattest''
     @ [0x67] @ ascii_bytes ''attStmt'' @ [0xa1, 0x63, 0x78, 0x35, 0x63, 0x81, 0x58, 0x35] @ ex_leaf
     @ [0x68] @ ascii_bytes ''authData'' @ [0x58, 0xa4] @ ex_authData"

definition ex_assertion :: bytes where
  "ex_assertion = [0xa2, 0x69] @ ascii_bytes ''signature'' @ [0x41, 0x01]
     @ [0x71] @ ascii_bytes ''authenticatorData'' @ [0x58, 0x25] @ ex_hash @ [0x40, 0, 0, 0, 9]"

definition ex_env :: "(bytes, bytes) attest_env" where
  "ex_env = \<lparr>ae_rootPemB64 = ''root'', ae_teamId = ''T'', ae_bundleId = ''b'', ae_aaguidLabel = ''appattest'',
     ae_skew = 300000, ae_sha256 = (\<lambda>_. ex_hash), ae_b64dec = (\<lambda>_. ex_hash),
     ae_bufFrom = (\<lambda>v. if v = JStr ''att'' then Inr ex_attestation else Inr ex_assertion),
     ae_b64enc = (\<lambda>_. ''id''), ae_x509pem = (\<lambda>_. Inr []), ae_x509 = (\<lambda>der. Inr der),
     ae_validFrom = (\<lambda>_. Some 0), ae_validTo = (\<lambda>_. Some 1000), ae_checkIssued = (\<lambda>_ _. True),
     ae_certVerify = (\<lambda>_ _. True), ae_raw = (\<lambda>c. c),
     ae_certJwk = (\<lambda>_. Inr (''EC'', ''P-256'', replicate 32 1, replicate 32 2)),
     ae_ecKey = (\<lambda>x y. Inr (x @ y)), ae_keyPem = (\<lambda>_. ''pem''), ae_pemKey = (\<lambda>_. Inr []),
     ae_ecVerify = (\<lambda>_ _ sig. Inr (sig = [1]))\<rparr>"

definition ex_parsed :: "bytes auth_data" where
  "ex_parsed = \<lparr>ad_rpIdHash = ex_hash, ad_flags = 0x40, ad_signCount = 0,
     ad_cred = Some (aaguidBuf ''appattest'', ex_hash,
       \<lparr>keyObject = replicate 32 1 @ replicate 32 2, rawPoint = uncompressed (replicate 32 1) (replicate 32 2)\<rparr>)\<rparr>"

lemma ex_nonce: "verifyNonce ex_env ex_authData ex_hash ex_leaf = Some (Inr ())"
proof -
  have oid: "findExtensionValue b APPLE_NONCE_OID = map_option Inr
      (der_walk [0x2a, 0x86, 0x48, 0x86, 0xf7, 0x63, 0x64, 0x08, 0x02] b 0 (int (length b)) 0)" for b
    by (simp add: findExtensionValue_def apple_oid)
  show ?thesis unfolding verifyNonce_def oid by code_simp
qed

lemma ex_register:
  "attest_register ex_env 0 (JStr ''k'') (JStr ''att'') ex_hash = Some (Inr (AttestOk ''attestation'' ''id'' ''pem'' 0))"
proof -
  have "ae_bufFrom ex_env (JStr ''att'') = Inr ex_attestation" by (simp add: ex_env_def)
  moreover have "decodeAttestation ex_attestation = Inr (CArray [CBytes ex_leaf], ex_authData)" by code_simp
  moreover have "verifyCertChain ex_env 0 (CArray [CBytes ex_leaf]) = Inr ex_leaf" by code_simp
  moreover have "parseAuthenticatorData ex_env ex_authData True = Inr ex_parsed" by code_simp
  moreover have "verifyKeyId ex_env ex_leaf (JStr ''k'') (ad_cred ex_parsed) = Inr ex_hash" by code_simp
  moreover have "verifyAttestationAuthData ex_env ex_parsed = Inr ()" by code_simp
  ultimately show ?thesis
    by (simp add: attest_register_def ex_nonce) (simp add: ex_parsed_def ex_env_def)
qed

theorem attestation_sound_witness:
  "validateAppAttest ex_env 0 None (JStr ''k'') (JStr ''att'') JUndef (JStr ''c'') ()
     = (Some (AttestOk ''attestation'' ''id'' ''pem'' 0), ())
   \<and> (\<exists>certs root. anchored ex_env 0 certs root)"
proof -
  have "ae_b64dec ex_env x = ex_hash" "length ex_hash = 32" "APP_ATTEST_READY ex_env" for x
    by (simp_all add: ex_env_def ex_hash_def APP_ATTEST_READY_def)
  then have ok: "validateAppAttest ex_env 0 None (JStr ''k'') (JStr ''att'') JUndef (JStr ''c'') ()
     = (Some (AttestOk ''attestation'' ''id'' ''pem'' 0), ())"
    by (simp add: validateAppAttest_def ex_register)
  from attestation_sound [OF ok] ok show ?thesis by blast
qed

lemma verifyAssertion_ok:
  assumes "verifyAssertion E buf cdh pub stored = Inr n"
  obtains sig authData p where "ae_ecVerify E (ae_sha256 E (authData @ cdh)) pub sig = Inr True"
    "parseAuthenticatorData E authData False = Inr p" "ad_rpIdHash p = appIdHash E" "stored < int n" "n = ad_signCount p"
proof -
  obtain a e where "cborDecodeFirst buf = Inr (a, e)"
    using assms by (auto simp: verifyAssertion_def bind_res_Inr_iff)
  with assms obtain m where m: "cborDecodeFirst buf = Inr (CMap m, e)"
    by (cases a) (auto simp: verifyAssertion_def)
  with assms obtain sig authData where
    f: "cose_bytes (cmap_get m (ctext ''signature'')) = Some sig"
       "cose_bytes (cmap_get m (ctext ''authenticatorData'')) = Some authData"
    by (auto simp: verifyAssertion_def split: option.splits)
  with assms m have "\<exists>p. ae_ecVerify E (ae_sha256 E (authData @ cdh)) pub sig = Inr True
      \<and> parseAuthenticatorData E authData False = Inr p \<and> ad_rpIdHash p = appIdHash E \<and> stored < int n \<and> n = ad_signCount p"
    by (auto simp: verifyAssertion_def bind_res_Inr_iff timingSafeEqual_def split: if_splits)
  then show thesis using that by blast
qed

text \<open>
  C21. An accepted assertion proves possession of a registered key: the store holds a key under the
  canonical spelling of the presented id; the assertion's signature by that key covers the authenticator
  data and the client data hash; the authenticator data name this app; and their counter is a 32-bit
  number strictly greater than the stored one.
\<close>

theorem assertion_sound:
  assumes "validateAppAttest E now st keyId att asr cdh s = (Some (AttestOk ''assertion'' kid pem n), s')"
  shows "APP_ATTEST_READY E \<and>
    (\<exists>getKey h raw stored pub sig authData. st = Some getKey \<and> cdh = JStr h \<and> length (ae_b64dec E h) = 32
       \<and> decodeKeyId E keyId = Inr raw \<and> kid = ae_b64enc E raw
       \<and> getKey s kid = (Inr (Some (pem, stored)), s') \<and> ae_pemKey E pem = Inr pub
       \<and> ae_ecVerify E (ae_sha256 E (authData @ ae_b64dec E h)) pub sig = Inr True
       \<and> take 32 authData = appIdHash E \<and> n = readUIntBE 4 authData 33 \<and> n < 2 ^ 32 \<and> stored < int n)"
proof -
  have no_reg: "attest_register E now keyId att c \<noteq> Some (Inr (AttestOk ''assertion'' kid pem n))" for c
    by (auto dest: attest_register_mode)
  from assms obtain getKey h raw rc where h: "APP_ATTEST_READY E" "st = Some getKey" "cdh = JStr h"
    "length (ae_b64dec E h) = 32" "decodeKeyId E keyId = Inr raw" "getKey s (ae_b64enc E raw) = (Inr rc, s')"
    and a: "attest_assert E (ae_b64enc E raw) rc asr (ae_b64dec E h) = Inr (AttestOk ''assertion'' kid pem n)"
    by (auto simp: validateAppAttest_def Let_def attest_caught_Ok no_reg split: if_splits option.splits sum.splits
        prod.splits state_error.splits)
  from a obtain stored pub buf where r: "rc = Some (pem, stored)" "ae_pemKey E pem = Inr pub" "kid = ae_b64enc E raw"
    and v: "verifyAssertion E buf (ae_b64dec E h) pub stored = Inr n"
    by (auto simp: attest_assert_def bind_res_Inr_iff split: option.splits if_splits)
  from v obtain sig authData p where p: "ae_ecVerify E (ae_sha256 E (authData @ ae_b64dec E h)) pub sig = Inr True"
    "parseAuthenticatorData E authData False = Inr p" "ad_rpIdHash p = appIdHash E" "stored < int n" "n = ad_signCount p"
    by (rule verifyAssertion_ok)
  have "n = readUIntBE 4 authData 33" "take 32 authData = appIdHash E" "n < 2 ^ 32"
    using parseAuthenticatorData_fields [OF p(2)] p(3,5) readUIntBE_less [of 4 authData 33] by auto
  with h r p(1,4) show ?thesis by blast
qed

definition ex_store :: "unit \<Rightarrow> string \<Rightarrow> (state_error + (string \<times> int) option) \<times> unit" where
  "ex_store s k = (Inr (Some (''pem'', 8)), s)"

theorem assertion_sound_witness:
  "\<exists>stored pub. ex_store () ''id'' = (Inr (Some (''pem'', stored)), ()) \<and> ae_pemKey ex_env ''pem'' = Inr pub \<and> stored < 9"
proof -
  have ok: "validateAppAttest ex_env 0 (Some ex_store) (JStr ''k'') JUndef (JStr ''asr'') (JStr ''c'') ()
     = (Some (AttestOk ''assertion'' ''id'' ''pem'' 9), ())" by code_simp
  from assertion_sound [OF ok] show ?thesis by auto
qed

text \<open>
  C30. Verification mutates nothing: with the in-memory store, \<open>validateAppAttest\<close> leaves every
  registration, counter and quota as it was, whatever it answers.
\<close>

theorem validate_readonly:
  "snd (validateAppAttest E now (Some (\<lambda>s k. getAttestedKey mem_get keyFor k s)) keyId att asr cdh s) = s"
proof -
  have "snd (getAttestedKey mem_get keyFor k s) = s" for k
    by (simp add: getAttestedKey_def mem_get_def split: option.splits)
  then have g: "getAttestedKey mem_get keyFor k s = (r, s') \<Longrightarrow> s' = s" for k r s' by (metis snd_conv)
  show ?thesis
    by (auto simp: validateAppAttest_def Let_def split: option.splits sum.splits prod.splits state_error.splits dest: g)
qed

end
