(* ===== verification/Fixtures.thy ===== *)
theory Fixtures
  imports AppAttest
begin

text \<open>
  The synthetic App Attest fixtures (\<^verbatim>\<open>token-issuer/appattest-fixtures.js\<close>): certificates, COSE keys,
  authenticator data, the attestation object and assertions, built with the DER and CBOR encoders of the
  earlier theories. Shown: the validator accepts every attestation and every assertion built this way, for
  every key, challenge and counter; with the soundness theorems this pins acceptance down from both sides.
\<close>

section \<open>Certificates\<close>

text \<open>
  What the fixtures use of Node, for a key pair of type \<open>'p\<close>: the SPKI bytes and the decoded JWK coordinates of
  its public half, and \<open>crypto.sign('sha256', data, privateKey)\<close>.
\<close>

record 'p fixture_env =
  fe_spki :: "'p \<Rightarrow> bytes"
  fe_jwk :: "'p \<Rightarrow> bytes \<times> bytes"
  fe_sign :: "'p \<Rightarrow> bytes \<Rightarrow> bytes"
  fe_sha256 :: "bytes \<Rightarrow> bytes"
  fe_b64enc :: "bytes \<Rightarrow> string"

text \<open>The fields of a \<open>Date\<close> in UTC; the month is counted from 0.\<close>

record utc =
  u_year :: nat
  u_month :: nat
  u_date :: nat
  u_hours :: nat
  u_minutes :: nat
  u_seconds :: nat

definition pad2 :: "nat \<Rightarrow> string" where
  "pad2 n = (if n < 10 then ''0'' @ js_nat_string n else js_nat_string n)"

definition utc_string :: "utc \<Rightarrow> string" where
  "utc_string d = pad2 (u_year d mod 100) @ pad2 (u_month d + 1) @ pad2 (u_date d) @ pad2 (u_hours d) @ pad2 (u_minutes d)
     @ pad2 (u_seconds d) @ ''Z''"

definition derUtcTime :: "utc \<Rightarrow> bytes" where
  "derUtcTime d = tlv 0x17 (ascii_bytes (utc_string d))"

definition derName :: "string \<Rightarrow> bytes" where
  "derName commonName = derSeq [derSet [derSeq [derOid ''2.5.4.3'', tlv 0x0c (utf8_bytes commonName)]]]"

definition ecdsaWithSha256AlgId :: bytes where
  "ecdsaWithSha256AlgId = derSeq [derOid ''1.2.840.10045.4.3.2'']"

definition tbsCertificate :: "'p fixture_env \<Rightarrow> string \<Rightarrow> string \<Rightarrow> 'p \<Rightarrow> nat \<Rightarrow> bytes list \<Rightarrow> utc \<Rightarrow> utc \<Rightarrow> bytes" where
  "tbsCertificate F subjectCN issuerCN subjectKey serial extensions nb na =
     derSeq ([derContext 0 True (derInteger 2), derInteger serial, ecdsaWithSha256AlgId, derName issuerCN,
              derSeq [derUtcTime nb, derUtcTime na], derName subjectCN, fe_spki F subjectKey]
             @ (if extensions \<noteq> [] then [derContext 3 True (derSeq extensions)] else []))"

definition buildCert :: "'p fixture_env \<Rightarrow> string \<Rightarrow> string \<Rightarrow> 'p \<Rightarrow> 'p \<Rightarrow> nat \<Rightarrow> bytes list \<Rightarrow> utc \<Rightarrow> utc \<Rightarrow> bytes" where
  "buildCert F subjectCN issuerCN subjectKey issuerKey serial extensions nb na =
     (let tbs = tbsCertificate F subjectCN issuerCN subjectKey serial extensions nb na in
      derSeq [tbs, ecdsaWithSha256AlgId, tlv 0x03 (0x00 # fe_sign F issuerKey tbs)])"

text \<open>\<open>pemCert\<close>: the base64 text with a newline after every 64 characters, between the PEM markers.\<close>

function wrap64 :: "string \<Rightarrow> string" where
  "wrap64 s = (if length s < 64 then s else take 64 s @ [CHR 0x0A] @ wrap64 (drop 64 s))"
  by pat_completeness auto
termination by (relation "measure length") auto

declare wrap64.simps [simp del]

definition pemCert :: "'p fixture_env \<Rightarrow> bytes \<Rightarrow> string" where
  "pemCert F der = ''-----BEGIN CERTIFICATE-----'' @ [CHR 0x0A] @ wrap64 (fe_b64enc F der) @ [CHR 0x0A] @ ''-----END CERTIFICATE-----'' @ [CHR 0x0A]"

definition uncompressedPoint :: "'p fixture_env \<Rightarrow> 'p \<Rightarrow> bytes" where
  "uncompressedPoint F k = 0x04 # fst (fe_jwk F k) @ snd (fe_jwk F k)"

section \<open>Authenticator data\<close>

definition coseKeyFor :: "'p fixture_env \<Rightarrow> 'p \<Rightarrow> bytes option" where
  "coseKeyFor F k =
     Option.bind (those (map pair_opt
       [(cborUint 1, cborUint 2), (cborUint 3, cborNegInt (-7)), (cborNegInt (-1), cborUint 1),
        (cborNegInt (-2), cborBytes (fst (fe_jwk F k))), (cborNegInt (-3), cborBytes (snd (fe_jwk F k)))])) cborMap"

text \<open>\<open>writeUInt32BE\<close> and \<open>writeUInt16BE\<close>, \<open>None\<close> where they throw.\<close>

definition uint32BE :: "int \<Rightarrow> bytes option" where
  "uint32BE n = (if 0 \<le> n \<and> n < 4294967296
     then Some [word_of_int (n div 16777216), word_of_int (n div 65536), word_of_int (n div 256), word_of_int n] else None)"

definition uint16BE :: "int \<Rightarrow> bytes option" where
  "uint16BE n = (if 0 \<le> n \<and> n < 65536 then Some [word_of_int (n div 256), word_of_int n] else None)"

text \<open>The 37 bytes both kinds of authenticator data begin with.\<close>

definition buildAssertionAuthData :: "bytes \<Rightarrow> int \<Rightarrow> byte \<Rightarrow> bytes option" where
  "buildAssertionAuthData rpIdHash counter flags =
     map_option (\<lambda>cnt. take 32 (rpIdHash @ replicate 32 0) @ [flags] @ cnt) (uint32BE counter)"

definition buildAttestationAuthData :: "'p fixture_env \<Rightarrow> bytes \<Rightarrow> string \<Rightarrow> bytes \<Rightarrow> 'p \<Rightarrow> int \<Rightarrow> byte \<Rightarrow> bytes option" where
  "buildAttestationAuthData F rpIdHash aaguidLabel credentialId credentialKey counter flags =
     (case (buildAssertionAuthData rpIdHash counter flags, uint16BE (int (length credentialId)), coseKeyFor F credentialKey) of
        (Some head, Some credIdLen, Some cose) \<Rightarrow> Some (head @ aaguidBuf aaguidLabel @ credIdLen @ credentialId @ cose)
      | _ \<Rightarrow> None)"

section \<open>The attestation and the assertion\<close>

record attestation_fixture =
  af_clientDataHashB64 :: string
  af_keyIdB64 :: string
  af_keyIdRaw :: bytes
  af_rootPemB64 :: string
  af_attestationB64 :: string
  af_authData :: bytes
  af_leafDer :: bytes
  af_interDer :: bytes
  af_rootDer :: bytes

text \<open>\<open>attObj\<close> from the encoders.\<close>

definition attestationObject :: "bytes \<Rightarrow> bytes \<Rightarrow> bytes \<Rightarrow> bytes option" where
  "attestationObject leafDer interDer authData =
     Option.bind (those (map pair_opt
       [(cborText (code_points ''fmt''), cborText (code_points ''apple-appattest'')),
        (cborText (code_points ''attStmt''),
         Option.bind (those (map pair_opt
           [(cborText (code_points ''x5c''), Option.bind (those [cborBytes leafDer, cborBytes interDer]) cborArray)])) cborMap),
        (cborText (code_points ''authData''), cborBytes authData)])) cborMap"

definition root_cn :: string where "root_cn = ''Columbia Test App Attest Root CA''"

definition inter_cn :: string where "inter_cn = ''Columbia Test App Attestation CA 1''"

definition leafCert :: "'p fixture_env \<Rightarrow> 'p \<Rightarrow> 'p \<Rightarrow> bytes \<Rightarrow> utc \<Rightarrow> utc \<Rightarrow> bytes" where
  "leafCert F credKey interKey nonce nb na =
     buildCert F ''Columbia Test App Attest Credential'' inter_cn credKey interKey 2 [appleNonceExtension nonce] nb na"

text \<open>
  The three key pairs stand for the results of \<open>newP256\<close>, and \<open>v i\<close> for the default validity the \<open>i\<close>-th call of
  \<open>buildCert\<close> takes from the clock; \<open>None\<close> where an encoder throws.
\<close>

definition makeAttestationFixture :: "'p fixture_env \<Rightarrow> 'p \<Rightarrow> 'p \<Rightarrow> 'p \<Rightarrow> (nat \<Rightarrow> utc \<times> utc) \<Rightarrow> string \<Rightarrow> string \<Rightarrow> bytes
    \<Rightarrow> attestation_fixture option" where
  "makeAttestationFixture F credKey interKey rootKey v app aaguidLabel challenge =
     (let rpIdHash = fe_sha256 F (utf8_bytes app); clientDataHash = fe_sha256 F challenge;
          keyIdRaw = fe_sha256 F (uncompressedPoint F credKey);
          rootDer = buildCert F root_cn root_cn rootKey rootKey 1 [] (fst (v 0)) (snd (v 0));
          interDer = buildCert F inter_cn root_cn interKey rootKey 100 [] (fst (v 1)) (snd (v 1)) in
      case buildAttestationAuthData F rpIdHash aaguidLabel keyIdRaw credKey 0 0x40 of
        None \<Rightarrow> None
      | Some authData \<Rightarrow>
          let leafDer = leafCert F credKey interKey (fe_sha256 F (authData @ clientDataHash)) (fst (v 2)) (snd (v 2)) in
          map_option (\<lambda>attObj.
            \<lparr>af_clientDataHashB64 = fe_b64enc F clientDataHash, af_keyIdB64 = fe_b64enc F keyIdRaw, af_keyIdRaw = keyIdRaw,
             af_rootPemB64 = fe_b64enc F (utf8_bytes (pemCert F rootDer)),
             af_attestationB64 = fe_b64enc F attObj, af_authData = authData, af_leafDer = leafDer, af_interDer = interDer,
             af_rootDer = rootDer\<rparr>) (attestationObject leafDer interDer authData))"

definition makeAssertion :: "'p fixture_env \<Rightarrow> string \<Rightarrow> 'p \<Rightarrow> int \<Rightarrow> bytes \<Rightarrow> byte \<Rightarrow> bytes \<Rightarrow> (string \<times> string \<times> bytes) option" where
  "makeAssertion F app credKey counter challenge flags authDataSuffix =
     (let rpIdHash = fe_sha256 F (utf8_bytes app); clientDataHash = fe_sha256 F challenge in
      case buildAssertionAuthData rpIdHash counter flags of
        None \<Rightarrow> None
      | Some head \<Rightarrow>
          let authData = head @ authDataSuffix;
              signature = fe_sign F credKey (fe_sha256 F (authData @ clientDataHash)) in
          map_option (\<lambda>obj. (fe_b64enc F obj, fe_b64enc F clientDataHash, authData))
            (Option.bind (those (map pair_opt
              [(cborText (code_points ''signature''), cborBytes signature),
               (cborText (code_points ''authenticatorData''), cborBytes authData)])) cborMap))"

section \<open>Decoding what the fixtures built\<close>

lemma cbor_decode_encoded:
  assumes "cbor_encode v = Some bs" "cbor_value v" "cbor_depth v \<le> 17"
  shows "cborDecodeFirst (bs @ rest) = Inr (v, length bs)"
  using reads_back [of v, THEN spec, THEN spec, of bs "[]"] assms by (simp add: cborDecodeFirst_def CBOR_MAX_DEPTH_def)

definition cose_value :: "bytes \<Rightarrow> bytes \<Rightarrow> cbor" where
  "cose_value x y = CMap [(CNum 1, CNum 2), (CNum 3, CNum (-7)), (CNum (-1), CNum 1), (CNum (-2), CBytes x), (CNum (-3), CBytes y)]"

lemma coseKeyFor_value: "coseKeyFor F k = cbor_encode (cose_value (fst (fe_jwk F k)) (snd (fe_jwk F k)))"
  by (simp add: coseKeyFor_def cose_value_def)

lemma cose_decode:
  assumes "coseKeyFor F k = Some bs"
  shows "cborDecodeFirst bs = Inr (cose_value (fst (fe_jwk F k)) (snd (fe_jwk F k)), length bs)"
  using cbor_decode_encoded [of "cose_value (fst (fe_jwk F k)) (snd (fe_jwk F k))" bs "[]"] assms
  by (simp add: coseKeyFor_value) (simp add: cose_value_def)

lemma cose_key:
  assumes "length x = 32" "length y = 32" "ae_ecKey E x y = Inr k"
  shows "coseKeyToEcPublicKey E (cose_value x y) = Inr \<lparr>keyObject = k, rawPoint = uncompressed x y\<rparr>"
  using assms by (simp add: coseKeyToEcPublicKey_def cose_value_def cose_bytes_def Let_def)

definition attestation_value :: "bytes \<Rightarrow> bytes \<Rightarrow> bytes \<Rightarrow> cbor" where
  "attestation_value leaf icert authData =
     CMap [(ctext ''fmt'', ctext ''apple-appattest''), (ctext ''attStmt'', CMap [(ctext ''x5c'', CArray [CBytes leaf, CBytes icert])]),
           (ctext ''authData'', CBytes authData)]"

lemma attestationObject_value: "attestationObject leaf icert authData = cbor_encode (attestation_value leaf icert authData)"
  by (simp add: attestationObject_def attestation_value_def ctext_def)

lemma ctext_eq [simp]: "ctext s = ctext t \<longleftrightarrow> s = t"
  by (auto simp: ctext_def code_points_def inj_map_eq_map [OF inj_of_char])

lemma ctext_same_key [simp]: "same_key (ctext s) (ctext t) \<longleftrightarrow> s = t"
  using ctext_eq [of s t] by (simp add: ctext_def)

lemma ctext_value [simp]: "cbor_value (ctext s)" "cbor_depth (ctext s) = 1"
  by (simp_all add: ctext_def)

lemma decodeAttestation_fixture:
  assumes "attestationObject leaf icert authData = Some bs"
  shows "decodeAttestation bs = Inr (CArray [CBytes leaf, CBytes icert], authData)"
proof -
  have "cborDecodeFirst (bs @ []) = Inr (attestation_value leaf icert authData, length bs)"
  proof (rule cbor_decode_encoded)
    show "cbor_encode (attestation_value leaf icert authData) = Some bs" using assms by (simp add: attestationObject_value)
  qed (simp_all add: attestation_value_def)
  then show ?thesis by (simp add: decodeAttestation_def attestation_value_def cose_bytes_def)
qed

section \<open>The nonce in the leaf certificate\<close>

definition oid_nonce :: bytes where
  "oid_nonce = [0x2a, 0x86, 0x48, 0x86, 0xf7, 0x63, 0x64, 0x08, 0x02]"

lemma fixture_oids:
  "derOid ''1.2.840.113635.100.8.2'' = tlv 0x06 oid_nonce"
  "derOid ''2.5.4.3'' = tlv 0x06 [0x55, 0x04, 0x03]"
  "derOid ''1.2.840.10045.4.3.2'' = tlv 0x06 [0x2a, 0x86, 0x48, 0xce, 0x3d, 0x04, 0x03, 0x02]"
  by (simp_all add: derOid_def oid_nonce_def parseInt10_def js_ws_def is_digit_def read_dec_def Let_def oid_part_def
      toInt32_def oid_stack.simps)

text \<open>The SPKI of a P-256 key with coordinates \<open>x\<close> and \<open>y\<close>, as a tree (RFC 5480).\<close>

definition p256_spki :: "bytes \<Rightarrow> bytes \<Rightarrow> der" where
  "p256_spki x y = Constr 0x30 [Constr 0x30 [Prim 0x06 [0x2a, 0x86, 0x48, 0xce, 0x3d, 0x02, 0x01],
     Prim 0x06 [0x2a, 0x86, 0x48, 0xce, 0x3d, 0x03, 0x01, 0x07]], Prim 0x03 (0x00 # 0x04 # x @ y)]"

definition alg_tree :: der where
  "alg_tree = Constr 0x30 [Prim 0x06 [0x2a, 0x86, 0x48, 0xce, 0x3d, 0x04, 0x03, 0x02]]"

definition name_tree :: "string \<Rightarrow> der" where
  "name_tree cn = Constr 0x30 [Constr 0x31 [Constr 0x30 [Prim 0x06 [0x55, 0x04, 0x03], Prim 0x0c (utf8_bytes cn)]]]"

definition leaf_tree :: "bytes \<Rightarrow> bytes \<Rightarrow> bytes \<Rightarrow> bytes \<Rightarrow> utc \<Rightarrow> utc \<Rightarrow> der" where
  "leaf_tree x y nonce sig nb na =
     Constr 0x30 [
       Constr 0x30 [Constr 0xa0 [Prim 0x02 [2]], Prim 0x02 [2], alg_tree, name_tree inter_cn,
         Constr 0x30 [Prim 0x17 (ascii_bytes (utc_string nb)), Prim 0x17 (ascii_bytes (utc_string na))],
         name_tree ''Columbia Test App Attest Credential'', p256_spki x y,
         Constr 0xa3 [Constr 0x30 [Constr 0x30 [Prim 0x06 oid_nonce, Prim 0x04 (nonce_extnValue nonce)]]]],
       alg_tree, Prim 0x03 (0x00 # sig)]"

lemma fixture_trees:
  "ecdsaWithSha256AlgId = der_enc alg_tree"
  "derName cn = der_enc (name_tree cn)"
  "derInteger 2 = der_enc (Prim 0x02 [2])"
  "derUtcTime d = der_enc (Prim 0x17 (ascii_bytes (utc_string d)))"
  "appleNonceExtension nonce = der_enc (Constr 0x30 [Prim 0x06 oid_nonce, Prim 0x04 (nonce_extnValue nonce)])"
  by (simp_all add: ecdsaWithSha256AlgId_def alg_tree_def derName_def name_tree_def derSeq_def derSet_def derInteger_def
      derUtcTime_def appleNonceExtension_def derOctetString_def fixture_oids)

lemma leafCert_tree:
  assumes "fe_spki F credKey = der_enc (p256_spki x y)"
  shows "\<exists>sig. leafCert F credKey interKey nonce nb na = der_enc (leaf_tree x y nonce sig nb na)"
proof -
  have ctx: "derContext 0 True c = tlv 0xa0 c" "derContext 3 True c = tlv 0xa3 c" for c
    by (simp_all add: derContext_def context_tag_def)
  have tbs: "tbsCertificate F ''Columbia Test App Attest Credential'' inter_cn credKey 2 [appleNonceExtension nonce] nb na
      = der_enc (hd (case leaf_tree x y nonce [] nb na of Constr t ks \<Rightarrow> ks))"
    by (simp add: tbsCertificate_def derSeq_def ctx fixture_trees assms leaf_tree_def)
  show ?thesis
    unfolding leafCert_def buildCert_def Let_def tbs
    by (intro exI) (simp add: derSeq_def fixture_trees leaf_tree_def)
qed

lemma leaf_find: "der_find oid_nonce (leaf_tree x y nonce sig nb na) = Some (nonce_extnValue nonce)"
  by (simp add: leaf_tree_def alg_tree_def name_tree_def p256_spki_def oid_nonce_def)

lemma leaf_ok: "der_ok (leaf_tree x y nonce sig nb na)" "der_levels (leaf_tree x y nonce sig nb na) \<le> 25"
  by (simp_all add: leaf_tree_def alg_tree_def name_tree_def p256_spki_def)

lemma leaf_nonce:
  assumes "fe_spki F credKey = der_enc (p256_spki x y)" "length (leafCert F credKey interKey nonce nb na) < 2 ^ 31"
  shows "findExtensionValue (leafCert F credKey interKey nonce nb na) APPLE_NONCE_OID = Some (Inr (Some (nonce_extnValue nonce)))"
proof -
  obtain sig where t: "leafCert F credKey interKey nonce nb na = der_enc (leaf_tree x y nonce sig nb na)"
    using leafCert_tree [OF assms(1)] by blast
  let ?t = "leaf_tree x y nonce sig nb na"
  have "walks oid_nonce [?t]" by (rule walks_list) (rule walks_kids)
  from walksD [OF this, of "[]" "[]" 0] assms(2) leaf_ok [of x y nonce sig nb na] apple_oid [folded oid_nonce_def]
  show ?thesis by (simp add: t findExtensionValue_def leaf_find)
qed

section \<open>Acceptance\<close>

text \<open>What both sides rely on of Node's buffers: base64 round trips, and SHA-256 has 32 bytes.\<close>

definition buffers_agree :: "('c, 'k) attest_env \<Rightarrow> 'p fixture_env \<Rightarrow> bool" where
  "buffers_agree E F \<longleftrightarrow> fe_sha256 F = ae_sha256 E \<and> fe_b64enc F = ae_b64enc E
     \<and> (\<forall>b. ae_b64dec E (ae_b64enc E b) = b) \<and> ae_b64dec E [] = [] \<and> (\<forall>s. ae_bufFrom E (JStr s) = Inr (ae_b64dec E s))
     \<and> (\<forall>b. length (ae_sha256 E b) = 32)"

lemma buffers_agreeD:
  assumes "buffers_agree E F"
  shows "fe_sha256 F b = ae_sha256 E b" "fe_b64enc F b = ae_b64enc E b" "ae_b64dec E (ae_b64enc E b) = b"
    "ae_bufFrom E (JStr s) = Inr (ae_b64dec E s)" "length (ae_sha256 E b) = 32" "b \<noteq> [] \<Longrightarrow> ae_b64enc E b \<noteq> []"
  using assms by (auto simp: buffers_agree_def) (metis)

lemma uint32BE_read: "uint32BE n = Some c \<Longrightarrow> length c = 4 \<and> be_nat c = nat n"
  using be_nat_4 [of n] by (auto simp: uint32BE_def split: if_splits)

lemma uint16BE_read: "uint16BE n = Some c \<Longrightarrow> length c = 2 \<and> be_nat c = nat n"
  using be_nat_2 [of n] by (auto simp: uint16BE_def split: if_splits)

lemma length_aaguidBuf [simp]: "length (aaguidBuf label) = 16"
  by (simp add: aaguidBuf_def ascii_bytes_def)

lemma assertion_head:
  assumes "buildAssertionAuthData rp n flags = Some ah" "length rp = 32"
  obtains c where "ah = rp @ flags # c" "length c = 4" "be_nat c = nat n"
  using assms uint32BE_read by (auto simp: buildAssertionAuthData_def)

text \<open>The parser recovers the fields of the authenticator data.\<close>

lemma parse_head:
  assumes "length rp = 32" "length c = 4"
  shows "length (rp @ flags # c @ rest) \<ge> 37" "(rp @ flags # c @ rest) ! 32 = flags" "take 32 (rp @ flags # c @ rest) = rp"
    "readUIntBE 4 (rp @ flags # c @ rest) 33 = be_nat c" "drop 37 (rp @ flags # c @ rest) = rest"
proof -
  have d: "drop (Suc (length rp)) (rp @ flags # c @ rest) = c @ rest" by simp
  then have "drop 33 (rp @ flags # c @ rest) = c @ rest" using assms(1) by simp
  then show "readUIntBE 4 (rp @ flags # c @ rest) 33 = be_nat c" using assms(2) by (simp add: readUIntBE_def)
  show "(rp @ flags # c @ rest) ! 32 = flags" using assms(1) nth_append_length [of rp flags "c @ rest"] by simp
qed (use assms in simp_all)

lemma parse_assertion_data:
  assumes "buildAssertionAuthData rp n flags = Some head" "length rp = 32"
  shows "parseAuthenticatorData E (head @ suffix) False
    = Inr \<lparr>ad_rpIdHash = rp, ad_flags = flags, ad_signCount = nat n, ad_cred = None\<rparr>"
proof -
  obtain c where c: "head = rp @ flags # c" "length c = 4" "be_nat c = nat n" using assms by (rule assertion_head)
  note h = parse_head [OF assms(2) c(2), of flags suffix]
  show ?thesis using h c by (simp add: parseAuthenticatorData_def Let_def)
qed

lemma parse_attestation_data:
  assumes a: "buildAttestationAuthData F rp label credId key n 0x40 = Some authData" and rp: "length rp = 32"
    and xy: "length (fst (fe_jwk F key)) = 32" "length (snd (fe_jwk F key)) = 32"
    and k: "ae_ecKey E (fst (fe_jwk F key)) (snd (fe_jwk F key)) = Inr k"
  shows "parseAuthenticatorData E authData True
    = Inr \<lparr>ad_rpIdHash = rp, ad_flags = 0x40, ad_signCount = nat n,
        ad_cred = Some (aaguidBuf label, credId, \<lparr>keyObject = k, rawPoint = uncompressedPoint F key\<rparr>)\<rparr>"
proof -
  from a obtain ah l cose where b: "buildAssertionAuthData rp n 0x40 = Some ah" "uint16BE (int (length credId)) = Some l"
    "coseKeyFor F key = Some cose" and ad: "authData = ah @ aaguidBuf label @ l @ credId @ cose"
    by (auto simp: buildAttestationAuthData_def split: option.splits)
  obtain c where c: "ah = rp @ 0x40 # c" "length c = 4" "be_nat c = nat n" using b(1) rp by (rule assertion_head)
  let ?r = "aaguidBuf label @ l @ credId @ cose"
  have ad': "authData = rp @ 0x40 # c @ ?r" using ad c by simp
  note h = parse_head [OF rp c(2), of "0x40" ?r, folded ad']
  have l: "length l = 2" "be_nat l = length credId" using uint16BE_read [OF b(2)] by simp_all
  have d53: "drop 53 authData = l @ credId @ cose" using h(5) drop_drop [of 16 37 authData] by simp
  have "drop 55 authData = drop (length l) (drop 53 authData)" using l(1) by simp
  then have d55: "drop 55 authData = credId @ cose" by (simp add: d53)
  have len: "length authData = 55 + length credId + length cose" using ad' rp c(2) l(1) by simp
  have dc: "drop (55 + length credId) authData = cose" using d55 drop_drop [of "length credId" 55 authData] by (simp add: add.commute)
  show ?thesis
    using h(1-4) h(5) l c(3) len
    by (simp add: parseAuthenticatorData_def Let_def readUIntBE_def [of 2] d53 d55 dc cose_decode [OF b(3)] cose_key [OF xy k]
        uncompressedPoint_def uncompressed_def)
qed


lemma verifyAssertion_fixture:
  assumes obj: "Option.bind (those (map pair_opt
      [(cborText (code_points ''signature''), cborBytes sig), (cborText (code_points ''authenticatorData''), cborBytes authData)])) cborMap = Some bs"
    and sig: "ae_ecVerify E (ae_sha256 E (authData @ cdh)) k sig = Inr True"
    and parsed: "parseAuthenticatorData E authData False = Inr p" "ad_rpIdHash p = appIdHash E" "stored < int (ad_signCount p)"
  shows "verifyAssertion E bs cdh k stored = Inr (ad_signCount p)"
proof -
  let ?v = "CMap [(ctext ''signature'', CBytes sig), (ctext ''authenticatorData'', CBytes authData)]"
  have "cborDecodeFirst (bs @ []) = Inr (?v, length bs)"
  proof (rule cbor_decode_encoded)
    show "cbor_encode ?v = Some bs" using obj by (simp add: ctext_def)
  qed simp_all
  with sig parsed show ?thesis by (simp add: verifyAssertion_def cose_bytes_def timingSafeEqual_def)
qed

text \<open>
  C23. A registered device can always assert: an assertion built by the fixtures with the device key, for any
  challenge, any counter above the stored one, any flags and any trailing bytes, is accepted with that
  counter, provided the stored PEM is the device key's and Node verifies the signature it made.
\<close>

theorem assertion_complete:
  assumes ready: "APP_ATTEST_READY E" and agree: "buffers_agree E F"
    and mk: "makeAssertion F (appId E) credKey counter challenge flags suffix = Some (assertionB64, cdhB64, authData)"
    and store: "getKey s (ae_b64enc E keyId) = (Inr (Some (pem, stored)), s')" and counter: "stored < counter"
    and keys: "keyId \<noteq> []" "pem \<noteq> []" "ae_pemKey E pem = Inr k"
      "ae_ecVerify E (ae_sha256 E (authData @ ae_sha256 E challenge)) k
         (fe_sign F credKey (ae_sha256 E (authData @ ae_sha256 E challenge))) = Inr True"
  shows "validateAppAttest E now (Some getKey) (JStr (ae_b64enc E keyId)) JUndef (JStr assertionB64) (JStr cdhB64) s
    = (Some (AttestOk ''assertion'' (ae_b64enc E keyId) pem (nat counter)), s')"
proof -
  note B = buffers_agreeD [OF agree]
  let ?cdh = "ae_sha256 E challenge"
  from mk obtain h obj where h: "buildAssertionAuthData (appIdHash E) counter flags = Some h" and ad: "authData = h @ suffix"
    and obj: "Option.bind (those (map pair_opt
      [(cborText (code_points ''signature''), cborBytes (fe_sign F credKey (ae_sha256 E (authData @ ?cdh)))),
       (cborText (code_points ''authenticatorData''), cborBytes authData)])) cborMap = Some obj"
    and f: "assertionB64 = ae_b64enc E obj" "cdhB64 = ae_b64enc E ?cdh"
    by (auto simp: makeAssertion_def Let_def B appIdHash_def split: option.splits)
  have "0 \<le> counter" using h by (auto simp: buildAssertionAuthData_def uint32BE_def split: if_splits)
  moreover have "parseAuthenticatorData E authData False = Inr \<lparr>ad_rpIdHash = appIdHash E, ad_flags = flags, ad_signCount = nat counter, ad_cred = None\<rparr>"
    unfolding ad by (rule parse_assertion_data [OF h]) (simp add: appIdHash_def B)
  ultimately have v: "verifyAssertion E obj ?cdh k stored = Inr (nat counter)"
    using verifyAssertion_fixture [OF obj keys(4), of _ stored] counter by simp
  have "verifyAssertion E [] ?cdh k stored \<noteq> Inr (nat counter)"
    by (simp add: verifyAssertion_def cborDecodeFirst_def cborReadItem.simps)
  with v have "obj \<noteq> []" by auto
  then have ne: "ae_b64enc E ?cdh \<noteq> []" "ae_b64enc E obj \<noteq> []" "ae_b64enc E keyId \<noteq> []"
    using B(5) [of challenge] keys(1) by (auto intro!: B(6))
  show ?thesis
    using ready ne B(3-5) store keys v unfolding f
    by (simp add: validateAppAttest_def Let_def decodeKeyId_def attest_assert_def)
qed

section \<open>A concrete device\<close>

text \<open>Keys are their coordinates, certificates their DER bytes, and a hash is 32 times the length.\<close>

definition ex_device :: "(bytes \<times> bytes) fixture_env" where
  "ex_device = \<lparr>fe_spki = (\<lambda>(x, y). der_enc (p256_spki x y)), fe_jwk = id, fe_sign = (\<lambda>k m. [7]),
     fe_sha256 = (\<lambda>b. replicate 32 (of_nat (length b))), fe_b64enc = map (\<lambda>b. char_of (unat b))\<rparr>"

definition ex_validator :: "(bytes, bytes) attest_env" where
  "ex_validator = ex_env\<lparr>ae_sha256 := fe_sha256 ex_device, ae_b64enc := fe_b64enc ex_device, ae_b64dec := map (\<lambda>c. of_nat (of_char c)),
     ae_bufFrom := (\<lambda>v. case jstr v of None \<Rightarrow> Inl ''TypeError'' | Some s \<Rightarrow> Inr (map (\<lambda>c. of_nat (of_char c)) s)),
     ae_ecVerify := (\<lambda>m k sig. Inr (sig = [7]))\<rparr>"

definition ex_utc :: utc where
  "ex_utc = \<lparr>u_year = 2025, u_month = 0, u_date = 2, u_hours = 3, u_minutes = 4, u_seconds = 5\<rparr>"

lemma ex_buffers: "buffers_agree ex_validator ex_device"
proof -
  have "of_nat (of_char (char_of (unat b) :: char)) = b" for b :: byte using byte_lt_256 [of b] by simp
  then have "map (\<lambda>c. of_nat (of_char c)) (map (\<lambda>b. char_of (unat b) :: char) xs) = (xs :: bytes)" for xs by (simp add: map_idI)
  then show ?thesis by (simp add: buffers_agree_def ex_validator_def ex_device_def)
qed

lemma tlv_le: "length c \<le> n \<Longrightarrow> n < 1000000 \<Longrightarrow> n + 6 \<le> m \<Longrightarrow> length (tlv t c) \<le> m"
  using tlv_length [of c t] by simp

lemma utf8_bytes_le: "length (utf8_bytes s) \<le> 2 * length s"
  by (induction s) (auto simp: utf8_char.simps Let_def)

lemma derName_le:
  assumes "length cn \<le> 40"
  shows "length (derName cn) \<le> 121"
proof -
  have "length (tlv 0x06 [0x55, 0x04, 0x03] @ tlv 0x0c (utf8_bytes cn)) \<le> 95"
    using utf8_bytes_le [of cn] assms tlv_le [of "utf8_bytes cn" 80 86 "0x0c"] tlv_le [of "[0x55, 0x04, 0x03]" 3 9 "0x06"] by simp
  then have "length (tlv 0x31 (tlv 0x30 (tlv 0x06 [0x55, 0x04, 0x03] @ tlv 0x0c (utf8_bytes cn)))) \<le> 107"
    by (intro tlv_le [where n = 101 and m = 107] tlv_le [where n = 95 and m = 101]) simp_all
  then show ?thesis unfolding derName_def derSeq_def derSet_def fixture_oids by (intro tlv_le [where n = 107]) simp_all
qed

lemma fixture_part_le:
  "length (derUtcTime ex_utc) \<le> 19" "length ecdsaWithSha256AlgId \<le> 20"
  "length (derInteger 1) \<le> 7" "length (derInteger 2) \<le> 7" "length (derInteger 100) \<le> 7"
proof -
  have "length (utc_string ex_utc) = 13" by (simp add: utc_string_def ex_utc_def pad2_def js_nat_string.simps)
  then show "length (derUtcTime ex_utc) \<le> 19" unfolding derUtcTime_def by (intro tlv_le [where n = 13]) (simp_all add: ascii_bytes_def)
  show "length ecdsaWithSha256AlgId \<le> 20" unfolding ecdsaWithSha256AlgId_def derSeq_def fixture_oids
    by (intro tlv_le [where n = 14]) (simp_all, intro tlv_le [where n = 8], simp_all)
  show "length (derInteger 1) \<le> 7" "length (derInteger 2) \<le> 7" "length (derInteger 100) \<le> 7"
    by (simp_all add: derInteger_def Let_def) (intro tlv_le [where n = 1]; simp)+
qed

lemma spki_le: "length (fe_spki ex_device (replicate 32 x, replicate 32 y)) \<le> 200"
  unfolding ex_device_def p256_spki_def
  by (simp add: tlv_def derLen_def)


lemma ext_le: "length n = 32 \<Longrightarrow> length (appleNonceExtension n) \<le> 100"
  by (simp add: appleNonceExtension_def nonce_extnValue_def derSeq_def derOctetString_def derContext_def context_tag_def fixture_oids oid_nonce_def tlv_def derLen_def)

lemma ex_cert_le:
  assumes "length scn \<le> 40" "length icn \<le> 40" "k = (replicate 32 1, replicate 32 2)" "length (derInteger serial) \<le> 7"
    "length (concat exts) \<le> 100"
  shows "length (buildCert ex_device scn icn k k' serial exts ex_utc ex_utc) \<le> 1000"
proof -
  note p = derName_le [OF assms(1)] derName_le [OF assms(2)] fixture_part_le assms(4) spki_le [of 1 2, folded assms(3)]
  have v: "length (derContext 0 True (derInteger 2)) \<le> 13" unfolding derContext_def using p by (intro tlv_le [where n = 7]) simp_all
  have e: "length (derContext 3 True (derSeq exts)) \<le> 112"
    unfolding derContext_def derSeq_def using assms(5) tlv_le [of "concat exts" 100 106 "0x30"] by (intro tlv_le [where n = 106 and m = 112]) simp_all
  have d: "length (derSeq [derUtcTime ex_utc, derUtcTime ex_utc]) \<le> 44" unfolding derSeq_def using p by (intro tlv_le [where n = 38]) simp_all
  have t: "length (tbsCertificate ex_device scn icn k serial exts ex_utc ex_utc) \<le> 700"
    unfolding tbsCertificate_def derSeq_def [of "_ @ _"] using p v e d by (intro tlv_le [where n = 690]) simp_all
  have s: "length (tlv 0x03 (0x00 # fe_sign ex_device k' m)) \<le> 8" for m by (intro tlv_le [where n = 2]) (simp_all add: ex_device_def)
  show ?thesis unfolding buildCert_def Let_def derSeq_def [of "[_, _, _]"] using p t s [of "tbsCertificate ex_device scn icn k serial exts ex_utc ex_utc"]
    by (intro tlv_le [where n = 900]) simp_all
qed

lemma cborBytes_Some: "length b < 1000000 \<Longrightarrow> \<exists>h. cborBytes b = Some (h @ b) \<and> length h \<le> 5"
  by (auto simp: cborBytes_def cbor_head_def cborUint_def)

lemma ex_auth_data:
  assumes "length rp = 32" "length kid = 32"
  shows "\<exists>ad. buildAttestationAuthData ex_device rp ''appattest'' kid (replicate 32 1, replicate 32 2) 0 0x40 = Some ad \<and> length ad \<le> 1000"
  using assms
  by (simp add: buildAttestationAuthData_def buildAssertionAuthData_def uint32BE_def uint16BE_def coseKeyFor_def ex_device_def
      cborUint_def cborNegInt_def cborBytes_def cbor_head_def pair_opt_def cborMap_def aaguidBuf_def ascii_bytes_def case_prod_beta)

lemma ex_object:
  assumes "length l < 1000000" "length i < 1000000" "length ad < 1000000"
  shows "\<exists>obj. attestationObject l i ad = Some obj"
  using cborBytes_Some [OF assms(1)] cborBytes_Some [OF assms(2)] cborBytes_Some [OF assms(3)]
  by (auto simp: attestationObject_def cborText_def cborMap_def cborArray_def
        cbor_head_def cborUint_def pair_opt_def code_points_def utf8_encode_def utf8_enc_def)


theorem assertion_complete_witness:
  "\<exists>a c d. makeAssertion ex_device (appId ex_validator) (replicate 32 1, replicate 32 2) 6 [9] 0x40 [0xbf] = Some (a, c, d)
     \<and> validateAppAttest ex_validator 0 (Some (\<lambda>s k. (Inr (Some (''pem'', 5)), s))) (JStr (ae_b64enc ex_validator [1])) JUndef (JStr a) (JStr c) ()
       = (Some (AttestOk ''assertion'' (ae_b64enc ex_validator [1]) ''pem'' 6), ())"
proof -
  have ready: "APP_ATTEST_READY ex_validator" by (simp add: APP_ATTEST_READY_def ex_validator_def ex_env_def)
  have "\<exists>a c d. makeAssertion ex_device (appId ex_validator) (replicate 32 1, replicate 32 2) 6 [9] 0x40 [0xbf] = Some (a, c, d)"
    by (simp add: makeAssertion_def buildAssertionAuthData_def uint32BE_def ex_device_def Let_def cborText_def cborBytes_def cborMap_def
        cbor_head_def cborUint_def pair_opt_def code_points_def utf8_encode_def utf8_enc_def)
  then obtain a c d where mk: "makeAssertion ex_device (appId ex_validator) (replicate 32 1, replicate 32 2) 6 [9] 0x40 [0xbf] = Some (a, c, d)" by blast
  have "validateAppAttest ex_validator 0 (Some (\<lambda>s k. (Inr (Some (''pem'', 5)), s))) (JStr (ae_b64enc ex_validator [1])) JUndef (JStr a) (JStr c) ()
       = (Some (AttestOk ''assertion'' (ae_b64enc ex_validator [1]) ''pem'' (nat 6)), ())"
    by (rule assertion_complete [OF ready ex_buffers mk, where stored = 5])
       (simp_all add: ex_validator_def ex_env_def ex_device_def)
  with mk show ?thesis by (intro exI [of _ a] exI [of _ c] exI [of _ d]) simp
qed

end
