(* ===== verification/EpochKeys.thy ===== *)
theory EpochKeys
  imports NodeRuntime
begin

text \<open>
  Selection of the issuer's signing keys (\<^verbatim>\<open>token-issuer/epoch-keys.js\<close>): parsing the operator's
  manifest, importing its keys, and handing out the key of a live epoch. Node's key objects are an
  unknown type \<open>'k\<close> with the operations of \<open>node_keys\<close>; \<open>None\<close> stands for a throw.
\<close>

datatype epoch_error = EpochKeyUnavailable

record 'k node_keys =
  nk_pem :: "string \<Rightarrow> 'k option"
  nk_der :: "string \<Rightarrow> bytes \<Rightarrow> 'k option"
  nk_type :: "'k \<Rightarrow> string"
  nk_modulus :: "'k \<Rightarrow> int option"
  nk_jwk :: "'k \<Rightarrow> string \<times> string"
  nk_spki :: "'k \<Rightarrow> bytes option"
  nk_b64dec :: "string \<Rightarrow> bytes"
  nk_b64enc :: "bytes \<Rightarrow> string"
  nk_sha256 :: "bytes \<Rightarrow> bytes"

record 'k epoch_entry =
  signer :: 'k
  spkiB64 :: string
  ek_keyId :: string

fun contains_sub :: "string \<Rightarrow> string \<Rightarrow> bool" where
  "contains_sub pat [] = (pat = [])"
| "contains_sub pat (c # s) = (take (length pat) (c # s) = pat \<or> contains_sub pat s)"

text \<open>\<open>parsePrivateKeyEnv\<close>: PEM if it says so, else base64 DER as PKCS\#8 and then as PKCS\#1.\<close>

definition parsePrivateKeyEnv :: "'k node_keys \<Rightarrow> string \<Rightarrow> 'k option" where
  "parsePrivateKeyEnv N envValue =
     (let v = js_trim envValue in
      if v = [] then None
      else if contains_sub ''-----BEGIN'' v then nk_pem N v
      else let der = nk_b64dec N v in
        (case nk_der N ''pkcs8'' der of Some k \<Rightarrow> Some k | None \<Rightarrow> nk_der N ''pkcs1'' der))"

definition keyIdFromSpki :: "'k node_keys \<Rightarrow> bytes \<Rightarrow> string" where
  "keyIdFromSpki N spki = take 32 (hex_string (nk_sha256 N spki))"

text \<open>The hash over \<open>n\<close>, a zero byte and \<open>e\<close> that identifies the RSA material.\<close>

definition key_fingerprint :: "'k node_keys \<Rightarrow> string \<times> string \<Rightarrow> string" where
  "key_fingerprint N jwk = hex_string (nk_sha256 N (utf8_bytes (fst jwk) @ [0] @ utf8_bytes (snd jwk)))"

definition importKey :: "'k node_keys \<Rightarrow> string \<Rightarrow> epoch_error + string \<times> 'k epoch_entry" where
  "importKey N material =
     (case parsePrivateKeyEnv N material of
        None \<Rightarrow> Inl EpochKeyUnavailable
      | Some k \<Rightarrow>
          if nk_type N k \<notin> {''rsa'', ''rsa-pss''} \<or> nk_modulus N k \<noteq> Some 2048 then Inl EpochKeyUnavailable
          else (case nk_spki N k of
            None \<Rightarrow> Inl EpochKeyUnavailable
          | Some spki \<Rightarrow> Inr (key_fingerprint N (nk_jwk N k),
              \<lparr>signer = k, spkiB64 = nk_b64enc N spki, ek_keyId = keyIdFromSpki N spki\<rparr>)))"

text \<open>\<open>blindSign(entry, blindedMsg)\<close> over the raw RSA operations of the key, each of which may throw.\<close>

definition blindSign :: "('k \<Rightarrow> bytes \<Rightarrow> bytes option) \<Rightarrow> ('k \<Rightarrow> bytes \<Rightarrow> bytes option) \<Rightarrow> 'k epoch_entry
    \<Rightarrow> bytes \<Rightarrow> bytes option" where
  "blindSign privateDecrypt publicEncrypt entry blindedMsg =
     (case privateDecrypt (signer entry) blindedMsg of
        None \<Rightarrow> None
      | Some s \<Rightarrow>
          (case publicEncrypt (signer entry) s of
             None \<Rightarrow> None
           | Some check \<Rightarrow> if length s \<noteq> length blindedMsg \<or> check \<noteq> blindedMsg then None else Some s))"

section \<open>The provider\<close>

definition valid_epoch :: "int \<Rightarrow> bool" where
  "valid_epoch e \<longleftrightarrow> safe_int e \<and> 0 \<le> e"

text \<open>\<open>isLive(epoch)\<close> when the clock reads \<open>now\<close>; \<open>Inl\<close> where \<open>readEpoch\<close> throws.\<close>

definition isLive :: "int \<Rightarrow> int \<Rightarrow> epoch_error + bool" where
  "isLive now epoch =
     (if \<not> valid_epoch now then Inl EpochKeyUnavailable
      else Inr (valid_epoch epoch \<and> (epoch = now \<or> epoch = now - 1)))"

text \<open>One element of \<open>manifest.keys\<close>, with the epochs already seen.\<close>

definition manifest_record :: "int \<Rightarrow> int list \<Rightarrow> jv \<Rightarrow> (int \<times> string) option" where
  "manifest_record now seen rec =
     (if \<not> truthy rec \<or> \<not> isSafeInteger (jget rec ''epoch'') \<or> jint (jget rec ''epoch'') < 0
         \<or> jint (jget rec ''epoch'') \<notin> {now, now - 1} \<or> jint (jget rec ''epoch'') \<in> set seen then None
      else case jstr (jget rec ''privateKey'') of
        None \<Rightarrow> None
      | Some pk \<Rightarrow> if js_trim pk = [] then None else Some (jint (jget rec ''epoch''), pk))"

fun manifest_records :: "int \<Rightarrow> int list \<Rightarrow> jv list \<Rightarrow> (int \<times> string) list option" where
  "manifest_records now seen [] = Some []"
| "manifest_records now seen (r # rs) =
     (case manifest_record now seen r of
        None \<Rightarrow> None
      | Some er \<Rightarrow> map_option (\<lambda>ers. er # ers) (manifest_records now (fst er # seen) rs))"

text \<open>The manifest at construction time; \<open>jparse\<close> is \<open>JSON.parse\<close>, \<open>now\<close> the epoch then.\<close>

definition parse_manifest :: "(string \<Rightarrow> jv option) \<Rightarrow> int \<Rightarrow> string \<Rightarrow> epoch_error + (int \<times> string) list" where
  "parse_manifest jparse now json =
     (if int (length (utf8_bytes json)) > 32768 then Inl EpochKeyUnavailable
      else case jparse json of
        None \<Rightarrow> Inl EpochKeyUnavailable
      | Some m \<Rightarrow>
          if \<not> valid_epoch now \<or> \<not> truthy m \<or> jget m ''version'' \<noteq> JInt 1 then Inl EpochKeyUnavailable
          else (case jarr (jget m ''keys'') of
            None \<Rightarrow> Inl EpochKeyUnavailable
          | Some ks \<Rightarrow>
              if length ks < 1 \<or> length ks > 2 then Inl EpochKeyUnavailable
              else (case manifest_records now [] ks of
                None \<Rightarrow> Inl EpochKeyUnavailable
              | Some rs \<Rightarrow> Inr rs)))"

text \<open>
  The configured provider: \<open>Legacy\<close> when the manifest is unset, otherwise the parsed records.
\<close>

datatype provider = Legacy string | Manifest "(int \<times> string) list"

definition createEpochKeyProvider :: "(string \<Rightarrow> jv option) \<Rightarrow> int \<Rightarrow> string \<Rightarrow> string option \<Rightarrow> epoch_error + provider" where
  "createEpochKeyProvider jparse now legacy manifestJSON =
     (case manifestJSON of
        None \<Rightarrow> Inr (Legacy legacy)
      | Some json \<Rightarrow> map_sum id Manifest (parse_manifest jparse now json))"

text \<open>\<open>load()\<close> in manifest mode: import every key, refuse equal fingerprints, index by epoch.\<close>

fun import_all :: "'k node_keys \<Rightarrow> (int \<times> string) list \<Rightarrow> epoch_error + (int \<times> string \<times> 'k epoch_entry) list" where
  "import_all N [] = Inr []"
| "import_all N ((e, pk) # rs) =
     (case importKey N pk of
        Inl x \<Rightarrow> Inl x
      | Inr fe \<Rightarrow> map_sum id (\<lambda>ks. (e, fe) # ks) (import_all N rs))"

definition load_keys :: "'k node_keys \<Rightarrow> (int \<times> string) list \<Rightarrow> epoch_error + (int, 'k epoch_entry) jmap" where
  "load_keys N rs =
     (case import_all N rs of
        Inl x \<Rightarrow> Inl x
      | Inr ks \<Rightarrow>
          if distinct (map (\<lambda>(e, f, en). f) ks) then Inr (map (\<lambda>(e, f, en). (e, en)) ks)
          else Inl EpochKeyUnavailable)"

text \<open>
  \<open>keysForEpoch(epoch)\<close>: \<open>now\<close> is the clock's epoch at the call, \<open>later\<close> the one after the
  asynchronous import.
\<close>

definition keysForEpoch :: "'k node_keys \<Rightarrow> provider \<Rightarrow> int \<Rightarrow> int \<Rightarrow> int \<Rightarrow> epoch_error + 'k epoch_entry" where
  "keysForEpoch N P now later epoch =
     (if isLive now epoch \<noteq> Inr True then Inl EpochKeyUnavailable
      else case P of
        Legacy material \<Rightarrow>
          (case importKey N material of
             Inl x \<Rightarrow> Inl x
           | Inr fe \<Rightarrow> if isLive later epoch \<noteq> Inr True then Inl EpochKeyUnavailable else Inr (snd fe))
      | Manifest rs \<Rightarrow>
          (case load_keys N rs of
             Inl x \<Rightarrow> Inl x
           | Inr ks \<Rightarrow>
               if isLive later epoch \<noteq> Inr True then Inl EpochKeyUnavailable
               else (case jm_get ks epoch of None \<Rightarrow> Inl EpochKeyUnavailable | Some en \<Rightarrow> Inr en)))"

section \<open>Properties\<close>

lemma manifest_records_props:
  "manifest_records now seen rs = Some ers \<Longrightarrow>
   length ers = length rs \<and> distinct (map fst ers) \<and> set (map fst ers) \<inter> set seen = {} \<and>
   (\<forall>(e, pk) \<in> set ers. e \<in> {now, now - 1} \<and> 0 \<le> e \<and> js_trim pk \<noteq> [])"
proof (induction rs arbitrary: seen ers)
  case (Cons r rs)
  from Cons.prems obtain e pk ers' where r: "manifest_record now seen r = Some (e, pk)"
    and rs: "manifest_records now (e # seen) rs = Some ers'" and ers: "ers = (e, pk) # ers'"
    by (auto split: option.splits)
  from r have "e \<in> {now, now - 1}" "0 \<le> e" "js_trim pk \<noteq> []" "e \<notin> set seen"
    by (auto simp: manifest_record_def split: if_splits option.splits)
  with Cons.IH [OF rs] ers show ?case by auto
qed simp

text \<open>
  A manifest is accepted only if it lists one or two keys, for different epochs, each the current
  or the previous epoch at start-up; a malformed or empty manifest is an error and never falls back
  to the legacy key.
\<close>

theorem manifest_accepted:
  assumes "createEpochKeyProvider jparse now legacy (Some json) = Inr P"
  shows "\<exists>rs. P = Manifest rs \<and> 1 \<le> length rs \<and> length rs \<le> 2 \<and> distinct (map fst rs)
    \<and> (\<forall>(e, pk) \<in> set rs. e \<in> {now, now - 1} \<and> 0 \<le> e)"
proof -
  from assms obtain rs ks where P: "P = Manifest rs" and k: "1 \<le> length ks" "length ks \<le> 2"
    and m: "manifest_records now [] ks = Some rs"
    by (auto simp: createEpochKeyProvider_def parse_manifest_def not_less Suc_le_eq
        split: if_splits option.splits sum.splits)
  from manifest_records_props [OF m] k P show ?thesis by fastforce
qed

text \<open>A concrete key library: a key is its PEM text, every key is RSA-2048.\<close>

definition ex_keys :: "string node_keys" where
  "ex_keys = \<lparr>nk_pem = Some, nk_der = (\<lambda>_ _. None), nk_type = (\<lambda>_. ''rsa''), nk_modulus = (\<lambda>_. Some 2048),
     nk_jwk = (\<lambda>k. (k, ''AQAB'')), nk_spki = (\<lambda>k. Some (utf8_bytes k)), nk_b64dec = utf8_bytes,
     nk_b64enc = hex_string, nk_sha256 = id\<rparr>"

definition ex_manifest :: jv where
  "ex_manifest = JObj [(''version'', JInt 1), (''keys'', JArr
     [JObj [(''epoch'', JInt 7), (''privateKey'', JStr ''-----BEGIN a'')],
      JObj [(''epoch'', JInt 6), (''privateKey'', JStr ''-----BEGIN b'')]])]"

definition ex_records :: "(int \<times> string) list" where
  "ex_records = [(7, ''-----BEGIN a''), (6, ''-----BEGIN b'')]"

theorem manifest_accepted_witness:
  "createEpochKeyProvider (\<lambda>_. Some ex_manifest) 7 [] (Some ''m'') = Inr (Manifest ex_records)
   \<and> distinct (map fst ex_records)"
proof -
  have r: "createEpochKeyProvider (\<lambda>_. Some ex_manifest) 7 [] (Some ''m'') = Inr (Manifest ex_records)"
    by code_simp
  from manifest_accepted [OF r] r show ?thesis by auto
qed

lemma importKey_fingerprint:
  assumes "importKey N pk = Inr (f, en)"
  shows "f = key_fingerprint N (nk_jwk N (signer en))"
  using assms unfolding importKey_def by (auto split: option.splits if_splits)

lemma import_all_in:
  "import_all N rs = Inr ks \<Longrightarrow> (e, f, en) \<in> set ks \<Longrightarrow> \<exists>pk. (e, pk) \<in> set rs \<and> importKey N pk = Inr (f, en)"
  by (induction N rs arbitrary: ks rule: import_all.induct) (auto split: sum.splits, blast+)

lemma keysForEpoch_manifest:
  assumes "keysForEpoch N (Manifest rs) now later epoch = Inr en"
  obtains ks f where "import_all N rs = Inr ks" "distinct (map (\<lambda>(e, f, en). f) ks)" "(epoch, f, en) \<in> set ks"
  using assms
  by (auto simp: keysForEpoch_def load_keys_def split: if_splits sum.splits option.splits
      dest!: jm_get_in_set)

text \<open>
  C33. \<open>keysForEpoch\<close> hands out a key only for the current or the previous epoch, judged both when it is
  called and after the import has finished, so a cached key cannot outlive its overlap window. In
  manifest mode the key is the one configured for that very epoch, with no fallback.
\<close>

theorem keysForEpoch_sound:
  assumes "keysForEpoch N P now later epoch = Inr en"
  shows "epoch \<in> {now, now - 1} \<and> epoch \<in> {later, later - 1} \<and>
    (case P of
       Manifest rs \<Rightarrow> (\<exists>pk f. (epoch, pk) \<in> set rs \<and> importKey N pk = Inr (f, en))
     | Legacy material \<Rightarrow> (\<exists>f. importKey N material = Inr (f, en)))"
proof (cases P)
  case (Legacy m)
  with assms show ?thesis
    by (auto simp: keysForEpoch_def isLive_def split: if_splits sum.splits)
next
  case (Manifest rs)
  have "epoch \<in> {now, now - 1} \<and> epoch \<in> {later, later - 1}"
    using assms Manifest by (auto simp: keysForEpoch_def isLive_def split: if_splits sum.splits)
  moreover have "\<exists>pk f. (epoch, pk) \<in> set rs \<and> importKey N pk = Inr (f, en)"
    using assms unfolding Manifest by (blast elim: keysForEpoch_manifest dest: import_all_in)
  ultimately show ?thesis using Manifest by simp
qed

theorem keysForEpoch_sound_witness:
  "\<exists>en. keysForEpoch ex_keys (Manifest ex_records) 7 7 6 = Inr en
     \<and> (\<exists>pk f. (6, pk) \<in> set ex_records \<and> importKey ex_keys pk = Inr (f, en))"
proof -
  let ?en = "\<lparr>signer = ''-----BEGIN b'', spkiB64 = hex_string (utf8_bytes ''-----BEGIN b''),
      ek_keyId = take 32 (hex_string (utf8_bytes ''-----BEGIN b''))\<rparr>"
  have k: "keysForEpoch ex_keys (Manifest ex_records) 7 7 6 = Inr ?en" by code_simp
  from keysForEpoch_sound [OF k] k show ?thesis by auto
qed

text \<open>
  C29. In manifest mode two different epochs never share RSA key material: whenever keys are handed out
  for both, their moduli or exponents differ. Rotation therefore really changes the key.
\<close>

theorem epochs_use_distinct_material:
  assumes k1: "keysForEpoch N (Manifest rs) now1 later1 e1 = Inr en1"
    and k2: "keysForEpoch N (Manifest rs) now2 later2 e2 = Inr en2" and ne: "e1 \<noteq> e2"
  shows "nk_jwk N (signer en1) \<noteq> nk_jwk N (signer en2)"
proof
  assume eq: "nk_jwk N (signer en1) = nk_jwk N (signer en2)"
  obtain ks f1 where ks: "import_all N rs = Inr ks" and d: "distinct (map (\<lambda>(e, f, en). f) ks)"
    and i1: "(e1, f1, en1) \<in> set ks" using k1 by (rule keysForEpoch_manifest)
  obtain f2 where i2: "(e2, f2, en2) \<in> set ks" using k2 ks by (auto elim: keysForEpoch_manifest)
  have fp: "f = key_fingerprint N (nk_jwk N (signer en))" if "(e, f, en) \<in> set ks" for e f en
    using import_all_in [OF ks that] by (auto dest: importKey_fingerprint)
  from fp [OF i1] fp [OF i2] eq have "f1 = f2" by simp
  with d i1 i2 have "(e1, f1, en1) = (e2, f2, en2)"
    by (metis (mono_tags, lifting) case_prod_conv distinct_map inj_onD)
  with ne show False by simp
qed

theorem epochs_use_distinct_material_witness:
  "nk_jwk ex_keys ''-----BEGIN a'' \<noteq> nk_jwk ex_keys ''-----BEGIN b''"
proof -
  let ?en = "\<lambda>k. \<lparr>signer = k, spkiB64 = hex_string (utf8_bytes k), ek_keyId = take 32 (hex_string (utf8_bytes k))\<rparr>"
  have k: "keysForEpoch ex_keys (Manifest ex_records) 7 7 7 = Inr (?en ''-----BEGIN a'')"
    "keysForEpoch ex_keys (Manifest ex_records) 7 7 6 = Inr (?en ''-----BEGIN b'')" by code_simp+
  show ?thesis using epochs_use_distinct_material [OF k] by simp
qed

end
