(* ===== verification/FrontDoor.thy ===== *)
theory FrontDoor
  imports NodeRuntime
begin

text \<open>
  What the three services share at their HTTP boundary: the front-door origin lock
  (\<open>timingSafeEqualStr\<close>, \<open>frontDoorAllowed\<close>, \<open>fdidExempt\<close>, of which each service has a copy), and the
  draining shutdown of the issuer and the relay (\<open>beginShutdown\<close>, \<open>finishDrain\<close>) as a step relation.
\<close>

section \<open>Requests\<close>

text \<open>\<open>req_headers\<close> looks up a header by its lower-case name, the way Node presents it.\<close>

record request =
  req_method :: string
  req_url :: string
  req_headers :: "string \<Rightarrow> string option"

text \<open>\<open>String(req.url || '').split('?')[0]\<close>\<close>

definition url_path :: "string \<Rightarrow> string" where
  "url_path url = takeWhile (\<lambda>c. c \<noteq> CHR ''?'') url"

section \<open>The origin lock\<close>

definition timingSafeEqualStr :: "(bytes \<Rightarrow> bytes) \<Rightarrow> string option \<Rightarrow> string \<Rightarrow> bool" where
  "timingSafeEqualStr sha256 presented expected =
     (case presented of
        None \<Rightarrow> False
      | Some p \<Rightarrow> p \<noteq> [] \<and> sha256 (utf8_bytes p) = sha256 (utf8_bytes expected))"

definition frontDoorAllowed :: "(bytes \<Rightarrow> bytes) \<Rightarrow> string \<Rightarrow> string \<Rightarrow> request \<Rightarrow> bool" where
  "frontDoorAllowed sha256 REQUIRE_FDID FDID_HEADER req =
     (if REQUIRE_FDID = [] then True
      else case req_headers req FDID_HEADER of
        None \<Rightarrow> False
      | Some raw \<Rightarrow>
          raw \<noteq> [] \<and> list_ex (\<lambda>tok. timingSafeEqualStr sha256 (Some (js_trim tok)) REQUIRE_FDID) (js_split CHR '','' raw))"

text \<open>The issuer exempts its health probe and its public keys, the relay and the cache only the probe.\<close>

definition fdidExempt :: "request \<Rightarrow> string \<Rightarrow> bool" where
  "fdidExempt req path = (if req_method req \<noteq> ''GET'' then False else path = ''/health'' \<or> path = ''/issuer-keys'')"

definition relay_frontDoorAllowed :: "(bytes \<Rightarrow> bytes) \<Rightarrow> string \<Rightarrow> string \<Rightarrow> request \<Rightarrow> bool" where
  "relay_frontDoorAllowed = frontDoorAllowed"

definition relay_fdidExempt :: "request \<Rightarrow> string \<Rightarrow> bool" where
  "relay_fdidExempt req path \<longleftrightarrow> req_method req = ''GET'' \<and> path = ''/health''"

definition cache_frontDoorAllowed :: "(bytes \<Rightarrow> bytes) \<Rightarrow> string \<Rightarrow> string \<Rightarrow> request \<Rightarrow> bool" where
  "cache_frontDoorAllowed = frontDoorAllowed"

definition cache_fdidExempt :: "request \<Rightarrow> string \<Rightarrow> bool" where
  "cache_fdidExempt req path \<longleftrightarrow> req_method req = ''GET'' \<and> path = ''/health''"

text \<open>The media type of a \<open>content-type\<close> header, parameters stripped.\<close>

definition media_type :: "string option \<Rightarrow> string" where
  "media_type header = js_lower (js_trim (takeWhile (\<lambda>c. c \<noteq> CHR '';'') (case header of None \<Rightarrow> [] | Some h \<Rightarrow> h)))"

lemma frontDoorAllowed_iff:
  "frontDoorAllowed sha256 fdid name req \<longleftrightarrow> fdid = [] \<or>
     (\<exists>raw. req_headers req name = Some raw \<and>
        (\<exists>tok \<in> set (js_split CHR '','' raw). js_trim tok \<noteq> [] \<and> sha256 (utf8_bytes (js_trim tok)) = sha256 (utf8_bytes fdid)))"
proof -
  have "js_split CHR '','' [] = [[]]" by simp
  moreover have "js_trim [] = []" by (simp add: js_trim_def)
  ultimately show ?thesis
    by (auto simp: frontDoorAllowed_def timingSafeEqualStr_def list_ex_iff split: option.splits)
qed

text \<open>
  The origin lock is complete and has no bypass: with the lock set, a request is let through exactly
  if one of the comma-separated values of its header, white space removed, is not empty and hashes to
  the hash of the configured id; in particular a request that carries the id anywhere in a repeated
  header passes, and one without the header does not.
\<close>

theorem front_door_exact:
  assumes lock: "fdid \<noteq> []"
  shows "(frontDoorAllowed sha256 fdid name req \<longleftrightarrow>
      (\<exists>raw. req_headers req name = Some raw \<and>
        (\<exists>tok \<in> set (js_split CHR '','' raw).
           js_trim tok \<noteq> [] \<and> sha256 (utf8_bytes (js_trim tok)) = sha256 (utf8_bytes fdid))))
    \<and> (req_headers req name = None \<longrightarrow> \<not> frontDoorAllowed sha256 fdid name req)
    \<and> (\<forall>before after. (\<forall>c \<in> set fdid. \<not> js_ws c \<and> c \<noteq> CHR '','') \<longrightarrow>
        req_headers req name = Some (before @ '','' @ fdid @ '','' @ after) \<longrightarrow> frontDoorAllowed sha256 fdid name req)"
proof (intro conjI allI impI)
  fix before after
  assume c: "\<forall>c \<in> set fdid. \<not> js_ws c \<and> c \<noteq> CHR '',''" and h: "req_headers req name = Some (before @ '','' @ fdid @ '','' @ after)"
  have "js_split CHR '','' (before @ CHR '','' # fdid @ CHR '','' # after)
      = js_split CHR '','' before @ js_split CHR '','' fdid @ js_split CHR '','' after"
    by (simp add: js_split_append)
  moreover have "js_split CHR '','' fdid = [fdid]" using c by (intro js_split_single) auto
  moreover have "js_trim fdid = fdid" using c by (intro js_trim_no_ws) auto
  ultimately show "frontDoorAllowed sha256 fdid name req"
    using h lock unfolding frontDoorAllowed_iff by auto
qed (use lock in \<open>auto simp: frontDoorAllowed_iff\<close>)

theorem front_door_exact_witness:
  "frontDoorAllowed id ''abc'' ''x-azure-fdid''
     \<lparr>req_method = ''POST'', req_url = ''/issue'', req_headers = [''x-azure-fdid'' \<mapsto> ''zz,abc,'']\<rparr>"
  by (rule front_door_exact [THEN conjunct2, THEN conjunct2, rule_format, where before = "''zz''" and after = "[]"])
     (auto simp: js_ws_def)

section \<open>The log boundary\<close>

text \<open>\<open>[...].includes(v)\<close> on a list of strings, and \<open>Number.isInteger(v) && lo <= v && v <= hi\<close>.\<close>

definition includes_str :: "string list \<Rightarrow> jv \<Rightarrow> bool" where
  "includes_str xs v = (case jstr v of None \<Rightarrow> False | Some s \<Rightarrow> s \<in> set xs)"

fun int_between :: "int \<Rightarrow> int \<Rightarrow> jv \<Rightarrow> bool" where
  "int_between lo hi (JInt n) = (lo \<le> n \<and> n \<le> hi)"
| "int_between lo hi _ = False"

lemma includes_str_words: "includes_str xs v \<Longrightarrow> set xs \<subseteq> W \<Longrightarrow> v \<in> JStr ` W"
  by (auto simp: includes_str_def split: option.splits)

definition or_other :: "string list \<Rightarrow> jv \<Rightarrow> jv" where
  "or_other xs v = (if includes_str xs v then v else JStr ''other'')"

lemma or_other_words: "set xs \<subseteq> W \<Longrightarrow> ''other'' \<in> W \<Longrightarrow> or_other xs v \<in> JStr ` W"
  by (auto simp: or_other_def dest: includes_str_words)

lemma int_between_int: "int_between lo hi v \<Longrightarrow> \<exists>n. v = JInt n"
  by (cases v) auto

text \<open>
  Each service passes what it logs through its own \<open>safeLogFields\<close>. The contract they share: every value
  that passes is a number, a flag or one of a fixed list of words.
\<close>

locale closed_log =
  fixes safeLogFields :: "'f \<Rightarrow> (string \<times> jv) list" and words :: "string list"
  assumes closed: "snd ` set (safeLogFields f) \<subseteq> range JInt \<union> range JBool \<union> JStr ` set words"
begin

lemma secret_not_logged: "secret \<notin> set words \<Longrightarrow> JStr secret \<notin> snd ` set (safeLogFields f)"
  using closed [of f] by auto

end

section \<open>Draining shutdown\<close>

text \<open>
  \<open>dr_work\<close> is the issuer's \<open>activeWork\<close> and the relay's \<open>inflight\<close>; \<open>dr_exit\<close> the exit code once
  \<open>process.exit\<close> was called. \<open>dr_accepted\<close> is a ghost counter of the work ever started.
\<close>

record drain =
  dr_draining :: bool
  dr_closed :: bool
  dr_work :: nat
  dr_exit :: "int option"
  dr_accepted :: nat

definition drain_init :: drain where
  "drain_init = \<lparr>dr_draining = False, dr_closed = False, dr_work = 0, dr_exit = None, dr_accepted = 0\<rparr>"

definition finishDrain :: "drain \<Rightarrow> drain" where
  "finishDrain d = (if dr_draining d \<and> dr_closed d \<and> dr_work d = 0 then d\<lparr>dr_exit := Some 0\<rparr> else d)"

text \<open>The handler refuses new work while draining; \<open>trackWork\<close> counts what it accepts.\<close>

definition drain_accept :: "drain \<Rightarrow> drain" where
  "drain_accept d = (if dr_draining d then d else d\<lparr>dr_work := dr_work d + 1, dr_accepted := dr_accepted d + 1\<rparr>)"

definition drain_done :: "drain \<Rightarrow> drain" where
  "drain_done d = finishDrain (d\<lparr>dr_work := dr_work d - 1\<rparr>)"

definition beginShutdown :: "drain \<Rightarrow> drain" where
  "beginShutdown d = (if dr_draining d then d else d\<lparr>dr_draining := True\<rparr>)"

definition drain_closed :: "drain \<Rightarrow> drain" where
  "drain_closed d = finishDrain (d\<lparr>dr_closed := True\<rparr>)"

definition drain_timeout :: "drain \<Rightarrow> drain" where
  "drain_timeout d = d\<lparr>dr_exit := Some 1\<rparr>"

inductive drain_step :: "drain \<Rightarrow> drain \<Rightarrow> bool" where
  accept: "dr_exit d = None \<Longrightarrow> drain_step d (drain_accept d)"
| finish: "dr_exit d = None \<Longrightarrow> 0 < dr_work d \<Longrightarrow> drain_step d (drain_done d)"
| signal: "dr_exit d = None \<Longrightarrow> drain_step d (beginShutdown d)"
| closed: "dr_exit d = None \<Longrightarrow> dr_draining d \<Longrightarrow> drain_step d (drain_closed d)"
| timeout: "dr_exit d = None \<Longrightarrow> dr_draining d \<Longrightarrow> drain_step d (drain_timeout d)"

inductive drain_reachable :: "drain \<Rightarrow> bool" where
  init: "drain_reachable drain_init"
| step: "drain_reachable d \<Longrightarrow> drain_step d d' \<Longrightarrow> drain_reachable d'"

lemmas drain_defs = finishDrain_def drain_accept_def drain_done_def beginShutdown_def drain_closed_def drain_timeout_def

lemma drain_inv:
  "drain_reachable d \<Longrightarrow> (dr_closed d \<longrightarrow> dr_draining d) \<and> (dr_exit d \<noteq> None \<longrightarrow> dr_draining d)
     \<and> (dr_exit d = Some 0 \<longrightarrow> dr_work d = 0 \<and> dr_closed d)
     \<and> (dr_draining d \<and> dr_closed d \<and> dr_work d = 0 \<longrightarrow> dr_exit d \<noteq> None) \<and> dr_work d \<le> dr_accepted d"
proof (induction rule: drain_reachable.induct)
  case init
  then show ?case by (simp add: drain_init_def)
next
  case (step d d')
  from step(2) show ?case using step(3) by cases (auto simp: drain_defs)
qed

text \<open>
  C26. A clean exit never cuts work short: in every reachable state, exit code 0 means shutdown was
  requested, the listener is closed and no accepted work is unfinished; as soon as these three hold the
  process has exited; and once draining no further work is accepted.
\<close>

theorem drain_clean_exit:
  assumes "drain_reachable d"
  shows "(dr_exit d = Some 0 \<longrightarrow> dr_draining d \<and> dr_closed d \<and> dr_work d = 0)
    \<and> (dr_draining d \<and> dr_closed d \<and> dr_work d = 0 \<longrightarrow> dr_exit d \<noteq> None)
    \<and> (\<forall>d'. dr_draining d \<longrightarrow> drain_step d d' \<longrightarrow> dr_draining d' \<and> dr_accepted d' = dr_accepted d \<and> dr_work d' \<le> dr_work d)"
proof (intro conjI allI impI)
  fix d'
  assume "dr_draining d" "drain_step d d'"
  then have "dr_draining d' \<and> dr_accepted d' = dr_accepted d \<and> dr_work d' \<le> dr_work d"
    by (auto simp: drain_defs elim!: drain_step.cases)
  then show "dr_draining d'" "dr_accepted d' = dr_accepted d" "dr_work d' \<le> dr_work d" by simp_all
qed (use drain_inv [OF assms] in auto)

theorem drain_clean_exit_witness:
  "\<exists>d. drain_reachable d \<and> dr_exit d = Some 0 \<and> dr_accepted d = 1 \<and> dr_work d = 0"
proof -
  let ?d = "drain_done (drain_closed (beginShutdown (drain_accept drain_init)))"
  have "drain_reachable (drain_accept drain_init)"
    by (rule drain_reachable.step [OF drain_reachable.init]) (rule drain_step.accept, simp add: drain_init_def)
  then have "drain_reachable (beginShutdown (drain_accept drain_init))"
    by (rule drain_reachable.step) (rule drain_step.signal, simp add: drain_defs drain_init_def)
  then have "drain_reachable (drain_closed (beginShutdown (drain_accept drain_init)))"
    by (rule drain_reachable.step) (rule drain_step.closed, simp_all add: drain_defs drain_init_def)
  then have "drain_reachable ?d"
    by (rule drain_reachable.step) (rule drain_step.finish, simp_all add: drain_defs drain_init_def)
  moreover have "dr_exit ?d = Some 0 \<and> dr_accepted ?d = 1" by (simp add: drain_defs drain_init_def)
  ultimately show ?thesis using drain_clean_exit [of ?d] by blast
qed

end
