(* ===== verification/IssuerServer.thy ===== *)
theory IssuerServer
  imports AppAttest EpochKeys FrontDoor
begin

text \<open>
  The issuer's HTTP service (\<^verbatim>\<open>token-issuer/server.js\<close>): the client-data binding, \<open>handleIssue\<close> and
  \<open>handleIssuerKeys\<close>, the request router with its body limit, and the log filter. Shown: what a 200 from
  \<open>/issue\<close> guarantees, that the binding is unambiguous, which requests reach a handler, and that only a
  fixed vocabulary is ever logged.
\<close>

section \<open>Epochs and the client-data binding\<close>

text \<open>\<open>Math.floor(Date.now() / 1000 / EPOCH_SECONDS)\<close> of a time in milliseconds.\<close>

definition currentEpoch :: "int \<Rightarrow> int \<Rightarrow> int" where
  "currentEpoch EPOCH_SECONDS now = now div (1000 * EPOCH_SECONDS)"

definition client_data :: "(string \<Rightarrow> bytes) \<Rightarrow> int \<Rightarrow> string list \<Rightarrow> bytes" where
  "client_data b64dec epochId blinded =
     utf8_bytes (js_int_string epochId) @ concat (map (\<lambda>b. 0x00 # b64dec b) blinded)"

definition expectedClientDataHash :: "(bytes \<Rightarrow> bytes) \<Rightarrow> (string \<Rightarrow> bytes) \<Rightarrow> int \<Rightarrow> string list \<Rightarrow> bytes" where
  "expectedClientDataHash sha256 b64dec epochId blinded = sha256 (client_data b64dec epochId blinded)"

text \<open>
  \<open>boundEpoch\<close>; \<open>None\<close> is \<open>null\<close>. Both sides of the comparison have 32 bytes, so \<open>timingSafeEqual\<close> does not
  throw.
\<close>

definition boundEpoch :: "(bytes \<Rightarrow> bytes) \<Rightarrow> (string \<Rightarrow> bytes) \<Rightarrow> jv \<Rightarrow> string list \<Rightarrow> int \<Rightarrow> int option" where
  "boundEpoch sha256 b64dec clientDataHash blinded epochId =
     (case jstr clientDataHash of
        None \<Rightarrow> None
      | Some h \<Rightarrow>
          let got = b64dec h in
          if length got \<noteq> 32 then None
          else find (\<lambda>candidate. got = expectedClientDataHash sha256 b64dec candidate blinded) [epochId, epochId - 1])"

section \<open>Logging\<close>

text \<open>
  The fields handed to \<open>log\<close>, \<open>JUndef\<close> where absent; \<open>durationMs\<close> is a difference of clock readings, an
  integer where present.
\<close>

record log_fields =
  lf_route :: jv
  lf_status :: jv
  lf_durationMs :: "int option"
  lf_reason :: jv
  lf_proofMode :: jv
  lf_attestFailure :: jv
  lf_issued :: jv
  lf_count :: jv
  lf_epoch :: jv
  lf_event :: jv
  lf_appAttest :: jv
  lf_signingKey :: jv

definition no_fields :: log_fields where
  "no_fields = \<lparr>lf_route = JUndef, lf_status = JUndef, lf_durationMs = None, lf_reason = JUndef, lf_proofMode = JUndef,
     lf_attestFailure = JUndef, lf_issued = JUndef, lf_count = JUndef, lf_epoch = JUndef, lf_event = JUndef,
     lf_appAttest = JUndef, lf_signingKey = JUndef\<rparr>"

definition issuer_reasons :: "string list" where
  "issuer_reasons = [''bad_json'', ''missing_keyid'', ''bad_batch_size'', ''attest_failed'', ''client_data_binding_failed'',
     ''quota_exceeded'', ''bad_blinded_type'', ''bad_blinded_len'', ''no_signing_key'', ''blind_sign_error'',
     ''state_unavailable'', ''unhandled'']"

definition attest_failures :: "string list" where
  "attest_failures = [''configuration'', ''client_data'', ''proof_format'', ''unknown_device_key'', ''state_unavailable'',
     ''key_binding'', ''counter'', ''expired_epoch'', ''quota'', ''environment'', ''app_identity'', ''assertion_signature'',
     ''certificate_chain'', ''nonce_binding'', ''verification'']"

definition issuer_safeLogFields :: "int \<Rightarrow> log_fields \<Rightarrow> (string \<times> jv) list" where
  "issuer_safeLogFields MAX_TOKENS_PER_REQUEST f =
     (if lf_route f \<noteq> JUndef
      then [(''route'', if includes_str [''/health'', ''/issuer-keys'', ''/issue''] (lf_route f) then lf_route f else JStr ''other'')]
      else [])
     @ (if int_between 100 599 (lf_status f) then [(''status'', lf_status f)] else [])
     @ (case lf_durationMs f of None \<Rightarrow> [] | Some d \<Rightarrow> [(''durationMs'', JInt (max 0 d))])
     @ (if includes_str issuer_reasons (lf_reason f) then [(''reason'', lf_reason f)] else [])
     @ (if includes_str [''attestation'', ''assertion'', ''missing''] (lf_proofMode f) then [(''proofMode'', lf_proofMode f)] else [])
     @ (if includes_str attest_failures (lf_attestFailure f) then [(''attestFailure'', lf_attestFailure f)] else [])
     @ (if int_between 0 MAX_TOKENS_PER_REQUEST (lf_issued f) then [(''issued'', lf_issued f)] else [])
     @ (if int_between 0 MAX_TOKENS_PER_REQUEST (lf_count f) then [(''count'', lf_count f)] else [])
     @ (if isSafeInteger (lf_epoch f) \<and> 0 \<le> jint (lf_epoch f) then [(''epoch'', lf_epoch f)] else [])
     @ (if lf_event f = JStr ''listen''
        then [(''event'', JStr ''listen''), (''role'', JStr ''token-issuer''),
              (''appAttest'', JStr (if lf_appAttest f = JStr ''enforced'' then ''enforced'' else ''stub-fail-closed'')),
              (''signingKey'', JStr (if lf_signingKey f = JStr ''present'' then ''present'' else ''missing-fail-closed''))]
        else [])"

section \<open>Responses and configuration\<close>

record response =
  rs_status :: int
  rs_headers :: "(string \<times> string) list"
  rs_body :: jv

definition plain :: "int \<Rightarrow> response" where
  "plain status = \<lparr>rs_status = status, rs_headers = [], rs_body = JUndef\<rparr>"

definition json_type :: "string \<times> string" where
  "json_type = (''Content-Type'', ''application/json'')"

definition error_body :: "string \<Rightarrow> jv" where
  "error_body e = JObj [(''error'', JStr e)]"

text \<open>
  The service's configuration and collaborators: \<open>is_jparse\<close> is \<open>JSON.parse(body.toString('utf8'))\<close>,
  \<open>is_privateDecrypt\<close> and \<open>is_publicEncrypt\<close> the raw RSA operations.
\<close>

record ('c, 'e, 'k) issuer_env =
  is_attest :: "('c, 'e) attest_env"
  is_keys :: "'k node_keys"
  is_provider :: provider
  is_privateDecrypt :: "'k \<Rightarrow> bytes \<Rightarrow> bytes option"
  is_publicEncrypt :: "'k \<Rightarrow> bytes \<Rightarrow> bytes option"
  is_jparse :: "bytes \<Rightarrow> jv option"
  is_epochSeconds :: int
  is_quota :: int
  is_maxTokens :: int
  is_requireBinding :: bool
  is_maxBody :: nat
  is_keyFor :: "string \<Rightarrow> string"
  is_fdid :: string
  is_fdidHeader :: string

text \<open>The clock readings of one request, in the order they are taken, and the random commit id.\<close>

record issue_clock =
  ck_now :: int
  ck_keys :: int
  ck_imported :: int
  ck_chain :: int
  ck_retry :: int
  ck_commit :: string

text \<open>The loop over \<open>blinded\<close>; \<open>Inl\<close> is the reason of a 400.\<close>

fun decode_blinded :: "(string \<Rightarrow> bytes) \<Rightarrow> nat \<Rightarrow> jv list \<Rightarrow> string + (string \<times> bytes) list" where
  "decode_blinded b64dec n [] = Inr []"
| "decode_blinded b64dec n (b # bs) =
     (case jstr b of
        None \<Rightarrow> Inl ''bad_blinded_type''
      | Some s \<Rightarrow>
          if length (b64dec s) \<noteq> n then Inl ''bad_blinded_len''
          else map_sum id (\<lambda>r. (s, b64dec s) # r) (decode_blinded b64dec n bs))"

fun blind_all :: "(bytes \<Rightarrow> bytes option) \<Rightarrow> bytes list \<Rightarrow> bytes list option" where
  "blind_all sign [] = Some []"
| "blind_all sign (b # bs) =
     (case sign b of None \<Rightarrow> None | Some s \<Rightarrow> map_option (\<lambda>r. s # r) (blind_all sign bs))"

definition RSA_MODULUS_BITS :: nat where
  "RSA_MODULUS_BITS = 2048"

definition issue_log :: "int \<Rightarrow> string \<Rightarrow> log_fields" where
  "issue_log status reason = no_fields\<lparr>lf_route := JStr ''/issue'', lf_status := JInt status, lf_reason := JStr reason\<rparr>"

section \<open>handleIssue\<close>

text \<open>
  The handler in four parts, in the order of the code: the shape checks, the binding with the key lookup,
  the attestation, and the reservation with the signatures (defined from the last to the first). Each branch writes one response and
  one log entry (durations left out); \<open>None\<close> is a request that never gets an answer because the DER
  walk does not return. \<open>others\<close> is what other requests do to the store at the awaits of \<open>reserve\<close>.
\<close>

definition issue_sign :: "('c, 'e, 'k) issuer_env \<Rightarrow> int \<Rightarrow> int \<Rightarrow> 'k epoch_entry \<Rightarrow> bytes list \<Rightarrow> response \<times> log_fields" where
  "issue_sign I epochId signingEpochId keys bufs =
     (case blind_all (blindSign (is_privateDecrypt I) (is_publicEncrypt I) keys) bufs of
        None \<Rightarrow> (plain 500, issue_log 500 ''blind_sign_error'')
      | Some sigs \<Rightarrow>
          (\<lparr>rs_status = 200, rs_headers = [json_type],
            rs_body = JObj [(''epoch'', JInt signingEpochId), (''keyId'', JStr (ek_keyId keys)),
              (''blindSigs'', JArr (map (\<lambda>g. JStr (ae_b64enc (is_attest I) g)) sigs))]\<rparr>,
           no_fields\<lparr>lf_route := JStr ''/issue'', lf_status := JInt 200, lf_issued := JInt (int (length sigs)),
             lf_epoch := JInt epochId\<rparr>))"

definition issue_refused :: "('c, 'e, 'k) issuer_env \<Rightarrow> int \<Rightarrow> int \<Rightarrow> string \<Rightarrow> string \<Rightarrow> nat \<Rightarrow> response \<times> log_fields" where
  "issue_refused I epochId now mode reason n =
     (let limited = (reason = ''quota_exceeded'');
          retryAfter = max 1 ((epochId + 1) * is_epochSeconds I - now div 1000);
          status = (if limited then 429 else 401) in
      (\<lparr>rs_status = status,
        rs_headers = json_type # (if limited then [(''Retry-After'', js_int_string retryAfter)] else []),
        rs_body = error_body (if limited then ''quota_exceeded''
          else if reason = ''unknown_device_key'' then ''unknown_device_key'' else ''attest_failed'')\<rparr>,
       (issue_log status (if limited then ''quota_exceeded'' else ''attest_failed''))
         \<lparr>lf_proofMode := JStr mode, lf_attestFailure := JStr (attestationFailureCategory reason None),
          lf_count := JInt (int n)\<rparr>))"

definition issue_reserve :: "('c, 'e, 'k) issuer_env
    \<Rightarrow> ('s \<Rightarrow> string \<Rightarrow> (state_error + (string \<times> jv) option) \<times> 's)
    \<Rightarrow> ('s \<Rightarrow> string \<Rightarrow> string option \<Rightarrow> jv \<Rightarrow> (state_error + bool) \<times> 's)
    \<Rightarrow> (nat \<Rightarrow> 's \<Rightarrow> 's) \<Rightarrow> issue_clock \<Rightarrow> int \<Rightarrow> int \<Rightarrow> 'k epoch_entry \<Rightarrow> bytes list \<Rightarrow> reserve_request \<Rightarrow> 's
    \<Rightarrow> (response \<times> log_fields) \<times> 's" where
  "issue_reserve I bget bput others ck epochId signingEpochId keys bufs q s =
     (case reserve bget bput others (is_quota I) (is_keyFor I) q (ck_commit ck) s of
        (Inl e, s') \<Rightarrow>
          ((\<lparr>rs_status = 503, rs_headers = [json_type, (''Retry-After'', ''2'')], rs_body = error_body ''state_unavailable''\<rparr>,
            issue_log 503 ''state_unavailable''), s')
      | (Inr (ReserveFail reason), s') \<Rightarrow> (issue_refused I epochId (ck_retry ck) (rq_mode q) reason (length bufs), s')
      | (Inr ReserveOk, s') \<Rightarrow> (issue_sign I epochId signingEpochId keys bufs, s'))"

definition attest_denied :: "jv \<Rightarrow> jv \<Rightarrow> string \<Rightarrow> string option \<Rightarrow> response \<times> log_fields" where
  "attest_denied attestation assertion reason detail =
     (let unavailable = (reason = ''state_unavailable''); status = (if unavailable then 503 else 401) in
      (\<lparr>rs_status = status, rs_headers = json_type # (if unavailable then [(''Retry-After'', ''2'')] else []),
        rs_body = error_body (if unavailable then ''state_unavailable''
          else if reason = ''unknown_device_key'' then ''unknown_device_key'' else ''attest_failed'')\<rparr>,
       (issue_log status (if unavailable then ''state_unavailable'' else ''attest_failed''))
         \<lparr>lf_proofMode := JStr (if truthy attestation then ''attestation'' else if truthy assertion then ''assertion'' else ''missing''),
          lf_attestFailure := JStr (attestationFailureCategory reason detail)\<rparr>))"

definition issue_attest :: "('c, 'e, 'k) issuer_env
    \<Rightarrow> ('s \<Rightarrow> string \<Rightarrow> (state_error + (string \<times> jv) option) \<times> 's)
    \<Rightarrow> ('s \<Rightarrow> string \<Rightarrow> string option \<Rightarrow> jv \<Rightarrow> (state_error + bool) \<times> 's)
    \<Rightarrow> (nat \<Rightarrow> 's \<Rightarrow> 's) \<Rightarrow> issue_clock \<Rightarrow> jv \<Rightarrow> int \<Rightarrow> int \<Rightarrow> 'k epoch_entry \<Rightarrow> bytes list \<Rightarrow> 's
    \<Rightarrow> (response \<times> log_fields) option \<times> 's" where
  "issue_attest I bget bput others ck parsed epochId signingEpochId keys bufs s =
     (case validateAppAttest (is_attest I) (ck_chain ck) (Some (\<lambda>s k. getAttestedKey bget (is_keyFor I) k s))
             (jget parsed ''keyId'') (jget parsed ''attestation'') (jget parsed ''assertion'')
             (jget parsed ''clientDataHash'') s of
        (None, s') \<Rightarrow> (None, s')
      | (Some (AttestFail reason detail), s') \<Rightarrow>
          (Some (attest_denied (jget parsed ''attestation'') (jget parsed ''assertion'') reason detail), s')
      | (Some (AttestOk mode keyId pem cnt), s') \<Rightarrow>
          apfst Some (issue_reserve I bget bput others ck epochId signingEpochId keys bufs
            \<lparr>rq_keyId = keyId, rq_mode = mode, rq_pem = pem, rq_signCount = int cnt, rq_epoch = epochId,
             rq_count = int (length bufs)\<rparr> s'))"

definition issue_bind :: "('c, 'e, 'k) issuer_env
    \<Rightarrow> ('s \<Rightarrow> string \<Rightarrow> (state_error + (string \<times> jv) option) \<times> 's)
    \<Rightarrow> ('s \<Rightarrow> string \<Rightarrow> string option \<Rightarrow> jv \<Rightarrow> (state_error + bool) \<times> 's)
    \<Rightarrow> (nat \<Rightarrow> 's \<Rightarrow> 's) \<Rightarrow> issue_clock \<Rightarrow> jv \<Rightarrow> (string \<times> bytes) list \<Rightarrow> 's
    \<Rightarrow> (response \<times> log_fields) option \<times> 's" where
  "issue_bind I bget bput others ck parsed items s =
     (let epochId = currentEpoch (is_epochSeconds I) (ck_now ck) in
      case (if is_requireBinding I
            then boundEpoch (ae_sha256 (is_attest I)) (ae_b64dec (is_attest I)) (jget parsed ''clientDataHash'')
                   (map fst items) epochId
            else Some epochId) of
        None \<Rightarrow> (Some (plain 401, issue_log 401 ''client_data_binding_failed''), s)
      | Some signingEpochId \<Rightarrow>
          (case keysForEpoch (is_keys I) (is_provider I) (currentEpoch (is_epochSeconds I) (ck_keys ck))
                  (currentEpoch (is_epochSeconds I) (ck_imported ck)) signingEpochId of
             Inl e \<Rightarrow> (Some (plain 503, issue_log 503 ''no_signing_key''), s)
           | Inr keys \<Rightarrow> issue_attest I bget bput others ck parsed epochId signingEpochId keys (map snd items) s))"

definition handleIssue :: "('c, 'e, 'k) issuer_env
    \<Rightarrow> ('s \<Rightarrow> string \<Rightarrow> (state_error + (string \<times> jv) option) \<times> 's)
    \<Rightarrow> ('s \<Rightarrow> string \<Rightarrow> string option \<Rightarrow> jv \<Rightarrow> (state_error + bool) \<times> 's)
    \<Rightarrow> (nat \<Rightarrow> 's \<Rightarrow> 's) \<Rightarrow> issue_clock \<Rightarrow> bytes \<Rightarrow> 's \<Rightarrow> (response \<times> log_fields) option \<times> 's" where
  "handleIssue I bget bput others ck body s =
     (let bad = (\<lambda>reason. (Some (plain 400, issue_log 400 reason), s)) in
      case is_jparse I body of
        None \<Rightarrow> bad ''bad_json''
      | Some parsed0 \<Rightarrow>
          let parsed = (if truthy parsed0 then parsed0 else JObj []) in
          if jstr (jget parsed ''keyId'') \<in> {None, Some []} then bad ''missing_keyid''
          else (case jarr (jget parsed ''blinded'') of
            None \<Rightarrow> bad ''bad_batch_size''
          | Some blinded \<Rightarrow>
              if length blinded < 1 \<or> int (length blinded) > is_maxTokens I then bad ''bad_batch_size''
              else (case decode_blinded (ae_b64dec (is_attest I)) (RSA_MODULUS_BITS div 8) blinded of
                Inl reason \<Rightarrow> bad reason
              | Inr items \<Rightarrow>
                  issue_bind I bget bput others ck parsed items s)))"

section \<open>handleIssuerKeys\<close>

text \<open>The loop over the two epochs, each with the epochs its lookup reads at the call and after the import.\<close>

fun issuer_keys :: "'k node_keys \<Rightarrow> provider \<Rightarrow> (int \<times> int \<times> int) list \<Rightarrow> epoch_error + jv list" where
  "issuer_keys N P [] = Inr []"
| "issuer_keys N P ((i, now, later) # is) =
     (case keysForEpoch N P now later i of
        Inl e \<Rightarrow> Inl e
      | Inr k \<Rightarrow> map_sum id (\<lambda>r. JObj [(''epoch'', JInt i), (''keyId'', JStr (ek_keyId k)),
                                       (''publicKeySpki'', JStr (spkiB64 k))] # r)
                   (issuer_keys N P is))"

definition handleIssuerKeys :: "('c, 'e, 'k) issuer_env \<Rightarrow> int \<Rightarrow> int \<times> int \<Rightarrow> int \<times> int \<Rightarrow> response \<times> log_fields" where
  "handleIssuerKeys I now current previous =
     (let epochId = currentEpoch (is_epochSeconds I) now in
      case issuer_keys (is_keys I) (is_provider I) [(epochId, current), (epochId - 1, previous)] of
        Inl e \<Rightarrow> (plain 503, no_fields\<lparr>lf_route := JStr ''/issuer-keys'', lf_status := JInt 503, lf_reason := JStr ''no_signing_key''\<rparr>)
      | Inr keys \<Rightarrow>
          (\<lparr>rs_status = 200, rs_headers = [json_type],
            rs_body = JObj [(''schemaVersion'', JInt 1), (''suite'', JStr ''RSABSSA-SHA384-PSS-Deterministic''),
              (''epoch'', JInt epochId), (''epochSeconds'', JInt (is_epochSeconds I)), (''keys'', JArr keys)]\<rparr>,
           no_fields\<lparr>lf_route := JStr ''/issuer-keys'', lf_status := JInt 200, lf_epoch := JInt epochId\<rparr>))"

section \<open>The request handler\<close>

text \<open>
  The \<open>data\<close> events of a request: the bytes received, or \<open>None\<close> once the limit is passed (the request is
  answered 413 and destroyed).
\<close>

fun collect_body :: "nat \<Rightarrow> nat \<Rightarrow> bytes list \<Rightarrow> bytes option" where
  "collect_body limit received [] = Some []"
| "collect_body limit received (c # cs) =
     (if received + length c > limit then None
      else map_option (\<lambda>r. c @ r) (collect_body limit (received + length c) cs))"

datatype action =
    Refuse int
  | Answer response
  | RunIssuerKeys
  | RunIssue bytes

definition health_ok :: response where
  "health_ok = \<lparr>rs_status = 200, rs_headers = [(''Content-Type'', ''text/plain'')], rs_body = JStr ''ok''\<rparr>"

text \<open>
  What the server does with a request: \<open>drain0\<close> and \<open>drain1\<close> are the values of \<open>draining\<close> at its arrival
  and at the end of its body, \<open>chunks\<close> the body as it arrives.
\<close>

definition issuer_route :: "('c, 'e, 'k) issuer_env \<Rightarrow> bool \<Rightarrow> bool \<Rightarrow> request \<Rightarrow> bytes list \<Rightarrow> action" where
  "issuer_route I drain0 drain1 req chunks =
     (if drain0 then Refuse 503
      else if is_fdid I \<noteq> [] \<and> \<not> fdidExempt req (url_path (req_url req))
              \<and> \<not> frontDoorAllowed (ae_sha256 (is_attest I)) (is_fdid I) (is_fdidHeader I) req then Refuse 403
      else if req_method req = ''GET'' \<and> req_url req = ''/health'' then Answer health_ok
      else if req_method req = ''GET'' \<and> req_url req = ''/issuer-keys'' then RunIssuerKeys
      else if req_method req = ''POST'' \<and> req_url req = ''/issue'' then
        (if media_type (req_headers req ''content-type'') \<noteq> ''application/json'' then Refuse 415
         else case collect_body (is_maxBody I) 0 chunks of
           None \<Rightarrow> Refuse 413
         | Some body \<Rightarrow> if drain1 then Refuse 503 else RunIssue body)
      else Refuse 404)"

section \<open>Properties\<close>

lemma collect_body_eq:
  "received \<le> limit \<Longrightarrow> collect_body limit received cs =
     (if received + length (concat cs) \<le> limit then Some (concat cs) else None)"
  by (induction cs arbitrary: received) (auto simp: add.assoc)

text \<open>
  C25. Which requests reach a handler: \<open>/issue\<close> is run only by a POST to exactly that path, through the
  front door if the lock is set, with a JSON media type, while not draining, and with the whole body,
  which is within the limit; \<open>/issuer-keys\<close> only by a GET to exactly that path. Everything else is
  refused or is the health probe.
\<close>

theorem issuer_route_guards:
  "(issuer_route I d0 d1 req chunks = RunIssue body \<longleftrightarrow>
      \<not> d0 \<and> \<not> d1 \<and> req_method req = ''POST'' \<and> req_url req = ''/issue''
      \<and> (is_fdid I = [] \<or> frontDoorAllowed (ae_sha256 (is_attest I)) (is_fdid I) (is_fdidHeader I) req)
      \<and> media_type (req_headers req ''content-type'') = ''application/json''
      \<and> body = concat chunks \<and> length body \<le> is_maxBody I)
   \<and> (issuer_route I d0 d1 req chunks = RunIssuerKeys \<longleftrightarrow> \<not> d0 \<and> req_method req = ''GET'' \<and> req_url req = ''/issuer-keys'')"
proof -
  have p: "url_path ''/issuer-keys'' = ''/issuer-keys''" "url_path ''/issue'' = ''/issue''" by (simp_all add: url_path_def)
  have c: "collect_body m 0 chunks = Some b \<longleftrightarrow> b = concat chunks \<and> length b \<le> m" for m b
    by (auto simp: collect_body_eq)
  show ?thesis
    by (cases "collect_body (is_maxBody I) 0 chunks")
       (auto simp: issuer_route_def fdidExempt_def p c [symmetric])
qed

definition issuer_log_words :: "string list" where
  "issuer_log_words = [''/health'', ''/issuer-keys'', ''/issue'', ''other'', ''attestation'', ''assertion'', ''missing'',
     ''listen'', ''token-issuer'', ''enforced'', ''stub-fail-closed'', ''present'', ''missing-fail-closed'']
     @ issuer_reasons @ attest_failures"

interpretation issuer_log: closed_log "issuer_safeLogFields m" issuer_log_words for m
proof unfold_locales
  fix f
  have w: "set issuer_reasons \<subseteq> set issuer_log_words" "set attest_failures \<subseteq> set issuer_log_words"
    "set [''/health'', ''/issuer-keys'', ''/issue''] \<subseteq> set issuer_log_words"
    "set [''attestation'', ''assertion'', ''missing''] \<subseteq> set issuer_log_words"
    "set [''other'', ''listen'', ''token-issuer'', ''enforced'', ''stub-fail-closed'', ''present'', ''missing-fail-closed''] \<subseteq> set issuer_log_words"
    by (auto simp: issuer_log_words_def)
  note words = includes_str_words [OF _ w(1)] includes_str_words [OF _ w(2)] includes_str_words [OF _ w(3)]
    includes_str_words [OF _ w(4)]
  show "snd ` set (issuer_safeLogFields m f) \<subseteq> range JInt \<union> range JBool \<union> JStr ` set issuer_log_words"
    using w(5) by (auto simp: issuer_safeLogFields_def isSafeInteger_iff dest: int_between_int words split: option.splits)
qed

text \<open>Every failure of attestation or reservation has a category that passes the filter.\<close>

lemma attestationFailureCategory_logged: "attestationFailureCategory reason detail \<in> set attest_failures"
proof (cases "map_of failure_reasons reason")
  case None
  then show ?thesis by (simp add: attestationFailureCategory_def attest_failures_def Let_def)
next
  case (Some c)
  then have "c \<in> snd ` set failure_reasons" by (metis map_of_SomeD imageI snd_conv)
  then have "c \<in> set attest_failures" by (auto simp: failure_reasons_def attest_failures_def)
  then show ?thesis by (simp add: attestationFailureCategory_def Some)
qed

lemma decode_blinded_ok:
  "decode_blinded b64dec n bs = Inr items \<Longrightarrow>
     bs = map (JStr \<circ> fst) items \<and> (\<forall>(s, b) \<in> set items. b = b64dec s \<and> length b = n)"
  by (induction bs arbitrary: items) (fastforce split: option.splits if_splits)+

lemma blind_all_ok:
  "blind_all sign bs = Some sigs \<longleftrightarrow> list_all2 (\<lambda>b g. sign b = Some g) bs sigs"
proof (induction bs arbitrary: sigs)
  case Nil
  then show ?case by (cases sigs) auto
next
  case (Cons b bs)
  then show ?case by (cases sigs) (auto split: option.splits)
qed

lemma blindSign_ok:
  "blindSign pd pe entry m = Some g \<longleftrightarrow> pd (signer entry) m = Some g \<and> pe (signer entry) g = Some m \<and> length g = length m"
  by (auto simp: blindSign_def split: option.splits)

lemma boundEpoch_ok:
  assumes "boundEpoch sha256 b64dec h blinded e = Some e'"
  shows "e' \<in> {e, e - 1} \<and> (\<exists>s. h = JStr s \<and> b64dec s = expectedClientDataHash sha256 b64dec e' blinded)"
  using assms by (auto simp: boundEpoch_def Let_def split: option.splits if_splits)

lemma issue_attest_200:
  assumes "issue_attest I bget bput others ck parsed e se keys bufs s = (Some (rsp, lg), s')" "rs_status rsp = 200"
  obtains mode kid pem cnt s1 sigs where
    "validateAppAttest (is_attest I) (ck_chain ck) (Some (\<lambda>s k. getAttestedKey bget (is_keyFor I) k s))
       (jget parsed ''keyId'') (jget parsed ''attestation'') (jget parsed ''assertion'') (jget parsed ''clientDataHash'') s
     = (Some (AttestOk mode kid pem cnt), s1)"
    "reserve bget bput others (is_quota I) (is_keyFor I)
       \<lparr>rq_keyId = kid, rq_mode = mode, rq_pem = pem, rq_signCount = int cnt, rq_epoch = e, rq_count = int (length bufs)\<rparr>
       (ck_commit ck) s1 = (Inr ReserveOk, s')"
    "blind_all (blindSign (is_privateDecrypt I) (is_publicEncrypt I) keys) bufs = Some sigs"
    "rs_body rsp = JObj [(''epoch'', JInt se), (''keyId'', JStr (ek_keyId keys)),
       (''blindSigs'', JArr (map (\<lambda>g. JStr (ae_b64enc (is_attest I) g)) sigs))]"
proof -
  let ?v = "validateAppAttest (is_attest I) (ck_chain ck) (Some (\<lambda>s k. getAttestedKey bget (is_keyFor I) k s))
       (jget parsed ''keyId'') (jget parsed ''attestation'') (jget parsed ''assertion'') (jget parsed ''clientDataHash'') s"
  obtain r s1 where v: "?v = (r, s1)" by (rule prod.exhaust)
  from assms v obtain mode kid pem cnt where r: "r = Some (AttestOk mode kid pem cnt)"
    by (auto simp: issue_attest_def attest_denied_def Let_def split: option.splits attest_result.splits if_splits)
  let ?q = "\<lparr>rq_keyId = kid, rq_mode = mode, rq_pem = pem, rq_signCount = int cnt, rq_epoch = e, rq_count = int (length bufs)\<rparr>"
  from assms v r have res: "issue_reserve I bget bput others ck e se keys bufs ?q s1 = ((rsp, lg), s')"
    by (auto simp: issue_attest_def apfst_def map_prod_def split: prod.splits)
  obtain x s2 where x: "reserve bget bput others (is_quota I) (is_keyFor I) ?q (ck_commit ck) s1 = (x, s2)"
    by (rule prod.exhaust)
  from res x assms(2) have "x = Inr ReserveOk \<and> s2 = s' \<and> issue_sign I e se keys bufs = (rsp, lg)"
    by (auto simp: issue_reserve_def issue_refused_def Let_def split: sum.splits reserve_result.splits if_splits)
  moreover from this assms(2) obtain sigs where "blind_all (blindSign (is_privateDecrypt I) (is_publicEncrypt I) keys) bufs = Some sigs"
    "rs_body rsp = JObj [(''epoch'', JInt se), (''keyId'', JStr (ek_keyId keys)),
       (''blindSigs'', JArr (map (\<lambda>g. JStr (ae_b64enc (is_attest I) g)) sigs))]"
    by (auto simp: issue_sign_def plain_def split: option.splits)
  ultimately show thesis using that [of mode kid pem cnt s1 sigs] v r x by auto
qed

lemma issue_bind_200:
  assumes "issue_bind I bget bput others ck parsed items s = (Some (rsp, lg), s')" "rs_status rsp = 200"
    and e: "e = currentEpoch (is_epochSeconds I) (ck_now ck)"
  obtains se keys where "se \<in> {e, e - 1}"
    "is_requireBinding I \<longrightarrow> (\<exists>h. jget parsed ''clientDataHash'' = JStr h \<and> ae_b64dec (is_attest I) h =
         expectedClientDataHash (ae_sha256 (is_attest I)) (ae_b64dec (is_attest I)) se (map fst items))"
    "keysForEpoch (is_keys I) (is_provider I) (currentEpoch (is_epochSeconds I) (ck_keys ck))
        (currentEpoch (is_epochSeconds I) (ck_imported ck)) se = Inr keys"
    "issue_attest I bget bput others ck parsed e se keys (map snd items) s = (Some (rsp, lg), s')"
proof -
  let ?b = "if is_requireBinding I then boundEpoch (ae_sha256 (is_attest I)) (ae_b64dec (is_attest I))
      (jget parsed ''clientDataHash'') (map fst items) e else Some e"
  obtain se where b: "?b = Some se"
    using assms(1,2) by (cases ?b) (auto simp: issue_bind_def plain_def Let_def e [symmetric])
  obtain keys where k: "keysForEpoch (is_keys I) (is_provider I) (currentEpoch (is_epochSeconds I) (ck_keys ck))
        (currentEpoch (is_epochSeconds I) (ck_imported ck)) se = Inr keys"
    using assms(1,2) by (auto simp: issue_bind_def plain_def Let_def e [symmetric] b split: sum.splits)
  have "issue_attest I bget bput others ck parsed e se keys (map snd items) s = (Some (rsp, lg), s')"
    using assms(1) by (simp add: issue_bind_def Let_def e [symmetric] b k)
  moreover have "se \<in> {e, e - 1}" "is_requireBinding I \<longrightarrow> (\<exists>h. jget parsed ''clientDataHash'' = JStr h
      \<and> ae_b64dec (is_attest I) h =
         expectedClientDataHash (ae_sha256 (is_attest I)) (ae_b64dec (is_attest I)) se (map fst items))"
    using b by (auto split: if_splits dest: boundEpoch_ok)
  ultimately show thesis using that k by blast
qed

lemma handleIssue_200:
  assumes h: "handleIssue I bget bput others ck body s = (Some (rsp, lg), s')" and ok: "rs_status rsp = 200"
  obtains p0 blinded items where "is_jparse I body = Some p0"
    "jget p0 ''blinded'' = JArr blinded" "1 \<le> length blinded" "int (length blinded) \<le> is_maxTokens I"
    "decode_blinded (ae_b64dec (is_attest I)) 256 blinded = Inr items"
    "issue_bind I bget bput others ck p0 items s = (Some (rsp, lg), s')"
proof -
  obtain p0 where p: "is_jparse I body = Some p0"
    using h ok by (auto simp: handleIssue_def plain_def split: option.splits)
  define P where "P = (if truthy p0 then p0 else JObj [])"
  note h1 = h [unfolded handleIssue_def Let_def p option.case, folded P_def]
  obtain blinded where bl: "jget P ''blinded'' = JArr blinded" "1 \<le> length blinded" "int (length blinded) \<le> is_maxTokens I"
    using h1 ok by (auto simp: plain_def not_less Suc_le_eq split: if_splits option.splits)
  have P: "P = p0" using bl(1) by (auto simp: P_def split: if_splits)
  obtain items where it: "decode_blinded (ae_b64dec (is_attest I)) 256 blinded = Inr items"
      "issue_bind I bget bput others ck P items s = (Some (rsp, lg), s')"
    using h1 ok bl by (auto simp: plain_def RSA_MODULUS_BITS_def split: if_splits sum.splits)
  with p bl show thesis unfolding P by (rule that)
qed

text \<open>
  C24. A 200 from \<open>/issue\<close> means that all of this held: between one and the maximum number of blinded
  messages of exactly 256 bytes; where binding is required, a client data hash that commits to this very
  batch in the current or the previous epoch; a signing key that is live for that epoch; an accepted
  attestation or assertion; a committed reservation of as many tokens as were asked for; and in the body,
  in order, one signature per message, each of which opens to its message under the key whose id is
  returned.
\<close>

theorem issue_ok_sound:
  assumes h: "handleIssue I bget bput others ck body s = (Some (rsp, lg), s')" and ok: "rs_status rsp = 200"
  shows "\<exists>parsed items e se keys mode kid pem cnt s1 sigs.
    is_jparse I body = Some parsed \<and> jget parsed ''blinded'' = JArr (map (JStr \<circ> fst) items)
    \<and> 1 \<le> length items \<and> int (length items) \<le> is_maxTokens I
    \<and> (\<forall>(t, b) \<in> set items. b = ae_b64dec (is_attest I) t \<and> length b = 256)
    \<and> e = currentEpoch (is_epochSeconds I) (ck_now ck) \<and> se \<in> {e, e - 1}
    \<and> (is_requireBinding I \<longrightarrow> (\<exists>h. jget parsed ''clientDataHash'' = JStr h \<and> ae_b64dec (is_attest I) h =
         expectedClientDataHash (ae_sha256 (is_attest I)) (ae_b64dec (is_attest I)) se (map fst items)))
    \<and> keysForEpoch (is_keys I) (is_provider I) (currentEpoch (is_epochSeconds I) (ck_keys ck))
        (currentEpoch (is_epochSeconds I) (ck_imported ck)) se = Inr keys
    \<and> validateAppAttest (is_attest I) (ck_chain ck) (Some (\<lambda>s k. getAttestedKey bget (is_keyFor I) k s))
        (jget parsed ''keyId'') (jget parsed ''attestation'') (jget parsed ''assertion'') (jget parsed ''clientDataHash'') s
      = (Some (AttestOk mode kid pem cnt), s1)
    \<and> reserve bget bput others (is_quota I) (is_keyFor I)
        \<lparr>rq_keyId = kid, rq_mode = mode, rq_pem = pem, rq_signCount = int cnt, rq_epoch = e, rq_count = int (length items)\<rparr>
        (ck_commit ck) s1 = (Inr ReserveOk, s')
    \<and> list_all2 (\<lambda>(t, b) g. is_publicEncrypt I (signer keys) g = Some b) items sigs
    \<and> rs_body rsp = JObj [(''epoch'', JInt se), (''keyId'', JStr (ek_keyId keys)),
        (''blindSigs'', JArr (map (\<lambda>g. JStr (ae_b64enc (is_attest I) g)) sigs))]"
proof -
  let ?A = "is_attest I" and ?e = "currentEpoch (is_epochSeconds I) (ck_now ck)"
  obtain p0 blinded items where p0: "is_jparse I body = Some p0"
    and bl: "jget p0 ''blinded'' = JArr blinded" "1 \<le> length blinded" "int (length blinded) \<le> is_maxTokens I"
    and it: "decode_blinded (ae_b64dec ?A) 256 blinded = Inr items"
    and bind: "issue_bind I bget bput others ck p0 items s = (Some (rsp, lg), s')"
    using h ok by (rule handleIssue_200)
  obtain se keys where se: "se \<in> {?e, ?e - 1}"
    "is_requireBinding I \<longrightarrow> (\<exists>h. jget p0 ''clientDataHash'' = JStr h \<and> ae_b64dec ?A h =
         expectedClientDataHash (ae_sha256 ?A) (ae_b64dec ?A) se (map fst items))"
    and k: "keysForEpoch (is_keys I) (is_provider I) (currentEpoch (is_epochSeconds I) (ck_keys ck))
        (currentEpoch (is_epochSeconds I) (ck_imported ck)) se = Inr keys"
    and a: "issue_attest I bget bput others ck p0 ?e se keys (map snd items) s = (Some (rsp, lg), s')"
    using bind ok refl by (rule issue_bind_200)
  note items = decode_blinded_ok [OF it]
  have len: "length items = length blinded" using items by simp
  obtain mode kid pem cnt s1 sigs where
    v: "validateAppAttest ?A (ck_chain ck) (Some (\<lambda>s k. getAttestedKey bget (is_keyFor I) k s))
       (jget p0 ''keyId'') (jget p0 ''attestation'') (jget p0 ''assertion'') (jget p0 ''clientDataHash'') s
     = (Some (AttestOk mode kid pem cnt), s1)"
    and r: "reserve bget bput others (is_quota I) (is_keyFor I)
       \<lparr>rq_keyId = kid, rq_mode = mode, rq_pem = pem, rq_signCount = int cnt, rq_epoch = ?e, rq_count = int (length (map snd items))\<rparr>
       (ck_commit ck) s1 = (Inr ReserveOk, s')"
    and b: "blind_all (blindSign (is_privateDecrypt I) (is_publicEncrypt I) keys) (map snd items) = Some sigs"
    and body: "rs_body rsp = JObj [(''epoch'', JInt se), (''keyId'', JStr (ek_keyId keys)),
       (''blindSigs'', JArr (map (\<lambda>g. JStr (ae_b64enc ?A g)) sigs))]"
    using issue_attest_200 [OF a ok] by blast
  have "list_all2 (\<lambda>b g. is_publicEncrypt I (signer keys) g = Some b) (map snd items) sigs"
    using b unfolding blind_all_ok by (rule list_all2_mono) (simp add: blindSign_ok)
  then have sg: "list_all2 (\<lambda>(t, b) g. is_publicEncrypt I (signer keys) g = Some b) items sigs"
    unfolding list_all2_map1 by (rule list_all2_mono) auto
  have "length (map snd items) = length items" by simp
  with p0 bl items len k v r sg body se show ?thesis by (metis (no_types, lifting))
qed

definition ex_issuer :: "(bytes, bytes, string) issuer_env" where
  "ex_issuer = \<lparr>is_attest = ex_env\<lparr>ae_b64dec := (\<lambda>s. if s = ''B'' then replicate 256 0 else ex_hash)\<rparr>, is_keys = ex_keys,
     is_provider = Manifest ex_records, is_privateDecrypt = (\<lambda>k m. Some m), is_publicEncrypt = (\<lambda>k m. Some m),
     is_jparse = (\<lambda>_. Some (JObj [(''keyId'', JStr ''k''), (''assertion'', JStr ''asr''), (''clientDataHash'', JStr ''c''),
       (''blinded'', JArr [JStr ''B''])])),
     is_epochSeconds = 1, is_quota = 256, is_maxTokens = 64, is_requireBinding = True, is_maxBody = 1000,
     is_keyFor = id, is_fdid = [], is_fdidHeader = ''x-azure-fdid''\<rparr>"

definition ex_clock :: issue_clock where
  "ex_clock = \<lparr>ck_now = 7000, ck_keys = 7000, ck_imported = 7001, ck_chain = 500, ck_retry = 7002, ck_commit = ''c1''\<rparr>"

definition ex_rows :: mem_backend where
  "ex_rows = \<lparr>mb_rows = [(''id'', (''1'', encode_record \<lparr>commitID = JStr ''c0'', publicKeyPem = ''pem'', signCount = 8,
     latestEpoch = 7, quota_of = []\<rparr>))], mb_revision = 1\<rparr>"

lemma ex_validate:
  "validateAppAttest (is_attest ex_issuer) 500 (Some (\<lambda>s k. getAttestedKey mem_get id k s)) (JStr ''k'') JUndef (JStr ''asr'')
     (JStr ''c'') ex_rows = (Some (AttestOk ''assertion'' ''id'' ''pem'' 9), ex_rows)"
  by code_simp

definition ex_request :: reserve_request where
  "ex_request = \<lparr>rq_keyId = ''id'', rq_mode = ''assertion'', rq_pem = ''pem'', rq_signCount = 9, rq_epoch = 7, rq_count = 1\<rparr>"

lemma ex_reserve: "fst (reserve mem_get (mem_put 10) (\<lambda>_ s. s) 256 id ex_request ''c1'' ex_rows) = Inr ReserveOk"
  by code_simp

lemma ex_signing_key: "\<exists>en. keysForEpoch ex_keys (Manifest ex_records) 7 7 7 = Inr en"
proof -
  have "keysForEpoch ex_keys (Manifest ex_records) 7 7 7
    = Inr \<lparr>signer = ''-----BEGIN a'', spkiB64 = hex_string (utf8_bytes ''-----BEGIN a''),
        ek_keyId = take 32 (hex_string (utf8_bytes ''-----BEGIN a''))\<rparr>" by code_simp
  then show ?thesis by blast
qed

theorem issue_ok_sound_witness:
  "\<exists>rsp lg s' sigs. handleIssue ex_issuer mem_get (mem_put 10) (\<lambda>_ s. s) ex_clock [] ex_rows = (Some (rsp, lg), s')
     \<and> rs_status rsp = 200 \<and> jget (rs_body rsp) ''blindSigs'' = JArr sigs"
proof -
  let ?h = "handleIssue ex_issuer mem_get (mem_put 10) (\<lambda>_ s. s) ex_clock [] ex_rows"
  obtain en where en: "keysForEpoch ex_keys (Manifest ex_records) 7 7 7 = Inr en" using ex_signing_key by blast
  obtain s1 where s1: "reserve mem_get (mem_put 10) (\<lambda>_ s. s) 256 id ex_request ''c1'' ex_rows = (Inr ReserveOk, s1)"
    using ex_reserve by (metis prod.collapse)
  have f: "is_keyFor ex_issuer = id" "is_quota ex_issuer = 256" "is_keys ex_issuer = ex_keys"
    "is_provider ex_issuer = Manifest ex_records" "is_epochSeconds ex_issuer = 1" "is_requireBinding ex_issuer"
    "ae_sha256 (is_attest ex_issuer) x = ex_hash" "ae_b64dec (is_attest ex_issuer) ''B'' = replicate 256 0"
    "ae_b64dec (is_attest ex_issuer) ''c'' = ex_hash" "length ex_hash = 32" "is_maxTokens ex_issuer = 64"
    "is_jparse ex_issuer y = Some (JObj [(''keyId'', JStr ''k''), (''assertion'', JStr ''asr''), (''clientDataHash'', JStr ''c''),
       (''blinded'', JArr [JStr ''B''])])" for x y
    by (simp_all add: ex_issuer_def ex_env_def ex_hash_def)
  have b: "issue_bind ex_issuer mem_get (mem_put 10) (\<lambda>_ s. s) ex_clock
      (JObj [(''keyId'', JStr ''k''), (''assertion'', JStr ''asr''), (''clientDataHash'', JStr ''c''), (''blinded'', JArr [JStr ''B''])])
      [(''B'', replicate 256 0)] ex_rows
    = (Some (issue_sign ex_issuer 7 7 en [replicate 256 0]), s1)"
    using ex_validate s1 by (simp add: issue_bind_def issue_attest_def issue_reserve_def boundEpoch_def f ex_clock_def currentEpoch_def en
        expectedClientDataHash_def ex_request_def)
  have "?h = (Some (issue_sign ex_issuer 7 7 en [replicate 256 0]), s1)"
    using b by (simp add: handleIssue_def RSA_MODULUS_BITS_def f)
  moreover have "rs_status (fst (issue_sign ex_issuer 7 7 en [replicate 256 0])) = 200"
    by (simp add: issue_sign_def blindSign_def ex_issuer_def)
  ultimately obtain rsp lg s' where h: "?h = (Some (rsp, lg), s')" and ok: "rs_status rsp = 200"
    by (metis prod.collapse)
  from issue_ok_sound [OF h ok] h ok show ?thesis by auto
qed

text \<open>Decimal digits are not the separator byte, so an epoch and a batch of 256-byte messages parse back uniquely.\<close>

lemma digit_utf8: "d < 10 \<Longrightarrow> utf8_char (digit_char d) = [of_nat (48 + d)]"
  by (simp add: utf8_char.simps Let_def)

lemma epoch_bytes_no_zero:
  assumes "0 \<le> e"
  shows "0 \<notin> set (utf8_bytes (js_int_string e))"
proof
  assume "0 \<in> set (utf8_bytes (js_int_string e))"
  then obtain c where "c \<in> set (js_nat_string (nat e))" "0 \<in> set (utf8_char c)"
    using assms by (auto simp: utf8_bytes_def js_int_string_def)
  then obtain d where "d < 10" "(0 :: byte) = of_nat (48 + d)"
    using js_nat_string_digits [of c "nat e"] by (auto simp: digit_utf8)
  then have "unat (0 :: byte) = 48 + d" using unat_of_nat_byte [of "48 + d"] by simp
  then show False by simp
qed

lemma takeWhile_sep: "x \<notin> set xs \<Longrightarrow> ys = [] \<or> hd ys = x \<Longrightarrow> takeWhile (\<lambda>y. y \<noteq> x) (xs @ ys) = xs"
  by (induction xs) (cases ys; auto)+

lemma blocks_inj:
  "\<forall>b \<in> set as \<union> set bs. length b = n \<Longrightarrow> concat (map (\<lambda>b. 0 # b) as) = concat (map (\<lambda>b. (0 :: byte) # b) bs) \<Longrightarrow> as = bs"
proof (induction as arbitrary: bs)
  case Nil
  then show ?case by (cases bs) auto
next
  case (Cons a as)
  then obtain b bs' where bs: "bs = b # bs'" by (cases bs) auto
  from Cons.prems(2) have "a @ concat (map (\<lambda>b. 0 # b) as) = b @ concat (map (\<lambda>b. 0 # b) bs')" by (simp add: bs)
  then have "a = b \<and> concat (map (\<lambda>b. 0 # b) as) = concat (map (\<lambda>b. 0 # b) bs')"
    using Cons.prems(1) by (simp add: bs)
  with Cons.IH [of bs'] Cons.prems(1) show ?case by (simp add: bs)
qed

text \<open>
  C25. The hashed client data are unambiguous: two different pairs of an epoch and a batch of 256-byte
  messages never have the same preimage. So a client data hash that was signed for one batch in one epoch
  matches no other batch and no other epoch, short of a collision of the hash function.
\<close>

theorem client_data_injective:
  assumes "0 \<le> e1" "0 \<le> e2" "\<forall>b \<in> set bs1 \<union> set bs2. length (b64dec b) = 256"
    and eq: "client_data b64dec e1 bs1 = client_data b64dec e2 bs2"
  shows "e1 = e2 \<and> map b64dec bs1 = map b64dec bs2"
proof -
  let ?t = "\<lambda>bs. concat (map (\<lambda>b. (0 :: byte) # b) (map b64dec bs))"
  have cd: "client_data b64dec e bs = utf8_bytes (js_int_string e) @ ?t bs" for e bs
    by (simp add: client_data_def comp_def)
  have tl: "?t bs = [] \<or> hd (?t bs) = 0" for bs by (cases bs) simp_all
  have "takeWhile (\<lambda>y. y \<noteq> 0) (client_data b64dec e bs) = utf8_bytes (js_int_string e)" if "0 \<le> e" for e bs
    unfolding cd using epoch_bytes_no_zero [OF that] tl by (intro takeWhile_sep)
  with assms(1,2) eq have e: "utf8_bytes (js_int_string e1) = utf8_bytes (js_int_string e2)" by metis
  with eq have "?t bs1 = ?t bs2" unfolding cd by simp
  then have "map b64dec bs1 = map b64dec bs2" using assms(3) by (intro blocks_inj [where n = 256]) auto
  with e show ?thesis by simp
qed

theorem client_data_injective_witness:
  "client_data (\<lambda>_. replicate 256 1) 7 [''x''] \<noteq> client_data (\<lambda>_. replicate 256 1) 8 [''x'']"
  using client_data_injective [of 7 8 "[''x'']" "[''x'']" "\<lambda>_. replicate 256 1"] by auto

end
