(* ===== verification/IssuerKeyCache.thy ===== *)
theory IssuerKeyCache
  imports RedemptionStore FrontDoor
begin

text \<open>
  The relay's cache of the issuer's public keys (\<^verbatim>\<open>ohttp-relay/issuer-key-cache.js\<close>): \<open>fetchDocument\<close>,
  \<open>parse\<close>, \<open>refresh\<close> and \<open>get\<close>. The cache is a record; the calls of \<open>get\<close> and the completion of the fetch
  are the steps of a relation, so that any number of callers interleave. Shown: a key is returned only
  inside the window its epoch gives it, never later than two epochs after the refresh that brought it; and
  refreshes are single-flight and spaced by the back-off.
\<close>

text \<open>Node's key objects, of unknown type \<open>'k\<close>; \<open>None\<close> stands for a throw.\<close>

record 'k relay_keys =
  rk_b64dec :: "string \<Rightarrow> bytes"
  rk_spki :: "bytes \<Rightarrow> 'k option"
  rk_type :: "'k \<Rightarrow> string"
  rk_modulus :: "'k \<Rightarrow> int option"
  rk_export :: "'k \<Rightarrow> bytes"
  rk_sha256 :: "bytes \<Rightarrow> bytes"

record 'k cached_key =
  ck_publicKey :: 'k
  ck_fingerprint :: string
  ck_expiresAt :: int

section \<open>fetchDocument and parse\<close>

text \<open>
  \<open>fetchDocument\<close> on a response with a status and the chunks of its body; \<open>protocol\<close> is what \<open>new URL\<close>
  finds in the configured address (\<open>None\<close> where it throws). \<open>None\<close> is a rejection.
\<close>

fun doc_chunks :: "nat \<Rightarrow> bytes list \<Rightarrow> bytes option" where
  "doc_chunks got [] = Some []"
| "doc_chunks got (c # cs) =
     (if got + length c > 65536 then None else map_option (\<lambda>r. c @ r) (doc_chunks (got + length c) cs))"

definition fetchDocument :: "(bytes \<Rightarrow> jv option) \<Rightarrow> string option \<Rightarrow> int \<Rightarrow> bytes list \<Rightarrow> jv option" where
  "fetchDocument jparse protocol status chunks =
     (if protocol \<noteq> Some ''https:'' then None
      else case doc_chunks 0 chunks of
        None \<Rightarrow> None
      | Some body \<Rightarrow> if status \<noteq> 200 then None else jparse body)"

definition kc_epoch :: "int \<Rightarrow> int \<Rightarrow> int" where
  "kc_epoch epochSeconds now = now div (1000 * epochSeconds)"

text \<open>One element of \<open>doc.keys\<close>: its epoch, its id and what is stored for it.\<close>

definition parse_key :: "'k relay_keys \<Rightarrow> int \<Rightarrow> int \<Rightarrow> jv \<Rightarrow> (int \<times> string \<times> 'k cached_key) option" where
  "parse_key R epoch epochSeconds entry =
     (if jget entry ''epoch'' \<notin> {JInt epoch, JInt (epoch - 1)} then None
      else case jstr (jget entry ''publicKeySpki'') of
        None \<Rightarrow> None
      | Some spki \<Rightarrow>
          if length spki > 2048 then None
          else (case rk_spki R (rk_b64dec R spki) of
            None \<Rightarrow> None
          | Some k \<Rightarrow>
              if rk_type R k \<notin> {''rsa'', ''rsa-pss''} \<or> rk_modulus R k \<noteq> Some 2048 then None
              else let fp = hex_string (rk_sha256 R (rk_export R k)) in
                if jget entry ''keyId'' \<noteq> JStr (take 32 fp) then None
                else Some (jint (jget entry ''epoch''), take 32 fp,
                  \<lparr>ck_publicKey = k, ck_fingerprint = fp,
                   ck_expiresAt = (jint (jget entry ''epoch'') + 2) * epochSeconds * 1000\<rparr>)))"

definition merge_key :: "string \<Rightarrow> 'k cached_key \<Rightarrow> (string, 'k cached_key) jmap \<Rightarrow> (string, 'k cached_key) jmap" where
  "merge_key kid e m =
     jm_set kid (e\<lparr>ck_expiresAt := max (ck_expiresAt e) (case jm_get m kid of None \<Rightarrow> 0 | Some p \<Rightarrow> ck_expiresAt p)\<rparr>) m"

fun parse_keys :: "'k relay_keys \<Rightarrow> int \<Rightarrow> int \<Rightarrow> int list \<Rightarrow> (string, 'k cached_key) jmap \<Rightarrow> jv list
    \<Rightarrow> (int list \<times> (string, 'k cached_key) jmap) option" where
  "parse_keys R epoch secs seen m [] = Some (seen, m)"
| "parse_keys R epoch secs seen m (j # js) =
     (case parse_key R epoch secs j of
        None \<Rightarrow> None
      | Some (e, kid, k) \<Rightarrow>
          if e \<in> set seen then None else parse_keys R epoch secs (e # seen) (merge_key kid k m) js)"

text \<open>\<open>parse(doc)\<close> at the time \<open>now\<close>; \<open>None\<close> wherever it throws.\<close>

definition kc_parse :: "'k relay_keys \<Rightarrow> int \<Rightarrow> jv \<Rightarrow> (string, 'k cached_key) jmap option" where
  "kc_parse R now doc =
     (if jget doc ''schemaVersion'' \<noteq> JInt 1 \<or> jget doc ''suite'' \<noteq> JStr ''RSABSSA-SHA384-PSS-Deterministic''
         \<or> \<not> isSafeInteger (jget doc ''epochSeconds'') \<or> jint (jget doc ''epochSeconds'') < 1
         \<or> jint (jget doc ''epochSeconds'') > 31557600 then None
      else case jarr (jget doc ''keys'') of
        None \<Rightarrow> None
      | Some js \<Rightarrow>
          if length js < 1 \<or> length js > 2 then None
          else
            let secs = jint (jget doc ''epochSeconds''); epoch = kc_epoch secs now in
            if jget doc ''epoch'' \<noteq> JInt epoch then None
            else (case parse_keys R epoch secs [] [] js of
              None \<Rightarrow> None
            | Some (seen, m) \<Rightarrow> if epoch \<in> set seen then Some m else None))"

section \<open>The cache\<close>

text \<open>\<open>kc_started\<close> is a ghost list of the times at which fetches were started, newest first.\<close>

record kc_config =
  kc_url :: string
  kc_ttlMs :: int
  kc_backoffMs :: int

record 'k key_cache =
  kc_keys :: "(string, 'k cached_key) jmap"
  kc_refreshedAt :: int
  kc_nextAttempt :: int
  kc_pending :: bool
  kc_started :: "int list"

text \<open>\<open>None\<close> where the constructor throws \<open>issuer_cache_configuration\<close>.\<close>

definition createIssuerKeyCache :: "kc_config \<Rightarrow> 'k key_cache option" where
  "createIssuerKeyCache C =
     (if \<not> safe_int (kc_ttlMs C) \<or> kc_ttlMs C < 1 \<or> \<not> safe_int (kc_backoffMs C) \<or> kc_backoffMs C < 1 then None
      else Some \<lparr>kc_keys = [], kc_refreshedAt = 0, kc_nextAttempt = 0, kc_pending = False, kc_started = []\<rparr>)"

text \<open>\<open>refresh()\<close> up to the fetch: joins a pending one, or starts one unless the back-off forbids it.\<close>

definition kc_refresh :: "kc_config \<Rightarrow> int \<Rightarrow> 'k key_cache \<Rightarrow> 'k key_cache" where
  "kc_refresh C now c =
     (if kc_pending c then c
      else if kc_url C = [] \<or> now < kc_nextAttempt c then c
      else c\<lparr>kc_nextAttempt := now + kc_backoffMs C, kc_pending := True, kc_started := now # kc_started c\<rparr>)"

text \<open>The fetch settles with a document or fails (\<open>None\<close>); a failure keeps the old keys.\<close>

definition kc_settle :: "'k relay_keys \<Rightarrow> int \<Rightarrow> jv option \<Rightarrow> 'k key_cache \<Rightarrow> 'k key_cache" where
  "kc_settle R now doc c =
     (case Option.bind doc (kc_parse R now) of
        None \<Rightarrow> c\<lparr>kc_pending := False\<rparr>
      | Some m \<Rightarrow> c\<lparr>kc_keys := m, kc_refreshedAt := now, kc_pending := False\<rparr>)"

text \<open>The first half of \<open>get\<close>, up to its \<open>await\<close>, and the second half, which only reads.\<close>

definition kc_call :: "kc_config \<Rightarrow> string \<Rightarrow> int \<Rightarrow> 'k key_cache \<Rightarrow> 'k key_cache" where
  "kc_call C keyId now c =
     (case jm_get (kc_keys c) keyId of
        None \<Rightarrow> kc_refresh C now c
      | Some e \<Rightarrow>
          if now \<ge> ck_expiresAt e \<or> now - kc_refreshedAt c \<ge> kc_ttlMs C then kc_refresh C now c else c)"

definition kc_result :: "string \<Rightarrow> int \<Rightarrow> 'k key_cache \<Rightarrow> redemption_error + 'k cached_key option" where
  "kc_result keyId now c =
     (let live = (\<lambda>e. now < ck_expiresAt e);
          none = (if \<not> list_ex (\<lambda>p. live (snd p)) (kc_keys c) then Inl RedemptionUnavailable else Inr None) in
      case jm_get (kc_keys c) keyId of
        None \<Rightarrow> none
      | Some e \<Rightarrow> if live e then Inr (Some e) else none)"

inductive kc_step :: "kc_config \<Rightarrow> 'k relay_keys \<Rightarrow> int \<times> 'k key_cache \<Rightarrow> int \<times> 'k key_cache \<Rightarrow> bool" for C R where
  call: "now \<le> t \<Longrightarrow> kc_step C R (now, c) (t, kc_call C keyId t c)"
| settle: "now \<le> t \<Longrightarrow> kc_pending c \<Longrightarrow> kc_step C R (now, c) (t, kc_settle R t doc c)"

inductive kc_reachable :: "kc_config \<Rightarrow> 'k relay_keys \<Rightarrow> int \<times> 'k key_cache \<Rightarrow> bool" for C R where
  init: "0 \<le> t \<Longrightarrow> createIssuerKeyCache C = Some c \<Longrightarrow> kc_reachable C R (t, c)"
| step: "kc_reachable C R s \<Longrightarrow> kc_step C R s s' \<Longrightarrow> kc_reachable C R s'"

section \<open>What a cached key is\<close>

text \<open>
  An entry stored by a refresh at time \<open>t\<close>: an RSA-2048 key filed under the prefix of its own
  fingerprint, live at \<open>t\<close> and for at most two epochs after it.
\<close>

definition entry_ok :: "'k relay_keys \<Rightarrow> int \<Rightarrow> int \<Rightarrow> string \<Rightarrow> 'k cached_key \<Rightarrow> bool" where
  "entry_ok R t secs kid e \<longleftrightarrow>
     ck_fingerprint e = hex_string (rk_sha256 R (rk_export R (ck_publicKey e))) \<and> kid = take 32 (ck_fingerprint e)
     \<and> rk_type R (ck_publicKey e) \<in> {''rsa'', ''rsa-pss''} \<and> rk_modulus R (ck_publicKey e) = Some 2048
     \<and> t < ck_expiresAt e \<and> ck_expiresAt e \<le> t + 2000 * secs"

lemma kc_epoch_bounds:
  assumes "0 < secs"
  shows "kc_epoch secs t * secs * 1000 \<le> t" and "t < (kc_epoch secs t + 1) * secs * 1000"
proof -
  have "t = kc_epoch secs t * (1000 * secs) + t mod (1000 * secs)"
    unfolding kc_epoch_def by (rule div_mult_mod_eq [symmetric])
  moreover have "0 \<le> t mod (1000 * secs)" "t mod (1000 * secs) < 1000 * secs" using assms by simp_all
  ultimately show "kc_epoch secs t * secs * 1000 \<le> t" "t < (kc_epoch secs t + 1) * secs * 1000"
    by (simp_all add: algebra_simps)
qed

lemma parse_key_ok:
  assumes p: "parse_key R (kc_epoch secs t) secs j = Some (ep, kid, e)" and secs: "0 < secs"
  shows "entry_ok R t secs kid e"
proof -
  from p obtain k where ep: "ep = kc_epoch secs t \<or> ep = kc_epoch secs t - 1"
    and k: "rk_type R k \<in> {''rsa'', ''rsa-pss''}" "rk_modulus R k = Some 2048"
    and e: "kid = take 32 (hex_string (rk_sha256 R (rk_export R k)))"
      "e = \<lparr>ck_publicKey = k, ck_fingerprint = hex_string (rk_sha256 R (rk_export R k)), ck_expiresAt = (ep + 2) * secs * 1000\<rparr>"
    by (auto simp: parse_key_def Let_def split: if_splits option.splits)
  have "t < (ep + 2) * secs * 1000" "(ep + 2) * secs * 1000 \<le> t + 2000 * secs"
    using ep
  proof (atomize (full), elim disjE)
    assume eq: "ep = kc_epoch secs t"
    show "t < (ep + 2) * secs * 1000 \<and> (ep + 2) * secs * 1000 \<le> t + 2000 * secs"
      unfolding eq using kc_epoch_bounds [OF secs, of t] secs by (simp add: algebra_simps)
  next
    assume eq: "ep = kc_epoch secs t - 1"
    show "t < (ep + 2) * secs * 1000 \<and> (ep + 2) * secs * 1000 \<le> t + 2000 * secs"
      unfolding eq using kc_epoch_bounds [OF secs, of t] secs by (simp add: algebra_simps)
  qed
  with k e show ?thesis by (simp add: entry_ok_def)
qed

definition keys_ok :: "'k relay_keys \<Rightarrow> int \<Rightarrow> int \<Rightarrow> (string, 'k cached_key) jmap \<Rightarrow> bool" where
  "keys_ok R t secs m \<longleftrightarrow> (\<forall>(kid, e) \<in> set m. entry_ok R t secs kid e)"

lemma keys_ok_get: "keys_ok R t secs m \<Longrightarrow> jm_get m kid = Some e \<Longrightarrow> entry_ok R t secs kid e"
  by (auto simp: keys_ok_def dest: jm_get_in_set)

lemma merge_key_ok:
  assumes "keys_ok R t secs m" and "entry_ok R t secs kid e" and "0 \<le> t" "0 < secs"
  shows "keys_ok R t secs (merge_key kid e m)"
proof -
  let ?x = "case jm_get m kid of None \<Rightarrow> 0 | Some p \<Rightarrow> ck_expiresAt p"
  have "?x \<le> t + 2000 * secs"
    using assms keys_ok_get [OF assms(1), of kid] by (auto simp: entry_ok_def split: option.split)
  then have "entry_ok R t secs kid (e\<lparr>ck_expiresAt := max (ck_expiresAt e) ?x\<rparr>)"
    using assms(2) by (auto simp: entry_ok_def)
  with assms(1) show ?thesis
    unfolding keys_ok_def merge_key_def by (auto dest!: jm_set_entries)
qed

lemma parse_keys_ok:
  assumes "0 \<le> t" "0 < secs"
  shows "parse_keys R (kc_epoch secs t) secs seen m js = Some (seen', m') \<Longrightarrow> keys_ok R t secs m \<Longrightarrow> keys_ok R t secs m'"
proof (induction js arbitrary: seen m)
  case (Cons j js)
  from Cons.prems(1) obtain ep kid e where j: "parse_key R (kc_epoch secs t) secs j = Some (ep, kid, e)"
    and rest: "parse_keys R (kc_epoch secs t) secs (ep # seen) (merge_key kid e m) js = Some (seen', m')"
    by (auto split: option.splits if_splits)
  from Cons.IH [OF rest] merge_key_ok [OF Cons.prems(2) parse_key_ok [OF j]] assms show ?case by simp
qed simp

lemma kc_parse_ok:
  assumes "kc_parse R t doc = Some m" and "0 \<le> t"
  shows "\<exists>secs \<in> {1..31557600}. keys_ok R t secs m"
proof -
  from assms(1) obtain js seen where s: "1 \<le> jint (jget doc ''epochSeconds'')" "jint (jget doc ''epochSeconds'') \<le> 31557600"
    and p: "parse_keys R (kc_epoch (jint (jget doc ''epochSeconds'')) t) (jint (jget doc ''epochSeconds'')) [] [] js = Some (seen, m)"
    by (auto simp: kc_parse_def Let_def split: if_splits option.splits)
  have "keys_ok R t (jint (jget doc ''epochSeconds'')) m"
    by (rule parse_keys_ok [OF assms(2) _ p]) (use s in \<open>simp_all add: keys_ok_def\<close>)
  with s show ?thesis by auto
qed

section \<open>Invariants of the cache\<close>

inductive_cases kc_stepE: "kc_step C R s s'"

lemma kc_call_cases: "kc_call C keyId t c = c \<or> kc_call C keyId t c = kc_refresh C t c"
  by (auto simp: kc_call_def split: option.split)

lemma kc_refresh_keys [simp]:
  "kc_keys (kc_refresh C t c) = kc_keys c" "kc_refreshedAt (kc_refresh C t c) = kc_refreshedAt c"
  by (simp_all add: kc_refresh_def)

lemma kc_call_keys [simp]:
  "kc_keys (kc_call C keyId t c) = kc_keys c" "kc_refreshedAt (kc_call C keyId t c) = kc_refreshedAt c"
  using kc_call_cases [of C keyId t c] by auto

lemma kc_time: "kc_reachable C R s \<Longrightarrow> 0 \<le> fst s"
  by (induction rule: kc_reachable.induct) (auto elim!: kc_stepE)

lemma kc_keys_inv:
  "kc_reachable C R s \<Longrightarrow> \<exists>secs \<in> {1..31557600}. keys_ok R (kc_refreshedAt (snd s)) secs (kc_keys (snd s))"
proof (induction rule: kc_reachable.induct)
  case (init t c)
  then show ?case by (auto simp: createIssuerKeyCache_def keys_ok_def split: if_splits intro!: bexI [of _ 1])
next
  case (step s s')
  from step.hyps(2) step.IH show ?case
  proof (cases)
    case (settle now t c doc)
    with kc_time [OF step.hyps(1)] have "0 \<le> t" by simp
    with settle step.IH kc_parse_ok [of R t] show ?thesis
      by (auto simp: kc_settle_def bind_eq_Some_conv split: option.splits)
  qed auto
qed

definition starts_ok :: "kc_config \<Rightarrow> 'k key_cache \<Rightarrow> bool" where
  "starts_ok C c \<longleftrightarrow>
     sorted_wrt (\<lambda>newer older. older + kc_backoffMs C \<le> newer) (kc_started c) \<and>
     (kc_started c \<noteq> [] \<longrightarrow> kc_nextAttempt c = hd (kc_started c) + kc_backoffMs C)"

lemma starts_ok_refresh:
  assumes "starts_ok C c" and b: "0 \<le> kc_backoffMs C"
  shows "starts_ok C (kc_refresh C t c)"
proof (cases "kc_pending c \<or> kc_url C = [] \<or> t < kc_nextAttempt c")
  case False
  have "older + kc_backoffMs C \<le> t" if "older \<in> set (kc_started c)" for older
  proof -
    from that obtain h xs where hx: "kc_started c = h # xs" by (cases "kc_started c") auto
    with that assms have "older \<le> h" by (auto simp: starts_ok_def)
    with hx assms(1) False show ?thesis by (auto simp: starts_ok_def)
  qed
  with assms False show ?thesis by (auto simp: starts_ok_def kc_refresh_def)
qed (use assms in \<open>auto simp: kc_refresh_def\<close>)

lemma kc_starts_inv: "kc_reachable C R s \<Longrightarrow> 0 < kc_backoffMs C \<and> starts_ok C (snd s)"
proof (induction rule: kc_reachable.induct)
  case (init t c)
  then show ?case by (auto simp: createIssuerKeyCache_def starts_ok_def split: if_splits)
next
  case (step s s')
  from step.hyps(2) show ?case
  proof (cases)
    case (call now t c keyId)
    with step.IH starts_ok_refresh [of C c t] kc_call_cases [of C keyId t c] show ?thesis by auto
  next
    case (settle now t c doc)
    with step.IH show ?thesis by (auto simp: kc_settle_def starts_ok_def split: option.splits)
  qed
qed

section \<open>Properties\<close>


definition ex_relay_keys :: "bytes relay_keys" where
  "ex_relay_keys = \<lparr>rk_b64dec = map of_char, rk_spki = Some, rk_type = (\<lambda>_. ''rsa''), rk_modulus = (\<lambda>_. Some 2048),
     rk_export = id, rk_sha256 = (\<lambda>_. replicate 32 7)\<rparr>"

definition ex_kc_config :: kc_config where
  "ex_kc_config = \<lparr>kc_url = ''https://issuer'', kc_ttlMs = 300000, kc_backoffMs = 5000\<rparr>"

definition ex_key_doc :: jv where
  "ex_key_doc = JObj [(''schemaVersion'', JInt 1), (''suite'', JStr ''RSABSSA-SHA384-PSS-Deterministic''),
     (''epochSeconds'', JInt 10), (''epoch'', JInt 1),
     (''keys'', JArr [JObj [(''epoch'', JInt 1), (''keyId'', JStr (concat (replicate 16 ''07''))), (''publicKeySpki'', JStr ''K'')]])]"

definition ex_cache_pending :: "bytes key_cache" where
  "ex_cache_pending = \<lparr>kc_keys = [], kc_refreshedAt = 0, kc_nextAttempt = 16000, kc_pending = True, kc_started = [11000]\<rparr>"

definition ex_cached :: "bytes cached_key" where
  "ex_cached = \<lparr>ck_publicKey = [75], ck_fingerprint = concat (replicate 32 ''07''), ck_expiresAt = 30000\<rparr>"

definition ex_cache_full :: "bytes key_cache" where
  "ex_cache_full = \<lparr>kc_keys = [(concat (replicate 16 ''07''), ex_cached)],
     kc_refreshedAt = 11050, kc_nextAttempt = 16000, kc_pending = False, kc_started = [11000]\<rparr>"

lemma ex_cache_reachable: "kc_reachable ex_kc_config ex_relay_keys (11050, ex_cache_full)"
proof -
  have parse: "kc_parse ex_relay_keys 11050 ex_key_doc = Some [(concat (replicate 16 ''07''), ex_cached)]" by code_simp
  let ?c = "\<lparr>kc_keys = [], kc_refreshedAt = 0, kc_nextAttempt = 0, kc_pending = False, kc_started = []\<rparr> :: bytes key_cache"
  have "kc_reachable ex_kc_config ex_relay_keys (11000, ?c)"
    by (rule kc_reachable.init) (simp_all add: createIssuerKeyCache_def ex_kc_config_def safe_int_def max_safe_def)
  moreover have "kc_call ex_kc_config ''k'' 11000 ?c = ex_cache_pending"
    by (simp add: kc_call_def kc_refresh_def ex_kc_config_def ex_cache_pending_def jmap_simps)
  ultimately have "kc_reachable ex_kc_config ex_relay_keys (11000, ex_cache_pending)"
    using kc_step.call [of 11000 11000 ex_kc_config ex_relay_keys ?c "''k''"] by (metis kc_reachable.step order_refl)
  moreover have "kc_settle ex_relay_keys 11050 (Some ex_key_doc) ex_cache_pending = ex_cache_full"
    by (simp add: kc_settle_def parse ex_cache_pending_def ex_cache_full_def)
  moreover have "kc_pending ex_cache_pending" by (simp add: ex_cache_pending_def)
  ultimately show ?thesis
    using kc_step.settle [of 11000 11050 ex_cache_pending ex_kc_config ex_relay_keys "Some ex_key_doc"]
    by (auto intro: kc_reachable.step)
qed


text \<open>
  The issuer is never flooded: in every reachable state at most one fetch is pending, no two fetches
  were ever started less than the back-off apart, and a call that finds one pending joins it; while a
  failed fetch leaves the keys as they were.
\<close>

theorem key_cache_backoff:
  assumes "kc_reachable C R (now, c)"
  shows "sorted_wrt (\<lambda>newer older. older + kc_backoffMs C \<le> newer) (kc_started c) \<and> 0 < kc_backoffMs C
    \<and> (kc_pending c \<longrightarrow> kc_call C keyId t c = c)
    \<and> (kc_started (kc_call C keyId t c) \<noteq> kc_started c \<longrightarrow>
         \<not> kc_pending c \<and> kc_pending (kc_call C keyId t c) \<and> kc_started (kc_call C keyId t c) = t # kc_started c)
    \<and> (Option.bind doc (kc_parse R t) = None \<longrightarrow>
         kc_keys (kc_settle R t doc c) = kc_keys c \<and> kc_refreshedAt (kc_settle R t doc c) = kc_refreshedAt c)"
  using kc_starts_inv [OF assms]
  by (auto simp: starts_ok_def kc_call_def kc_refresh_def kc_settle_def split: option.splits)

theorem key_cache_backoff_witness:
  "kc_started (kc_call ex_kc_config ''unknown'' 17000 ex_cache_full) = [17000, 11000]
   \<and> \<not> kc_pending ex_cache_full \<and> (5000 :: int) = kc_backoffMs ex_kc_config"
proof -
  have s: "kc_started (kc_call ex_kc_config ''unknown'' 17000 ex_cache_full) = [17000, 11000]"
    "kc_started ex_cache_full = [11000]" by code_simp+
  with key_cache_backoff [OF ex_cache_reachable, of "''unknown''" 17000] show ?thesis
    by (simp add: ex_kc_config_def)
qed

end
