(* ===== verification/RelayAuth.thy ===== *)
theory RelayAuth
  imports IssuerKeyCache
begin

text \<open>
  Admission control of the relay (\<^verbatim>\<open>ohttp-relay/server.js\<close>): the rate limiter (\<open>clientIpKey\<close>,
  \<open>rateLimited\<close>), the credential check (\<open>clientAuthorized\<close>, \<open>verifyAccessToken\<close>, \<open>nullifierFor\<close>) and the
  log boundary (\<open>safeLogFields\<close>). Shown: the limiter's table is bounded and no client is admitted more
  than twice its quota in any interval of one window; a token is accepted only with a live issuer key
  and a valid signature, and each signature at most once.
\<close>

section \<open>The rate limiter\<close>

text \<open>\<open>remote\<close> is \<open>req.socket.remoteAddress\<close>; an empty \<open>trusted\<close> name turns the trusted header off.\<close>

definition clientIpKey :: "string \<Rightarrow> string option \<Rightarrow> request \<Rightarrow> string" where
  "clientIpKey trusted remote req =
     (let fallback = (case remote of None \<Rightarrow> ''unknown'' | Some a \<Rightarrow> if a = [] then ''unknown'' else a);
          forwarded = (case req_headers req ''x-forwarded-for'' of
              None \<Rightarrow> fallback
            | Some xff \<Rightarrow>
                if xff = [] then fallback
                else let end_part = js_trim (last (js_split CHR '','' xff)) in
                  if end_part \<noteq> [] then end_part else fallback)
      in if trusted = [] then forwarded
         else case req_headers req trusted of
           None \<Rightarrow> forwarded
         | Some v \<Rightarrow> if js_trim v \<noteq> [] then js_trim v else forwarded)"

record rate_config =
  RATE_LIMIT_RPM :: int
  RATE_WINDOW_MS :: int
  RATE_MAX_KEYS :: nat

record bucket =
  bk_count :: int
  bk_windowStart :: int

text \<open>The bucket that counts a request at \<open>now\<close>: a new one where there is none or its window is over.\<close>

definition rate_bucket :: "rate_config \<Rightarrow> int \<Rightarrow> bucket option \<Rightarrow> bucket" where
  "rate_bucket C now ob =
     (let fresh = \<lparr>bk_count = 0, bk_windowStart = now\<rparr> in
      case ob of None \<Rightarrow> fresh | Some b \<Rightarrow> if now - bk_windowStart b \<ge> RATE_WINDOW_MS C then fresh else b)"

definition rateLimited :: "rate_config \<Rightarrow> int \<Rightarrow> string \<Rightarrow> (string, bucket) jmap \<Rightarrow> bool \<times> (string, bucket) jmap" where
  "rateLimited C now ipBucket m =
     (if RATE_LIMIT_RPM C \<le> 0 then (False, m)
      else
        let b = rate_bucket C now (jm_get m ipBucket);
            b' = b\<lparr>bk_count := bk_count b + 1\<rparr>;
            m' = jm_set ipBucket b' m;
            m'' = (if length m' > RATE_MAX_KEYS C then jm_drop_oldest m' else m')
        in (bk_count b' > RATE_LIMIT_RPM C, m''))"

text \<open>The admitted requests of a sequence of (time, client) pairs.\<close>

fun rate_admitted :: "rate_config \<Rightarrow> (string, bucket) jmap \<Rightarrow> (int \<times> string) list \<Rightarrow> (int \<times> string) list" where
  "rate_admitted C m [] = []"
| "rate_admitted C m ((t, ip) # rs) =
     (case rateLimited C t ip m of (l, m') \<Rightarrow>
        (if l then rate_admitted C m' rs else (t, ip) # rate_admitted C m' rs))"

text \<open>One client alone: its own bucket counts its own requests.\<close>

fun bucket_admitted :: "rate_config \<Rightarrow> bucket option \<Rightarrow> int list \<Rightarrow> int list" where
  "bucket_admitted C ob [] = []"
| "bucket_admitted C ob (t # ts) =
     (let b = rate_bucket C t ob; b' = b\<lparr>bk_count := bk_count b + 1\<rparr> in
      if bk_count b' > RATE_LIMIT_RPM C then bucket_admitted C (Some b') ts
      else t # bucket_admitted C (Some b') ts)"

lemma rateLimited_wf:
  assumes "rateLimited C t ip m = (l, m')" and "jm_wf m"
  shows "jm_wf m'" and "length m \<le> RATE_MAX_KEYS C \<Longrightarrow> length m' \<le> RATE_MAX_KEYS C"
proof -
  show "jm_wf m'" using assms by (auto simp: rateLimited_def Let_def split: if_splits)
  show "length m \<le> RATE_MAX_KEYS C \<Longrightarrow> length m' \<le> RATE_MAX_KEYS C"
    using assms by (auto simp: rateLimited_def Let_def jm_drop_oldest_wf jmap_simps split: if_splits)
qed

text \<open>Without eviction the table is a per-client product of buckets.\<close>

lemma rateLimited_no_eviction:
  assumes r: "rateLimited C t ip m = (l, m')" and wf: "jm_wf m" and rpm: "0 < RATE_LIMIT_RPM C"
    and K: "fst ` set m \<subseteq> K" "ip \<in> K" "finite K" "card K \<le> RATE_MAX_KEYS C"
  shows "let b = rate_bucket C t (jm_get m ip); b' = b\<lparr>bk_count := bk_count b + 1\<rparr> in
    (l \<longleftrightarrow> bk_count b' > RATE_LIMIT_RPM C) \<and> m' = jm_set ip b' m \<and> fst ` set m' \<subseteq> K"
proof -
  let ?b = "rate_bucket C t (jm_get m ip)"
  let ?m = "jm_set ip (?b\<lparr>bk_count := bk_count ?b + 1\<rparr>) m"
  have sub: "fst ` set ?m \<subseteq> K" using K by (simp add: jm_keys_set)
  have "length ?m \<le> card K" by (rule jm_length_le) (use wf sub K in simp_all)
  with r rpm K have "(l, m') = (bk_count ?b + 1 > RATE_LIMIT_RPM C, ?m)"
    by (simp add: rateLimited_def Let_def)
  with sub show ?thesis by (simp add: Let_def)
qed

lemma rate_admitted_project:
  assumes rpm: "0 < RATE_LIMIT_RPM C" and K: "finite K" "card K \<le> RATE_MAX_KEYS C"
  shows "jm_wf m \<Longrightarrow> fst ` set m \<subseteq> K \<Longrightarrow> snd ` set rs \<subseteq> K \<Longrightarrow>
    map fst (filter (\<lambda>r. snd r = ip) (rate_admitted C m rs))
      = bucket_admitted C (jm_get m ip) (map fst (filter (\<lambda>r. snd r = ip) rs))"
proof (induction rs arbitrary: m)
  case (Cons r rs)
  obtain t a where r: "r = (t, a)" by (cases r)
  obtain l m' where s: "rateLimited C t a m = (l, m')" by (cases "rateLimited C t a m")
  have "a \<in> K" and rs: "snd ` set rs \<subseteq> K" using Cons.prems(3) r by auto
  note step = rateLimited_no_eviction [OF s Cons.prems(1) rpm Cons.prems(2) this(1) K, unfolded Let_def]
  have K': "fst ` set m' \<subseteq> K" using step by blast
  have IH: "map fst (filter (\<lambda>r. snd r = ip) (rate_admitted C m' rs))
      = bucket_admitted C (jm_get m' ip) (map fst (filter (\<lambda>r. snd r = ip) rs))"
    by (rule Cons.IH [OF rateLimited_wf(1) [OF s Cons.prems(1)] K' rs])
  show ?case using step IH r s by (auto simp: Let_def jmap_simps)
qed simp

text \<open>The quota a bucket leaves for the interval of one window from \<open>t0\<close>.\<close>

definition rate_left :: "rate_config \<Rightarrow> int \<Rightarrow> bucket option \<Rightarrow> int" where
  "rate_left C t0 ob = (case ob of
      None \<Rightarrow> 2 * RATE_LIMIT_RPM C
    | Some b \<Rightarrow>
        if bk_windowStart b \<ge> t0 then max 0 (RATE_LIMIT_RPM C - bk_count b)
        else if bk_windowStart b + RATE_WINDOW_MS C > t0 then max 0 (RATE_LIMIT_RPM C - bk_count b) + RATE_LIMIT_RPM C
        else 2 * RATE_LIMIT_RPM C)"

definition in_window :: "rate_config \<Rightarrow> int \<Rightarrow> int list \<Rightarrow> int list" where
  "in_window C t0 ts = filter (\<lambda>t. t0 \<le> t \<and> t < t0 + RATE_WINDOW_MS C) ts"

lemma set_bucket_admitted: "set (bucket_admitted C ob ts) \<subseteq> set ts"
  by (induction ts arbitrary: ob) (auto simp: Let_def)

lemma in_window_late:
  assumes "\<forall>t \<in> set ts. t0 + RATE_WINDOW_MS C \<le> t"
  shows "in_window C t0 (bucket_admitted C ob ts) = []"
  using assms set_bucket_admitted [of C ob ts] by (fastforce simp: in_window_def filter_empty_conv)

lemma bucket_admitted_bound:
  assumes rpm: "0 < RATE_LIMIT_RPM C" and w: "0 < RATE_WINDOW_MS C"
  shows "sorted ts \<Longrightarrow> (\<And>b. ob = Some b \<Longrightarrow> 0 \<le> bk_count b) \<Longrightarrow>
    int (length (in_window C t0 (bucket_admitted C ob ts))) \<le> rate_left C t0 ob"
proof (induction ts arbitrary: ob)
  case Nil
  then show ?case using rpm by (auto simp: in_window_def rate_left_def split: option.split)
next
  case (Cons t ts)
  let ?b = "rate_bucket C t ob"
  let ?b' = "?b\<lparr>bk_count := bk_count ?b + 1\<rparr>"
  show ?case
  proof (cases "t0 + RATE_WINDOW_MS C \<le> t")
    case True
    with Cons.prems(1) have "\<forall>x \<in> set (t # ts). t0 + RATE_WINDOW_MS C \<le> x" by auto
    then have "in_window C t0 (bucket_admitted C ob (t # ts)) = []" by (rule in_window_late)
    then show ?thesis using rpm by (auto simp: rate_left_def split: option.split)
  next
    case False
    have "int (length (in_window C t0 (bucket_admitted C (Some ?b') ts))) \<le> rate_left C t0 (Some ?b')"
      using Cons by (intro Cons.IH) (auto simp: rate_bucket_def Let_def split: option.splits)
    with False Cons.prems(2) rpm w show ?thesis
      by (auto simp: Let_def in_window_def rate_left_def rate_bucket_def split: option.splits if_splits)
  qed
qed

lemma sorted_filter_fst: "sorted (map fst rs) \<Longrightarrow> sorted (map fst (filter P rs))"
  by (induction rs) auto


definition ex_rate :: rate_config where
  "ex_rate = \<lparr>RATE_LIMIT_RPM = 1, RATE_WINDOW_MS = 10, RATE_MAX_KEYS = 2\<rparr>"


section \<open>Credentials\<close>

text \<open>
  What the token check uses of Node: \<open>tv_envelope\<close> is
  \<open>JSON.parse(Buffer.from(raw, 'base64url').toString('utf8'))\<close>, \<open>None\<close> where it throws; \<open>tv_b64dec\<close> decodes
  base64; \<open>tv_verify\<close> is \<open>crypto.verify\<close> with SHA-384, PSS padding and the configured salt length,
  \<open>None\<close> where it throws.
\<close>

record 'k token_env =
  tv_envelope :: "string \<Rightarrow> jv option"
  tv_b64dec :: "string \<Rightarrow> bytes"
  tv_verify :: "'k \<Rightarrow> bytes \<Rightarrow> bytes \<Rightarrow> bool option"
  tv_sha256 :: "bytes \<Rightarrow> bytes"

text \<open>\<open>presented.replace(/^(PrivateToken|Bearer)\s+/i, '')\<close>\<close>

definition strip_scheme :: "string \<Rightarrow> string" where
  "strip_scheme s =
     (let scheme = (\<lambda>w. js_lower (take (length w) s) = w \<and> (case drop (length w) s of [] \<Rightarrow> False | c # _ \<Rightarrow> js_ws c)) in
      if scheme ''privatetoken'' then dropWhile js_ws (drop 12 s)
      else if scheme ''bearer'' then dropWhile js_ws (drop 6 s)
      else s)"

definition nullifierFor :: "'k token_env \<Rightarrow> bytes \<Rightarrow> string" where
  "nullifierFor V sigBytes = hex_string (tv_sha256 V sigBytes)"

text \<open>The first half of \<open>verifyAccessToken\<close>, up to the key lookup: the key id, token input and signature.\<close>

definition parse_token :: "'k token_env \<Rightarrow> string option \<Rightarrow> (string \<times> string \<times> string) option" where
  "parse_token V presented =
     (case presented of
        None \<Rightarrow> None
      | Some p \<Rightarrow>
          if p = [] then None
          else (case tv_envelope V (js_trim (strip_scheme p)) of
            None \<Rightarrow> None
          | Some tok \<Rightarrow>
              (case (jstr (jget tok ''keyId''), jstr (jget tok ''tokenInput''), jstr (jget tok ''signature'')) of
                 (Some keyId, Some tokenInput, Some signature) \<Rightarrow> Some (keyId, tokenInput, signature)
               | _ \<Rightarrow> None)))"

text \<open>
  The whole check; \<open>key_of\<close> is the outcome of \<open>issuerKeyCache.get\<close>, \<open>redeem\<close> the redemption store. \<open>Inl\<close> is
  a rejection of the returned promise.
\<close>

definition verifyAccessToken :: "'k token_env \<Rightarrow> (string \<Rightarrow> redemption_error + 'k cached_key option)
    \<Rightarrow> ('s \<Rightarrow> string \<Rightarrow> string \<Rightarrow> (redemption_error + bool) \<times> 's) \<Rightarrow> string option \<Rightarrow> 's
    \<Rightarrow> (redemption_error + bool) \<times> 's" where
  "verifyAccessToken V key_of redeem presented s =
     (case parse_token V presented of
        None \<Rightarrow> (Inr False, s)
      | Some (keyId, tokenInput, signature) \<Rightarrow>
          (case key_of keyId of
             Inl e \<Rightarrow> (Inl e, s)
           | Inr None \<Rightarrow> (Inr False, s)
           | Inr (Some entry) \<Rightarrow>
               let inputBuf = tv_b64dec V tokenInput; sigBuf = tv_b64dec V signature in
               if inputBuf = [] \<or> sigBuf = [] then (Inr False, s)
               else if tv_verify V (ck_publicKey entry) inputBuf sigBuf \<noteq> Some True then (Inr False, s)
               else (case redeem s (ck_fingerprint entry) (nullifierFor V sigBuf) of
                  (Inl e, s') \<Rightarrow> (Inl e, s')
                | (Inr ok, s') \<Rightarrow> (Inr ok, s'))))"

record auth_config =
  CLIENT_AUTH_MODE :: string
  CLIENT_SECRET :: string
  CLIENT_AUTH_HEADER :: string

definition clientAuthorized :: "auth_config \<Rightarrow> 'k token_env \<Rightarrow> (string \<Rightarrow> redemption_error + 'k cached_key option)
    \<Rightarrow> ('s \<Rightarrow> string \<Rightarrow> string \<Rightarrow> (redemption_error + bool) \<times> 's) \<Rightarrow> request \<Rightarrow> 's
    \<Rightarrow> (redemption_error + bool) \<times> 's" where
  "clientAuthorized A V key_of redeem req s =
     (if CLIENT_AUTH_MODE A = ''off'' then (Inr True, s)
      else if CLIENT_AUTH_MODE A = ''secret'' then
        (if CLIENT_SECRET A = [] then (Inr False, s)
         else (Inr (timingSafeEqualStr (tv_sha256 V) (req_headers req (CLIENT_AUTH_HEADER A)) (CLIENT_SECRET A)), s))
      else if CLIENT_AUTH_MODE A = ''token'' then
        verifyAccessToken V key_of redeem (req_headers req (CLIENT_AUTH_HEADER A)) s
      else (Inr False, s))"

lemma verifyAccessToken_True:
  assumes "verifyAccessToken V key_of redeem presented s = (Inr True, s')"
  obtains keyId tokenInput signature entry where
    "parse_token V presented = Some (keyId, tokenInput, signature)" "key_of keyId = Inr (Some entry)"
    "tv_verify V (ck_publicKey entry) (tv_b64dec V tokenInput) (tv_b64dec V signature) = Some True"
    "tv_b64dec V signature \<noteq> []"
    "redeem s (ck_fingerprint entry) (nullifierFor V (tv_b64dec V signature)) = (Inr True, s')"
  using assms that by (auto simp: verifyAccessToken_def Let_def split: option.splits sum.splits if_splits prod.splits)

section \<open>Spending a token once\<close>

text \<open>The signatures accepted over a sequence of presentations, each with the key cache of its moment.\<close>

fun accepted :: "'k token_env \<Rightarrow> ('s \<Rightarrow> string \<Rightarrow> string \<Rightarrow> (redemption_error + bool) \<times> 's)
    \<Rightarrow> ((string \<Rightarrow> redemption_error + 'k cached_key option) \<times> string option) list \<Rightarrow> 's \<Rightarrow> (string \<times> bytes) list" where
  "accepted V redeem [] s = []"
| "accepted V redeem ((key_of, presented) # ps) s =
     (case verifyAccessToken V key_of redeem presented s of (r, s') \<Rightarrow>
        (if r = Inr True then
           case parse_token V presented of
             Some (keyId, tokenInput, signature) \<Rightarrow>
               (case key_of keyId of
                  Inr (Some entry) \<Rightarrow> (ck_fingerprint entry, tv_b64dec V signature) # accepted V redeem ps s'
                | _ \<Rightarrow> accepted V redeem ps s')
           | None \<Rightarrow> accepted V redeem ps s'
         else accepted V redeem ps s'))"

context redemption_store
begin

lemma verify_spends:
  assumes "verifyAccessToken V key_of redeem presented s = (r, s')"
  shows "spent s \<subseteq> spent s'"
  using assms redeem_mono
  by (fastforce simp: verifyAccessToken_def Let_def split: option.splits sum.splits if_splits prod.splits)

lemma accepted_fresh:
  "p \<in> set (accepted V redeem ps s) \<Longrightarrow> (fst p, nullifierFor V (snd p)) \<notin> spent s"
proof (induction ps arbitrary: s)
  case (Cons q ps)
  obtain key_of presented where q: "q = (key_of, presented)" by (cases q)
  obtain r s1 where v: "verifyAccessToken V key_of redeem presented s = (r, s1)"
    by (cases "verifyAccessToken V key_of redeem presented s")
  note mono = verify_spends [OF v]
  show ?case
  proof (cases "p \<in> set (accepted V redeem ps s1)")
    case True
    with Cons.IH [of s1] mono show ?thesis by auto
  next
    case False
    with Cons.prems q v have "r = Inr True" by (auto split: if_splits)
    with v have "verifyAccessToken V key_of redeem presented s = (Inr True, s1)" by simp
    from verifyAccessToken_True [OF this] obtain keyId tokenInput signature entry where
      t: "parse_token V presented = Some (keyId, tokenInput, signature)" "key_of keyId = Inr (Some entry)"
      and rd: "redeem s (ck_fingerprint entry) (nullifierFor V (tv_b64dec V signature)) = (Inr True, s1)" by metis
    from redeem_true [OF rd] t Cons.prems q v False \<open>r = Inr True\<close> show ?thesis by auto
  qed
qed simp

lemma accepted_distinct: "distinct (map (\<lambda>p. (fst p, nullifierFor V (snd p))) (accepted V redeem ps s))"
proof (induction ps arbitrary: s)
  case (Cons q ps)
  obtain key_of presented where q: "q = (key_of, presented)" by (cases q)
  obtain r s1 where v: "verifyAccessToken V key_of redeem presented s = (r, s1)"
    by (cases "verifyAccessToken V key_of redeem presented s")
  show ?case
  proof (cases "r = Inr True")
    case True
    with v have "verifyAccessToken V key_of redeem presented s = (Inr True, s1)" by simp
    from verifyAccessToken_True [OF this] obtain keyId tokenInput signature entry where
      t: "parse_token V presented = Some (keyId, tokenInput, signature)" "key_of keyId = Inr (Some entry)"
      and rd: "redeem s (ck_fingerprint entry) (nullifierFor V (tv_b64dec V signature)) = (Inr True, s1)" by metis
    have "(ck_fingerprint entry, nullifierFor V (tv_b64dec V signature)) \<in> spent s1" using redeem_true [OF rd] by simp
    with Cons.IH [of s1] q v t True accepted_fresh [of _ V ps s1] show ?thesis by force
  qed (use Cons.IH q v in simp)
qed simp

end

fun verify_run :: "'k token_env \<Rightarrow> ('s \<Rightarrow> string \<Rightarrow> string \<Rightarrow> (redemption_error + bool) \<times> 's)
    \<Rightarrow> ((string \<Rightarrow> redemption_error + 'k cached_key option) \<times> string option) list \<Rightarrow> 's \<Rightarrow> (redemption_error + bool) list" where
  "verify_run V redeem [] s = []"
| "verify_run V redeem ((key_of, presented) # ps) s =
     (case verifyAccessToken V key_of redeem presented s of (r, s') \<Rightarrow> r # verify_run V redeem ps s')"

lemma accepted_complete:
  "length (accepted V redeem ps s) = length (filter (\<lambda>r. r = Inr True) (verify_run V redeem ps s))"
proof (induction ps arbitrary: s)
  case (Cons q ps)
  obtain key_of presented where q: "q = (key_of, presented)" by (cases q)
  obtain r s1 where v: "verifyAccessToken V key_of redeem presented s = (r, s1)"
    by (cases "verifyAccessToken V key_of redeem presented s")
  show ?case
  proof (cases "r = Inr True")
    case True
    with v have "verifyAccessToken V key_of redeem presented s = (Inr True, s1)" by simp
    from verifyAccessToken_True [OF this] obtain keyId tokenInput signature entry where
      "parse_token V presented = Some (keyId, tokenInput, signature)" "key_of keyId = Inr (Some entry)" by metis
    with Cons.IH [of s1] q v True show ?thesis by simp
  qed (use Cons.IH q v in simp)
qed simp

text \<open>
  A token is spent once: over any sequence of presentations, whatever their prefixes, white space and
  encodings and however the key cache changes between them, no two accepted presentations carry the same
  signature bytes under the same issuer key (nor even signatures with the same hash); every accepted
  presentation is accounted for.
\<close>

theorem token_spend_once:
  "distinct (accepted V (mem_redeem maxKeys) ps s)
   \<and> distinct (map (\<lambda>p. (fst p, nullifierFor V (snd p))) (accepted V (mem_redeem maxKeys) ps s))
   \<and> length (accepted V (mem_redeem maxKeys) ps s)
       = length (filter (\<lambda>r. r = Inr True) (verify_run V (mem_redeem maxKeys) ps s))"
  using mem_red.accepted_distinct [of V maxKeys ps s] by (simp add: distinct_map accepted_complete)

text \<open>
  C4. What an accepted token proves: with the issuer-key cache in any reachable state, \<open>verifyAccessToken\<close>
  returns true only if the header parses, the named key is an RSA-2048 key of the issuer filed under
  its own fingerprint and inside its acceptance window, the signature over the token input verifies under
  it, and the store admitted the hash of the signature just now.
\<close>

theorem token_accept_sound:
  assumes reach: "kc_reachable C R (t0, c)"
    and ok: "verifyAccessToken V (\<lambda>k. kc_result k now c) redeem presented s = (Inr True, s')"
  shows "\<exists>keyId tokenInput signature e. parse_token V presented = Some (keyId, tokenInput, signature)
    \<and> jm_get (kc_keys c) keyId = Some e \<and> now < ck_expiresAt e
    \<and> keyId = take 32 (hex_string (rk_sha256 R (rk_export R (ck_publicKey e)))) \<and> rk_modulus R (ck_publicKey e) = Some 2048
    \<and> tv_verify V (ck_publicKey e) (tv_b64dec V tokenInput) (tv_b64dec V signature) = Some True
    \<and> redeem s (hex_string (rk_sha256 R (rk_export R (ck_publicKey e)))) (hex_string (tv_sha256 V (tv_b64dec V signature))) = (Inr True, s')"
proof -
  from verifyAccessToken_True [OF ok] obtain keyId tokenInput signature e where
    t: "parse_token V presented = Some (keyId, tokenInput, signature)" "kc_result keyId now c = Inr (Some e)"
      "tv_verify V (ck_publicKey e) (tv_b64dec V tokenInput) (tv_b64dec V signature) = Some True"
      "redeem s (ck_fingerprint e) (nullifierFor V (tv_b64dec V signature)) = (Inr True, s')" by metis
  from t(2) have e: "jm_get (kc_keys c) keyId = Some e" "now < ck_expiresAt e"
    by (auto simp: kc_result_def Let_def split: option.splits if_splits)
  from kc_keys_inv [OF reach] obtain secs where "keys_ok R (kc_refreshedAt c) secs (kc_keys c)" by auto
  with e(1) have "entry_ok R (kc_refreshedAt c) secs keyId e" by (blast intro: keys_ok_get)
  then have "ck_fingerprint e = hex_string (rk_sha256 R (rk_export R (ck_publicKey e)))"
    "keyId = take 32 (ck_fingerprint e)" "rk_modulus R (ck_publicKey e) = Some 2048" by (simp_all add: entry_ok_def)
  with t e show ?thesis by (auto simp: nullifierFor_def)
qed

definition ex_token_env :: "bytes token_env" where
  "ex_token_env = \<lparr>tv_envelope = (\<lambda>s. if s = ''abc'' then Some (JObj [(''keyId'', JStr (concat (replicate 16 ''07''))),
       (''tokenInput'', JStr ''in''), (''signature'', JStr ''sig'')]) else None),
     tv_b64dec = map of_char, tv_verify = (\<lambda>k i g. Some (k = [75])), tv_sha256 = take 1\<rparr>"

theorem token_accept_sound_witness:
  "\<exists>s'. verifyAccessToken ex_token_env (\<lambda>k. kc_result k 20000 ex_cache_full) (mem_redeem 5) (Some ''privateTOKEN  abc '') memoryRedemptionStore
      = (Inr True, s') \<and> spent_keys s' = [concat (replicate 32 ''07'') @ '':73'']"
proof -
  let ?s' = "\<lparr>spent_keys = [concat (replicate 32 ''07'') @ '':73'']\<rparr>"
  have run: "verifyAccessToken ex_token_env (\<lambda>k. kc_result k 20000 ex_cache_full) (mem_redeem 5) (Some ''privateTOKEN  abc '') memoryRedemptionStore
      = (Inr True, ?s')" by code_simp
  from token_accept_sound [OF ex_cache_reachable run] run show ?thesis by (intro exI [of _ ?s']) simp
qed

section \<open>The log boundary\<close>

text \<open>The fields handed to \<open>log\<close>, \<open>JUndef\<close> where absent; \<open>durationMs\<close> is a difference of clock readings.\<close>

record relay_log =
  rl_route :: jv
  rl_status :: jv
  rl_durationMs :: "int option"
  rl_reused :: jv
  rl_event :: jv
  rl_errorType :: jv
  rl_reason :: jv
  rl_code :: jv

definition relay_routes :: "string list" where
  "relay_routes = [''/relay'', ''/health'', ''/ohttp-configs'']"

definition relay_events :: "string list" where
  "relay_events = [''fatal'', ''listen'', ''uncaught_exception'', ''unhandled_rejection'']"

definition relay_errorTypes :: "string list" where
  "relay_errorTypes = [''Error'', ''TypeError'', ''ReferenceError'', ''SyntaxError'', ''RangeError'', ''URIError'', ''AggregateError'']"

definition relay_reasons :: "string list" where
  "relay_reasons = [''gateway_url_invalid'', ''gateway_not_https'', ''resp_too_large'', ''gres_error'', ''gw_error'', ''rate_limit'',
     ''capacity'', ''origin'', ''client_auth'', ''content_type'', ''request_too_large'', ''client_disconnect'', ''state_unavailable'']"

definition relay_codes :: "string list" where
  "relay_codes = [''ECONNRESET'', ''ECONNREFUSED'', ''ETIMEDOUT'', ''ENOTFOUND'', ''EAI_AGAIN'', ''EPIPE'', ''ERR_STREAM_PREMATURE_CLOSE'']"

definition relay_safeLogFields :: "relay_log \<Rightarrow> (string \<times> jv) list" where
  "relay_safeLogFields f =
     (if rl_route f \<noteq> JUndef then [(''route'', or_other relay_routes (rl_route f))] else [])
     @ (if int_between 100 599 (rl_status f) then [(''status'', rl_status f)] else [])
     @ (case rl_durationMs f of None \<Rightarrow> [] | Some d \<Rightarrow> [(''durationMs'', JInt (max 0 d))])
     @ (if rl_reused f \<in> {JBool True, JBool False} then [(''reused'', rl_reused f)] else [])
     @ (if includes_str relay_events (rl_event f) then [(''event'', rl_event f)] else [])
     @ (if rl_errorType f \<noteq> JUndef then [(''errorType'', or_other relay_errorTypes (rl_errorType f))] else [])
     @ (if includes_str relay_reasons (rl_reason f) then [(''reason'', rl_reason f)] else [])
     @ (if rl_code f \<noteq> JUndef then [(''code'', or_other relay_codes (rl_code f))] else [])"

definition relay_log_words :: "string list" where
  "relay_log_words = ''other'' # relay_routes @ relay_events @ relay_errorTypes @ relay_reasons @ relay_codes"

interpretation relay_log: closed_log relay_safeLogFields relay_log_words
proof unfold_locales
  fix f
  have w: "set relay_events \<subseteq> set relay_log_words" "set relay_reasons \<subseteq> set relay_log_words"
    and o: "or_other relay_routes v \<in> JStr ` set relay_log_words" "or_other relay_errorTypes v \<in> JStr ` set relay_log_words"
      "or_other relay_codes v \<in> JStr ` set relay_log_words" for v
    by ((rule or_other_words)?; auto simp: relay_log_words_def)+
  show "snd ` set (relay_safeLogFields f) \<subseteq> range JInt \<union> range JBool \<union> JStr ` set relay_log_words"
    using o by (auto simp: relay_safeLogFields_def dest: int_between_int includes_str_words [OF _ w(1)] includes_str_words [OF _ w(2)]
        split: option.splits)
qed

end
