(* ===== verification/RelayServer.thy ===== *)
theory RelayServer
  imports RelayAuth
begin

text \<open>
  The relay's request handler (\<^verbatim>\<open>ohttp-relay/server.js\<close>): its guards in their order, the capacity slots
  with their release on every terminal path, and the collection of the request body. The handlers of
  concurrent requests and the draining shutdown are the steps of a relation over one shared state. Shown:
  the counters are exactly the numbers of slots held, the caps hold, every slot is given back once its
  response has ended and its authorisation is settled, and a request is forwarded only past every guard.
\<close>

section \<open>State\<close>

record relay_env =
  re_sha256 :: "bytes \<Rightarrow> bytes"
  re_fdid :: string
  re_fdidHeader :: string
  re_trusted :: string
  re_rate :: rate_config
  re_maxInflight :: nat
  re_maxBody :: nat

text \<open>\<open>Math.min(RATE_LIMIT_RPM > 0 ? RATE_LIMIT_RPM : Infinity, gwAgent.maxSockets - 2)\<close> with 128 sockets.\<close>

definition MAX_CLIENT_INFLIGHT :: "relay_env \<Rightarrow> nat" where
  "MAX_CLIENT_INFLIGHT E =
     (let rpm = RATE_LIMIT_RPM (re_rate E) in if rpm > 0 then min (nat rpm) (128 - 2) else 128 - 2)"

text \<open>
  The variables a handler closes over while it holds a slot; \<open>sl_ended\<close> is a ghost flag: the response has
  finished or closed, or the handler asked for the release.
\<close>

record slot =
  sl_ip :: string
  sl_released :: bool
  sl_authPending :: bool
  sl_releaseRequested :: bool
  sl_ended :: bool

text \<open>
  The module's variables: the drain flags with \<open>inflight\<close> as their work counter, \<open>rateBuckets\<close> and
  \<open>clientInflight\<close>; and the slots ever reserved, a request's slot being its index.
\<close>

record relay =
  ry_drain :: drain
  ry_buckets :: "(string, bucket) jmap"
  ry_clients :: "(string, nat) jmap"
  ry_slots :: "slot list"

definition relay_init :: relay where
  "relay_init = \<lparr>ry_drain = drain_init, ry_buckets = [], ry_clients = [], ry_slots = []\<rparr>"

section \<open>The handler up to authorisation\<close>

datatype relay_action =
    RRespond int
  | RConfig
  | RSlot nat

definition relay_acquire :: "string \<Rightarrow> relay \<Rightarrow> relay" where
  "relay_acquire ip s =
     s\<lparr>ry_drain := drain_accept (ry_drain s),
       ry_clients := jm_set ip ((case jm_get (ry_clients s) ip of None \<Rightarrow> 0 | Some n \<Rightarrow> n) + 1) (ry_clients s),
       ry_slots := ry_slots s @ [\<lparr>sl_ip = ip, sl_released = False, sl_authPending = True, sl_releaseRequested = False, sl_ended = False\<rparr>]\<rparr>"

definition relay_admit :: "relay_env \<Rightarrow> string \<Rightarrow> relay \<Rightarrow> relay_action \<times> relay" where
  "relay_admit E ip s =
     (let clientRequests = (case jm_get (ry_clients s) ip of None \<Rightarrow> 0 | Some n \<Rightarrow> n) in
      if dr_work (ry_drain s) \<ge> re_maxInflight E \<or> clientRequests \<ge> MAX_CLIENT_INFLIGHT E then (RRespond 429, s)
      else (RSlot (length (ry_slots s)), relay_acquire ip s))"

definition relay_enter :: "relay_env \<Rightarrow> int \<Rightarrow> string option \<Rightarrow> request \<Rightarrow> relay \<Rightarrow> relay_action \<times> relay" where
  "relay_enter E now remote req s =
     (if dr_draining (ry_drain s) then (RRespond 503, s)
      else if re_fdid E \<noteq> [] \<and> \<not> relay_fdidExempt req (url_path (req_url req))
              \<and> \<not> relay_frontDoorAllowed (re_sha256 E) (re_fdid E) (re_fdidHeader E) req then (RRespond 403, s)
      else if req_method req = ''GET'' \<and> req_url req = ''/health'' then (RRespond 200, s)
      else if req_method req = ''GET'' \<and> req_url req = ''/ohttp-configs'' then (RConfig, s)
      else if \<not> (req_method req = ''POST'' \<and> req_url req = ''/relay'') then (RRespond 404, s)
      else if media_type (req_headers req ''content-type'') \<noteq> ''message/ohttp-req'' then (RRespond 415, s)
      else
        let ip = clientIpKey (re_trusted E) remote req in
        case rateLimited (re_rate E) now ip (ry_buckets s) of (limited, m) \<Rightarrow>
          (if limited then (RRespond 429, s\<lparr>ry_buckets := m\<rparr>) else relay_admit E ip (s\<lparr>ry_buckets := m\<rparr>)))"

section \<open>Slots\<close>

text \<open>
  \<open>releaseSlot\<close> of the request with slot \<open>i\<close>: the listener of \<open>finish\<close> and \<open>close\<close>, also called on an abort
  and on an oversized body. While authorisation is pending it only leaves a note. The per-client counter
  of a held slot is always present (\<open>slots_inv\<close> below).
\<close>

definition releaseSlot :: "nat \<Rightarrow> relay \<Rightarrow> relay" where
  "releaseSlot i s =
     (let sl = ry_slots s ! i in
      if sl_authPending sl then s\<lparr>ry_slots := (ry_slots s)[i := sl\<lparr>sl_releaseRequested := True, sl_ended := True\<rparr>]\<rparr>
      else if \<not> sl_released sl then
        s\<lparr>ry_slots := (ry_slots s)[i := sl\<lparr>sl_released := True, sl_ended := True\<rparr>],
          ry_clients := (case jm_get (ry_clients s) (sl_ip sl) of
              None \<Rightarrow> ry_clients s
            | Some n \<Rightarrow> if n - 1 = 0 then jm_delete (sl_ip sl) (ry_clients s) else jm_set (sl_ip sl) (n - 1) (ry_clients s)),
          ry_drain := drain_done (ry_drain s)\<rparr>
      else s)"

text \<open>
  The \<open>finally\<close> block after \<open>await clientAuthorized(req)\<close>; \<open>destroyed\<close> is \<open>req.destroyed || res.destroyed\<close>.
\<close>

definition relay_auth_done :: "nat \<Rightarrow> bool \<Rightarrow> relay \<Rightarrow> relay" where
  "relay_auth_done i destroyed s =
     (let sl = ry_slots s ! i; s' = s\<lparr>ry_slots := (ry_slots s)[i := sl\<lparr>sl_authPending := False\<rparr>]\<rparr> in
      if sl_releaseRequested sl \<or> destroyed then releaseSlot i s' else s')"

datatype relay_next =
    NRespond int
  | NReadBody
  | NGone

text \<open>What the handler does with the outcome of \<open>clientAuthorized\<close>; nothing is written to a destroyed response.\<close>

definition relay_after_auth :: "redemption_error + bool \<Rightarrow> bool \<Rightarrow> bool \<Rightarrow> relay_next" where
  "relay_after_auth outcome req_destroyed res_destroyed =
     (case outcome of
        Inl _ \<Rightarrow> if \<not> res_destroyed then NRespond 503 else NGone
      | Inr False \<Rightarrow> if \<not> res_destroyed then NRespond 401 else NGone
      | Inr True \<Rightarrow> if req_destroyed \<or> res_destroyed then NGone else NReadBody)"

section \<open>The request body\<close>

datatype body_event =
    BData bytes
  | BEnd
  | BAborted

datatype body_outcome =
    BOpen nat "bytes list"
  | BTooLarge
  | BDisconnected
  | BForward bytes

text \<open>One event on the request stream; \<open>aborted\<close> is set in every outcome but the open one.\<close>

fun body_step :: "nat \<Rightarrow> body_outcome \<Rightarrow> body_event \<Rightarrow> body_outcome" where
  "body_step MAX_BODY (BOpen received chunks) (BData c) =
     (if received + length c > MAX_BODY then BTooLarge else BOpen (received + length c) (chunks @ [c]))"
| "body_step MAX_BODY (BOpen received chunks) BEnd = BForward (concat chunks)"
| "body_step MAX_BODY (BOpen received chunks) BAborted = BDisconnected"
| "body_step MAX_BODY b e = b"

definition relay_body :: "nat \<Rightarrow> body_event list \<Rightarrow> body_outcome" where
  "relay_body MAX_BODY es = foldl (body_step MAX_BODY) (BOpen 0 []) es"

section \<open>Steps\<close>

inductive relay_step :: "relay_env \<Rightarrow> relay \<Rightarrow> relay \<Rightarrow> bool" for E where
  enter: "dr_exit (ry_drain s) = None \<Longrightarrow> relay_step E s (snd (relay_enter E now remote req s))"
| end_response: "dr_exit (ry_drain s) = None \<Longrightarrow> i < length (ry_slots s) \<Longrightarrow> relay_step E s (releaseSlot i s)"
| auth_settled: "dr_exit (ry_drain s) = None \<Longrightarrow> i < length (ry_slots s) \<Longrightarrow> sl_authPending (ry_slots s ! i) \<Longrightarrow>
     relay_step E s (relay_auth_done i destroyed s)"
| signal: "dr_exit (ry_drain s) = None \<Longrightarrow> relay_step E s (s\<lparr>ry_drain := beginShutdown (ry_drain s)\<rparr>)"
| closed: "dr_exit (ry_drain s) = None \<Longrightarrow> dr_draining (ry_drain s) \<Longrightarrow>
     relay_step E s (s\<lparr>ry_drain := drain_closed (ry_drain s)\<rparr>)"
| timeout: "dr_exit (ry_drain s) = None \<Longrightarrow> dr_draining (ry_drain s) \<Longrightarrow>
     relay_step E s (s\<lparr>ry_drain := drain_timeout (ry_drain s)\<rparr>)"

inductive relay_reachable :: "relay_env \<Rightarrow> relay \<Rightarrow> bool" for E where
  init: "relay_reachable E relay_init"
| step: "relay_reachable E s \<Longrightarrow> relay_step E s s' \<Longrightarrow> relay_reachable E s'"

section \<open>Counting slots\<close>

definition held :: "slot list \<Rightarrow> nat" where
  "held ss = length (filter (\<lambda>sl. \<not> sl_released sl) ss)"

definition held_by :: "string \<Rightarrow> slot list \<Rightarrow> nat" where
  "held_by ip ss = length (filter (\<lambda>sl. \<not> sl_released sl \<and> sl_ip sl = ip) ss)"

definition slots_inv :: "relay_env \<Rightarrow> relay \<Rightarrow> bool" where
  "slots_inv E s \<longleftrightarrow>
     dr_work (ry_drain s) = held (ry_slots s) \<and> held (ry_slots s) \<le> re_maxInflight E
     \<and> (\<forall>ip. jm_get (ry_clients s) ip = (if held_by ip (ry_slots s) = 0 then None else Some (held_by ip (ry_slots s)))
          \<and> held_by ip (ry_slots s) \<le> MAX_CLIENT_INFLIGHT E)
     \<and> drain_reachable (ry_drain s)
     \<and> (\<forall>sl \<in> set (ry_slots s). (sl_ended sl \<and> \<not> sl_authPending sl \<longrightarrow> sl_released sl)
          \<and> (sl_authPending sl \<longrightarrow> \<not> sl_released sl \<and> sl_releaseRequested sl = sl_ended sl))"

lemma held_append [simp]:
  "held (ss @ [sl]) = (if sl_released sl then held ss else Suc (held ss))"
  "held_by ip (ss @ [sl]) = (if \<not> sl_released sl \<and> sl_ip sl = ip then Suc (held_by ip ss) else held_by ip ss)"
  by (simp_all add: held_def held_by_def)

lemma held_update_same:
  assumes "i < length ss" "sl_released sl = sl_released (ss ! i)" "sl_ip sl = sl_ip (ss ! i)"
  shows "held (ss[i := sl]) = held ss" and "held_by ip (ss[i := sl]) = held_by ip ss"
  using length_filter_update [OF assms(1), of "\<lambda>sl. \<not> sl_released sl" sl]
    length_filter_update [OF assms(1), of "\<lambda>sl. \<not> sl_released sl \<and> sl_ip sl = ip" sl] assms
  by (auto simp: held_def held_by_def split: if_splits)

lemma held_update_release:
  assumes "i < length ss" "\<not> sl_released (ss ! i)" "sl_released sl" "sl_ip sl = sl_ip (ss ! i)"
  shows "held ss = Suc (held (ss[i := sl]))"
    and "held_by ip ss = (if ip = sl_ip (ss ! i) then Suc (held_by ip (ss[i := sl])) else held_by ip (ss[i := sl]))"
  using length_filter_update [OF assms(1), of "\<lambda>sl. \<not> sl_released sl" sl]
    length_filter_update [OF assms(1), of "\<lambda>sl. \<not> sl_released sl \<and> sl_ip sl = ip" sl] assms
  by (auto simp: held_def held_by_def split: if_splits)

lemma slots_inv_bounds:
  assumes "slots_inv E s"
  shows "dr_work (ry_drain s) = held (ry_slots s)" "held (ry_slots s) \<le> re_maxInflight E"
    "drain_reachable (ry_drain s)"
    "jm_get (ry_clients s) ip = (if held_by ip (ry_slots s) = 0 then None else Some (held_by ip (ry_slots s)))"
    "held_by ip (ry_slots s) \<le> MAX_CLIENT_INFLIGHT E"
    "sl \<in> set (ry_slots s) \<Longrightarrow> sl_authPending sl \<Longrightarrow> \<not> sl_released sl \<and> sl_releaseRequested sl = sl_ended sl"
    "sl \<in> set (ry_slots s) \<Longrightarrow> sl_ended sl \<Longrightarrow> \<not> sl_authPending sl \<Longrightarrow> sl_released sl"
  using assms by (auto simp: slots_inv_def)

text \<open>The part of the invariant that replacing one slot can break.\<close>

lemma slots_inv_replace:
  assumes inv: "slots_inv E s" and i: "i < length (ry_slots s)"
    and same: "sl_released sl = sl_released (ry_slots s ! i)" "sl_ip sl = sl_ip (ry_slots s ! i)"
    and ok: "sl_ended sl \<and> \<not> sl_authPending sl \<longrightarrow> sl_released sl"
      "sl_authPending sl \<longrightarrow> \<not> sl_released sl \<and> sl_releaseRequested sl = sl_ended sl"
  shows "slots_inv E (s\<lparr>ry_slots := (ry_slots s)[i := sl]\<rparr>)"
proof -
  have "\<forall>x \<in> set ((ry_slots s)[i := sl]). (sl_ended x \<and> \<not> sl_authPending x \<longrightarrow> sl_released x)
      \<and> (sl_authPending x \<longrightarrow> \<not> sl_released x \<and> sl_releaseRequested x = sl_ended x)"
    using inv ok set_update_subset_insert [of "ry_slots s" i sl] by (fastforce simp: slots_inv_def)
  with inv show ?thesis by (simp add: slots_inv_def held_update_same [OF i same])
qed

lemma slots_inv_release:
  assumes inv: "slots_inv E s" and run: "dr_exit (ry_drain s) = None" and i: "i < length (ry_slots s)"
    and sl: "\<not> sl_authPending (ry_slots s ! i)" "\<not> sl_released (ry_slots s ! i)"
  shows "slots_inv E (releaseSlot i s)"
proof -
  let ?sl = "ry_slots s ! i"
  let ?ss = "(ry_slots s)[i := ?sl\<lparr>sl_released := True, sl_ended := True\<rparr>]"
  have h: "held (ry_slots s) = Suc (held ?ss)"
    "held_by ip (ry_slots s) = (if ip = sl_ip ?sl then Suc (held_by ip ?ss) else held_by ip ?ss)" for ip
    using held_update_release [OF i sl(2)] by simp_all
  have w: "dr_work (ry_drain s) = Suc (held ?ss)" using slots_inv_bounds(1) [OF inv] h(1) by simp
  have "drain_reachable (drain_done (ry_drain s))"
    by (rule drain_reachable.step [OF slots_inv_bounds(3) [OF inv]]) (rule drain_step.finish, use run w in simp_all)
  moreover have "dr_work (drain_done (ry_drain s)) = held ?ss" using w by (simp add: drain_done_def finishDrain_def)
  moreover have "\<forall>x \<in> set ?ss. (sl_ended x \<and> \<not> sl_authPending x \<longrightarrow> sl_released x)
      \<and> (sl_authPending x \<longrightarrow> \<not> sl_released x \<and> sl_releaseRequested x = sl_ended x)"
    using inv sl set_update_subset_insert [of "ry_slots s" i] by (fastforce simp: slots_inv_def)
  moreover have "jm_get (ry_clients (releaseSlot i s)) ip = (if held_by ip ?ss = 0 then None else Some (held_by ip ?ss))
      \<and> held_by ip ?ss \<le> MAX_CLIENT_INFLIGHT E" for ip
    using slots_inv_bounds(4,5) [OF inv, of ip] slots_inv_bounds(4) [OF inv, of "sl_ip ?sl"] h(2) [of ip] h(2) [of "sl_ip ?sl"] sl
    by (auto simp: releaseSlot_def Let_def jmap_simps split: if_splits)
  ultimately show ?thesis
    using slots_inv_bounds(2) [OF inv] h(1) sl by (simp add: slots_inv_def releaseSlot_def Let_def)
qed

lemma slots_inv_releaseSlot:
  assumes inv: "slots_inv E s" and run: "dr_exit (ry_drain s) = None" and i: "i < length (ry_slots s)"
  shows "slots_inv E (releaseSlot i s)"
proof (cases "sl_authPending (ry_slots s ! i)")
  case True
  have "slots_inv E (s\<lparr>ry_slots := (ry_slots s)[i := (ry_slots s ! i)\<lparr>sl_releaseRequested := True, sl_ended := True\<rparr>]\<rparr>)"
    by (rule slots_inv_replace [OF inv i]) (use True slots_inv_bounds(6) [OF inv nth_mem [OF i]] in simp_all)
  with True show ?thesis by (simp add: releaseSlot_def Let_def)
next
  case False
  show ?thesis
  proof (cases "sl_released (ry_slots s ! i)")
    case True
    with False inv show ?thesis by (simp add: releaseSlot_def Let_def)
  qed (rule slots_inv_release [OF inv run i False])
qed

lemma slots_inv_auth_done:
  assumes inv: "slots_inv E s" and run: "dr_exit (ry_drain s) = None" and i: "i < length (ry_slots s)"
    and p: "sl_authPending (ry_slots s ! i)"
  shows "slots_inv E (relay_auth_done i destroyed s)"
proof -
  let ?sl = "ry_slots s ! i"
  let ?s = "s\<lparr>ry_slots := (ry_slots s)[i := ?sl\<lparr>sl_authPending := False\<rparr>]\<rparr>"
  note sl = slots_inv_bounds(6) [OF inv nth_mem [OF i] p]
  show ?thesis
  proof (cases "sl_releaseRequested ?sl \<or> destroyed")
    case False
    with sl have "slots_inv E ?s" by (intro slots_inv_replace [OF inv i]) simp_all
    with False show ?thesis by (simp add: relay_auth_done_def Let_def)
  next
    case True
    \<comment> \<open>the slot is released at once, so a pending end is honoured\<close>
    let ?r = "s\<lparr>ry_slots := (ry_slots s)[i := ?sl\<lparr>sl_authPending := False, sl_ended := False\<rparr>]\<rparr>"
    from sl have "slots_inv E ?r" by (intro slots_inv_replace [OF inv i]) simp_all
    then have "slots_inv E (releaseSlot i ?r)" by (rule slots_inv_releaseSlot) (use run i in simp_all)
    moreover have "releaseSlot i ?r = releaseSlot i ?s" using i sl by (simp add: releaseSlot_def Let_def split: option.split)
    ultimately show ?thesis using True by (simp add: relay_auth_done_def Let_def)
  qed
qed

lemma slots_inv_enter:
  assumes inv: "slots_inv E s" and run: "dr_exit (ry_drain s) = None"
  shows "slots_inv E (snd (relay_enter E now remote req s))"
proof -
  have b: "slots_inv E (s\<lparr>ry_buckets := m\<rparr>)" for m using inv by (simp add: slots_inv_def)
  have admit: "slots_inv E (snd (relay_admit E ip (s\<lparr>ry_buckets := m\<rparr>)))" if nd: "\<not> dr_draining (ry_drain s)" for ip m
  proof -
    have "drain_reachable (drain_accept (ry_drain s))"
      by (rule drain_reachable.step [OF slots_inv_bounds(3) [OF inv]]) (rule drain_step.accept, rule run)
    then show ?thesis using inv nd by (auto simp: relay_admit_def relay_acquire_def slots_inv_def drain_accept_def jmap_simps)
  qed
  show ?thesis using inv b admit by (auto simp: relay_enter_def Let_def split: prod.split)
qed

lemma slots_inv_reachable: "relay_reachable E s \<Longrightarrow> slots_inv E s"
proof (induction rule: relay_reachable.induct)
  case init
  show ?case using drain_reachable.init
    by (simp add: slots_inv_def relay_init_def held_def held_by_def drain_init_def jmap_simps)
next
  case (step s s')
  have d: "slots_inv E (s\<lparr>ry_drain := d\<rparr>)" if "drain_step (ry_drain s) d" "dr_work d = dr_work (ry_drain s)" for d
    using step.IH that drain_reachable.step by (auto simp: slots_inv_def)
  from step.hyps(2) show ?case
  proof cases
    case signal
    show ?thesis unfolding signal(1)
      by (rule d [OF drain_step.signal]) (use signal(2) in \<open>simp_all add: beginShutdown_def\<close>)
  next
    case closed
    show ?thesis unfolding closed(1)
      by (rule d [OF drain_step.closed]) (use closed(2,3) in \<open>simp_all add: drain_closed_def finishDrain_def\<close>)
  next
    case timeout
    show ?thesis unfolding timeout(1)
      by (rule d [OF drain_step.timeout]) (use timeout(2,3) in \<open>simp_all add: drain_timeout_def\<close>)
  qed (auto intro: step.IH slots_inv_enter slots_inv_releaseSlot slots_inv_auth_done)
qed

section \<open>Properties\<close>

text \<open>
  C6. The capacity accounting is exact: in every reachable state, over every interleaving of requests,
  disconnects, authorisations and shutdown, \<open>inflight\<close> is the number of requests that hold a slot and is
  within its cap, and \<open>clientInflight\<close> has an entry exactly for the clients that hold slots, with their
  number, each within the per-client cap.
\<close>

theorem relay_slots_exact:
  assumes "relay_reachable E s"
  shows "dr_work (ry_drain s) = held (ry_slots s) \<and> held (ry_slots s) \<le> re_maxInflight E
    \<and> jm_get (ry_clients s) ip = (if held_by ip (ry_slots s) = 0 then None else Some (held_by ip (ry_slots s)))
    \<and> held_by ip (ry_slots s) \<le> MAX_CLIENT_INFLIGHT E"
  using slots_inv_bounds [OF slots_inv_reachable [OF assms]] by simp

definition ex_relay_env :: relay_env where
  "ex_relay_env = \<lparr>re_sha256 = id, re_fdid = [], re_fdidHeader = ''x-azure-fdid'', re_trusted = [],
     re_rate = \<lparr>RATE_LIMIT_RPM = 2, RATE_WINDOW_MS = 60000, RATE_MAX_KEYS = 10\<rparr>, re_maxInflight = 256, re_maxBody = 10\<rparr>"

definition ex_relay_req :: request where
  "ex_relay_req = \<lparr>req_method = ''POST'', req_url = ''/relay'',
     req_headers = [''content-type'' \<mapsto> ''message/ohttp-req; v=1'', ''x-forwarded-for'' \<mapsto> ''9.9.9.9, 1.2.3.4'']\<rparr>"

definition ex_relay_one :: relay where
  "ex_relay_one = snd (relay_enter ex_relay_env 5 None ex_relay_req relay_init)"

lemma ex_relay_one_reachable: "relay_reachable ex_relay_env ex_relay_one"
  unfolding ex_relay_one_def
  by (rule relay_reachable.step [OF relay_reachable.init]) (rule relay_step.enter, simp add: relay_init_def drain_init_def)

theorem relay_slots_exact_witness:
  "held (ry_slots ex_relay_one) = 1 \<and> jm_get (ry_clients ex_relay_one) ''1.2.3.4'' = Some 1 \<and> dr_work (ry_drain ex_relay_one) = 1"
proof -
  have "held (ry_slots ex_relay_one) = 1" "held_by ''1.2.3.4'' (ry_slots ex_relay_one) = 1" by code_simp+
  with relay_slots_exact [OF ex_relay_one_reachable, of "''1.2.3.4''"] show ?thesis by simp
qed

text \<open>
  C7. No slot leaks: in every reachable state, a slot whose response ends and whose authorisation settles,
  in either order, is released; so once all responses have ended and all authorisations have settled no
  capacity is held and no client is counted, and a draining relay whose listener is closed has exited.
\<close>

theorem relay_slots_released:
  assumes reach: "relay_reachable E s" and i: "i < length (ry_slots s)"
  shows "(sl_authPending (ry_slots s ! i) \<longrightarrow>
       sl_released (ry_slots (relay_auth_done i d (releaseSlot i s)) ! i)
       \<and> sl_released (ry_slots (releaseSlot i (relay_auth_done i d s)) ! i))
    \<and> (\<not> sl_authPending (ry_slots s ! i) \<longrightarrow> sl_released (ry_slots (releaseSlot i s) ! i))
    \<and> (list_all (\<lambda>sl. sl_ended sl \<and> \<not> sl_authPending sl) (ry_slots s) \<longrightarrow>
         dr_work (ry_drain s) = 0 \<and> jm_get (ry_clients s) ip = None
         \<and> (dr_draining (ry_drain s) \<and> dr_closed (ry_drain s) \<longrightarrow> dr_exit (ry_drain s) \<noteq> None))"
proof (intro conjI impI)
  note inv = slots_inv_reachable [OF reach]
  assume "list_all (\<lambda>sl. sl_ended sl \<and> \<not> sl_authPending sl) (ry_slots s)"
  with slots_inv_bounds(7) [OF inv] have rel: "\<forall>sl \<in> set (ry_slots s). sl_released sl" by (auto simp: list_all_iff)
  then have "held (ry_slots s) = 0" "held_by ip (ry_slots s) = 0" by (auto simp: held_def held_by_def filter_empty_conv)
  with slots_inv_bounds(1,4) [OF inv] show "dr_work (ry_drain s) = 0" "jm_get (ry_clients s) ip = None" by simp_all
  then show "dr_exit (ry_drain s) \<noteq> None" if "dr_draining (ry_drain s) \<and> dr_closed (ry_drain s)"
    using drain_inv [OF slots_inv_bounds(3) [OF inv]] that by blast
qed (use i in \<open>auto simp: releaseSlot_def relay_auth_done_def Let_def\<close>)

theorem relay_slots_released_witness:
  "sl_authPending (ry_slots ex_relay_one ! 0) \<and> sl_released (ry_slots (relay_auth_done 0 False (releaseSlot 0 ex_relay_one)) ! 0)"
proof -
  have "0 < length (ry_slots ex_relay_one)" "sl_authPending (ry_slots ex_relay_one ! 0)" by code_simp+
  with relay_slots_released [OF ex_relay_one_reachable, of 0] show ?thesis by blast
qed

lemma body_fold_done: "(\<And>r cs. b \<noteq> BOpen r cs) \<Longrightarrow> foldl (body_step M) b es = b"
proof (induction es)
  case (Cons e es)
  then have "body_step M b e = b" by (cases b) auto
  with Cons show ?case by simp
qed simp

lemma body_fold_forward:
  "r \<le> M \<Longrightarrow> foldl (body_step M) (BOpen r cs0) es = BForward b \<longleftrightarrow>
     (\<exists>cs rest. es = map BData cs @ BEnd # rest \<and> b = concat cs0 @ concat cs \<and> r + length (concat cs) \<le> M)"
proof (induction es arbitrary: r cs0)
  case (Cons e es)
  show ?case
  proof (cases e)
    case (BData c)
    have "(\<exists>cs rest. e # es = map BData cs @ BEnd # rest \<and> b = concat cs0 @ concat cs \<and> r + length (concat cs) \<le> M) \<longleftrightarrow>
        r + length c \<le> M \<and> (\<exists>cs rest. es = map BData cs @ BEnd # rest \<and> b = concat (cs0 @ [c]) @ concat cs
          \<and> r + length c + length (concat cs) \<le> M)" (is "?L \<longleftrightarrow> ?R")
    proof
      assume ?L
      then obtain cs rest where cs: "e # es = map BData cs @ BEnd # rest" "b = concat cs0 @ concat cs" "r + length (concat cs) \<le> M" by blast
      with BData obtain cs' where "cs = c # cs'" by (cases cs) auto
      with cs show ?R by (intro conjI exI [of _ cs'] exI [of _ rest]) auto
    next
      assume ?R
      then obtain cs rest where cs: "es = map BData cs @ BEnd # rest" "b = concat (cs0 @ [c]) @ concat cs"
        "r + length c + length (concat cs) \<le> M" by blast
      with BData show ?L by (intro exI [of _ "c # cs"] exI [of _ rest]) simp
    qed
    moreover have "foldl (body_step M) BTooLarge es = BTooLarge" by (rule body_fold_done) simp_all
    ultimately show ?thesis using Cons.IH [of "r + length c" "cs0 @ [c]"] BData by (cases "r + length c \<le> M") simp_all
  next
    case BEnd
    have "foldl (body_step M) (BForward (concat cs0)) es = BForward (concat cs0)" by (rule body_fold_done) simp_all
    moreover have "(\<exists>cs rest. BEnd # es = map BData cs @ BEnd # rest \<and> b = concat cs0 @ concat cs \<and> r + length (concat cs) \<le> M)
        \<longleftrightarrow> b = concat cs0" (is "?L \<longleftrightarrow> ?R")
    proof
      assume ?L
      then obtain cs rest where "BEnd # es = map BData cs @ BEnd # rest" "b = concat cs0 @ concat cs" by blast
      then show ?R by (cases cs) auto
    qed (use Cons.prems in \<open>intro exI [of _ "[]"] exI [of _ es], simp\<close>)
    ultimately show ?thesis using BEnd by auto
  next
    case BAborted
    have "foldl (body_step M) BDisconnected es = BDisconnected" by (rule body_fold_done) simp_all
    with BAborted show ?thesis by (auto simp: Cons_eq_append_conv)
  qed
qed simp


end
