(* ===== verification/RelayProxy.thy ===== *)
theory RelayProxy
  imports RelayServer
begin

text \<open>
  The relay's hop to the gateway (\<^verbatim>\<open>ohttp-relay/server.js\<close>): \<open>forwardToGateway\<close>, \<open>proxyGatewayRequest\<close> and
  \<open>serveConfig\<close>. A flight (one upstream request and the callers waiting on it) is a record driven by the
  events of its callers and of the gateway's response. Shown: every caller of a flight gets one outcome,
  the buffered answer is bounded and passed on unchanged, at most one key-config fetch is under way at a
  time, and nothing of a client but its ciphertext reaches the gateway.
\<close>

section \<open>forwardToGateway\<close>

record gateway =
  gw_hostname :: string
  gw_port :: int
  gw_pathname :: string
  gw_secret :: string

record gw_request =
  go_hostname :: string
  go_port :: int
  go_path :: string
  go_method :: string
  go_headers :: "(string \<times> string) list"
  go_body :: bytes

definition RELAY_GATEWAY_HEADER :: string where
  "RELAY_GATEWAY_HEADER = ''x-columbia-relay-auth''"

definition forwardToGateway :: "gateway \<Rightarrow> bytes \<Rightarrow> gw_request" where
  "forwardToGateway G body =
     \<lparr>go_hostname = gw_hostname G, go_port = gw_port G, go_path = gw_pathname G, go_method = ''POST'',
      go_headers = [(''Content-Type'', ''message/ohttp-req''), (''Content-Length'', js_nat_string (length body))]
        @ (if gw_secret G \<noteq> [] then [(RELAY_GATEWAY_HEADER, gw_secret G)] else []),
      go_body = body\<rparr>"

text \<open>
  What one client request makes the relay send, the handler's steps put in a row: entry, authorisation with
  the given outcome, the body's events.
\<close>

definition relay_outbound :: "gateway \<Rightarrow> relay_env \<Rightarrow> int \<Rightarrow> string option \<Rightarrow> request \<Rightarrow> relay
    \<Rightarrow> redemption_error + bool \<Rightarrow> bool \<Rightarrow> bool \<Rightarrow> body_event list \<Rightarrow> gw_request option" where
  "relay_outbound G E now remote req s outcome reqd resd es =
     (case fst (relay_enter E now remote req s) of
        RSlot i \<Rightarrow>
          (case relay_after_auth outcome reqd resd of
             NReadBody \<Rightarrow>
               (case relay_body (re_maxBody E) es of
                  BForward body \<Rightarrow> Some (forwardToGateway G body)
                | _ \<Rightarrow> None)
           | _ \<Rightarrow> None)
      | _ \<Rightarrow> None)"

section \<open>proxyGatewayRequest\<close>

type_synonym reply = "int \<times> (string \<times> string) list \<times> bytes"

text \<open>
  A flight: \<open>fl_head\<close> is the status and the content type of the gateway's response once it has arrived,
  \<open>fl_rc\<close> and \<open>fl_rcLen\<close> the buffered body. \<open>fl_sent\<close> and \<open>fl_logged\<close> record the answers written and the
  outcomes logged, each with its caller.
\<close>

record flight =
  fl_completed :: bool
  fl_callers :: "nat list"
  fl_head :: "(int \<times> string option) option"
  fl_rc :: "bytes list"
  fl_rcLen :: nat
  fl_sent :: "(nat \<times> reply) list"
  fl_logged :: "(nat \<times> int) list"

definition flight_new :: flight where
  "flight_new = \<lparr>fl_completed = False, fl_callers = [], fl_head = None, fl_rc = [], fl_rcLen = 0, fl_sent = [], fl_logged = []\<rparr>"

text \<open>\<open>dest i\<close> says whether the response object of caller \<open>i\<close> is destroyed.\<close>

definition fl_finish :: "(nat \<Rightarrow> bool) \<Rightarrow> reply \<Rightarrow> flight \<Rightarrow> flight" where
  "fl_finish dest r f =
     (if fl_completed f then f
      else f\<lparr>fl_completed := True,
             fl_sent := fl_sent f @ map (\<lambda>i. (i, r)) (filter (\<lambda>i. \<not> dest i \<and> i \<notin> fst ` set (fl_sent f)) (fl_callers f)),
             fl_logged := fl_logged f @ map (\<lambda>i. (i, fst r)) (fl_callers f),
             fl_callers := []\<rparr>)"

text \<open>The \<open>close\<close> listener of a waiting caller; the last one to leave ends the flight.\<close>

definition fl_closed :: "(nat \<Rightarrow> bool) \<Rightarrow> nat \<Rightarrow> flight \<Rightarrow> flight" where
  "fl_closed dest i f =
     (if i \<in> fst ` set (fl_sent f) \<or> fl_completed f then f
      else let f' = f\<lparr>fl_callers := filter (\<lambda>j. j \<noteq> i) (fl_callers f), fl_logged := fl_logged f @ [(i, 499)]\<rparr> in
        if fl_callers f' = [] then fl_finish dest (499, [], []) f' else f')"

definition fl_add :: "(nat \<Rightarrow> bool) \<Rightarrow> nat \<Rightarrow> flight \<Rightarrow> bool \<times> flight" where
  "fl_add dest i f =
     (if fl_completed f then (False, f)
      else let f' = f\<lparr>fl_callers := fl_callers f @ [i]\<rparr> in (True, if dest i then fl_closed dest i f' else f'))"

datatype gw_event =
    GHead int "string option"
  | GData bytes
  | GEnd
  | GResError
  | GReqError

definition gw_status :: "int \<Rightarrow> int" where
  "gw_status st = (if st = 0 then 502 else st)"

text \<open>\<open>hdrs status ctype\<close> is \<open>headersForResponse\<close>; a timeout of the request is its error event.\<close>

fun fl_event :: "nat \<Rightarrow> (int \<Rightarrow> string option \<Rightarrow> (string \<times> string) list) \<Rightarrow> (nat \<Rightarrow> bool) \<Rightarrow> gw_event \<Rightarrow> flight \<Rightarrow> flight" where
  "fl_event MAX_RESP_BYTES hdrs dest (GHead st ct) f = (if fl_completed f then f else f\<lparr>fl_head := Some (st, ct)\<rparr>)"
| "fl_event MAX_RESP_BYTES hdrs dest (GData d) f =
     (if fl_completed f \<or> fl_head f = None then f
      else if fl_rcLen f + length d > MAX_RESP_BYTES then fl_finish dest (502, [], []) f
      else f\<lparr>fl_rcLen := fl_rcLen f + length d, fl_rc := fl_rc f @ [d]\<rparr>)"
| "fl_event MAX_RESP_BYTES hdrs dest GEnd f =
     (case fl_head f of
        None \<Rightarrow> f
      | Some (st, ct) \<Rightarrow>
          if fl_completed f then f
          else fl_finish dest (gw_status st, hdrs (gw_status st) ct, concat (fl_rc f)) f)"
| "fl_event MAX_RESP_BYTES hdrs dest GResError f = (if fl_head f = None then f else fl_finish dest (502, [], []) f)"
| "fl_event MAX_RESP_BYTES hdrs dest GReqError f = fl_finish dest (502, [], []) f"

text \<open>The headers of a \<open>/relay\<close> answer.\<close>

definition relay_hdrs :: "int \<Rightarrow> string option \<Rightarrow> (string \<times> string) list" where
  "relay_hdrs status ctype = [(''Content-Type'', ''message/ohttp-res'')]"

text \<open>The life of a flight: callers join (each once) and leave, the gateway's events arrive.\<close>

inductive fl_reachable :: "nat \<Rightarrow> (int \<Rightarrow> string option \<Rightarrow> (string \<times> string) list) \<Rightarrow> nat set \<Rightarrow> flight \<Rightarrow> bool" for M hdrs where
  new: "fl_reachable M hdrs {} flight_new"
| add: "fl_reachable M hdrs A f \<Longrightarrow> i \<notin> A \<Longrightarrow> fl_add dest i f = (True, f') \<Longrightarrow> fl_reachable M hdrs (insert i A) f'"
| close: "fl_reachable M hdrs A f \<Longrightarrow> i \<in> set (fl_callers f) \<Longrightarrow> fl_reachable M hdrs A (fl_closed dest i f)"
| event: "fl_reachable M hdrs A f \<Longrightarrow> fl_reachable M hdrs A (fl_event M hdrs dest e f)"

section \<open>One outcome per caller\<close>

text \<open>All answers written are the same.\<close>

definition one_reply :: "(nat \<times> reply) list \<Rightarrow> bool" where
  "one_reply ps \<longleftrightarrow> (\<exists>r. snd ` set ps \<subseteq> {r})"

lemma one_reply_simps [simp]: "one_reply []" "one_reply (map (\<lambda>i. (i, r)) is)"
  unfolding one_reply_def by (simp, rule exI [of _ r], auto)

definition flight_inv :: "nat \<Rightarrow> nat set \<Rightarrow> flight \<Rightarrow> bool" where
  "flight_inv M A f \<longleftrightarrow>
     distinct (fl_callers f @ map fst (fl_logged f)) \<and> set (fl_callers f) \<union> fst ` set (fl_logged f) = A
     \<and> (fl_completed f \<longrightarrow> fl_callers f = []) \<and> (fl_sent f \<noteq> [] \<longrightarrow> fl_completed f)
     \<and> distinct (map fst (fl_sent f)) \<and> one_reply (fl_sent f)
     \<and> (\<forall>(i, r) \<in> set (fl_sent f). (i, fst r) \<in> set (fl_logged f))
     \<and> fl_rcLen f = length (concat (fl_rc f)) \<and> fl_rcLen f \<le> M"

lemma flight_inv_finish:
  assumes inv: "flight_inv M A f"
  shows "flight_inv M A (fl_finish dest r f)"
proof (cases "fl_completed f")
  case False
  with inv have s: "fl_sent f = []" by (auto simp: flight_inv_def)
  have "distinct (fl_callers f)" using inv by (simp add: flight_inv_def)
  then have "distinct (map fst (map (\<lambda>i. (i, r)) (filter (\<lambda>i. \<not> dest i) (fl_callers f))))"
    by (simp add: comp_def)
  with False inv s show ?thesis
    by (auto simp: flight_inv_def fl_finish_def image_Un image_image comp_def)
qed (use inv in \<open>simp add: fl_finish_def\<close>)

lemma flight_inv_closed:
  assumes inv: "flight_inv M A f" and i: "i \<in> set (fl_callers f)"
  shows "flight_inv M A (fl_closed dest i f)"
proof (cases "i \<in> fst ` set (fl_sent f) \<or> fl_completed f")
  case False
  let ?f = "f\<lparr>fl_callers := filter (\<lambda>j. j \<noteq> i) (fl_callers f), fl_logged := fl_logged f @ [(i, 499)]\<rparr>"
  have f: "flight_inv M A ?f" using inv i False by (auto simp: flight_inv_def)
  have "fl_closed dest i f = (if fl_callers ?f = [] then fl_finish dest (499, [], []) ?f else ?f)"
    using False by (simp only: fl_closed_def Let_def if_False)
  then show ?thesis using f flight_inv_finish [OF f, of dest "(499, [], [])"] by presburger
qed (use inv in \<open>simp add: fl_closed_def\<close>)

lemma flight_inv_add:
  assumes inv: "flight_inv M A f" and i: "i \<notin> A" and a: "fl_add dest i f = (True, f')"
  shows "flight_inv M (insert i A) f'"
proof -
  from a have c: "\<not> fl_completed f" by (auto simp: fl_add_def Let_def split: if_splits)
  let ?f = "f\<lparr>fl_callers := fl_callers f @ [i]\<rparr>"
  have "flight_inv M (insert i A) ?f" using inv i c by (auto simp: flight_inv_def)
  with flight_inv_closed [OF this, of i dest] a c show ?thesis by (auto simp: fl_add_def Let_def split: if_splits)
qed

lemma flight_inv_event:
  assumes inv: "flight_inv M A f"
  shows "flight_inv M A (fl_event M hdrs dest e f)"
proof (cases e)
  case (GData d)
  have "flight_inv M A (f\<lparr>fl_rcLen := fl_rcLen f + length d, fl_rc := fl_rc f @ [d]\<rparr>)" if "fl_rcLen f + length d \<le> M"
    using inv that by (simp add: flight_inv_def)
  with GData flight_inv_finish [OF inv] inv show ?thesis by (simp add: not_less)
next
  case (GHead st ct)
  with inv show ?thesis by (auto simp: flight_inv_def)
qed (use flight_inv_finish [OF inv] inv in \<open>auto split: option.split\<close>)

lemma flight_inv_reachable: "fl_reachable M hdrs A f \<Longrightarrow> flight_inv M A f"
  by (induction rule: fl_reachable.induct)
     (auto simp: flight_new_def intro: flight_inv_add flight_inv_closed flight_inv_event, simp add: flight_inv_def)

section \<open>serveConfig\<close>

text \<open>
  \<open>configCache\<close> (body, content type, time), \<open>configFlight\<close> as an index into the flights ever started.
\<close>

record config_state =
  cf_cache :: "(bytes \<times> string \<times> int) option"
  cf_flight :: "nat option"
  cf_flights :: "flight list"

definition config_init :: config_state where
  "config_init = \<lparr>cf_cache = None, cf_flight = None, cf_flights = []\<rparr>"

definition config_type :: "string option \<Rightarrow> string" where
  "config_type ct = (case ct of None \<Rightarrow> ''application/octet-stream'' | Some c \<Rightarrow> if c = [] then ''application/octet-stream'' else c)"

definition config_hdrs :: "int \<Rightarrow> string option \<Rightarrow> (string \<times> string) list" where
  "config_hdrs status ct = [(''Content-Type'', config_type ct)]"

text \<open>Replacing a flight by its successor; its completion runs \<open>onFinish\<close>, which forgets the flight.\<close>

definition config_update :: "nat \<Rightarrow> flight \<Rightarrow> config_state \<Rightarrow> config_state" where
  "config_update k f s =
     s\<lparr>cf_flights := (cf_flights s)[k := f],
       cf_flight := (if fl_completed f \<and> \<not> fl_completed (cf_flights s ! k) then None else cf_flight s)\<rparr>"

definition config_start :: "(nat \<Rightarrow> bool) \<Rightarrow> nat \<Rightarrow> config_state \<Rightarrow> config_state" where
  "config_start dest i s =
     s\<lparr>cf_flights := cf_flights s @ [snd (fl_add dest i flight_new)], cf_flight := Some (length (cf_flights s))\<rparr>"

text \<open>Join the flight under way, or start one.\<close>

definition config_join :: "(nat \<Rightarrow> bool) \<Rightarrow> nat \<Rightarrow> config_state \<Rightarrow> config_state" where
  "config_join dest i s =
     (case cf_flight s of
        None \<Rightarrow> config_start dest i s
      | Some k \<Rightarrow>
          (case fl_add dest i (cf_flights s ! k) of
             (True, f) \<Rightarrow> config_update k f s
           | (False, f) \<Rightarrow> config_start dest i s))"

text \<open>
  \<open>serveConfig\<close> for caller \<open>i\<close>: the answer written at once (\<open>None\<close> when it waits on a flight). \<open>has_gw\<close> says
  that \<open>GATEWAY_CONFIGS_URL\<close> parsed.
\<close>

definition serveConfig :: "int \<Rightarrow> bool \<Rightarrow> (nat \<Rightarrow> bool) \<Rightarrow> int \<Rightarrow> nat \<Rightarrow> config_state \<Rightarrow> reply option \<times> config_state" where
  "serveConfig CONFIG_TTL_MS has_gw dest now i s =
     (let miss = (if \<not> has_gw then (Some (502, [], []), s) else (None, config_join dest i s)) in
      case cf_cache s of
        None \<Rightarrow> miss
      | Some (body, ct, t) \<Rightarrow>
          if now - t < CONFIG_TTL_MS then (Some (200, [(''Content-Type'', ct)], body), s) else miss)"

text \<open>An event of flight \<open>k\<close>; a complete 200 answer is remembered.\<close>

definition config_event :: "nat \<Rightarrow> (nat \<Rightarrow> bool) \<Rightarrow> int \<Rightarrow> nat \<Rightarrow> gw_event \<Rightarrow> config_state \<Rightarrow> config_state" where
  "config_event M dest now k e s =
     (let f = cf_flights s ! k;
          cache = (case (e, fl_head f) of
             (GEnd, Some (st, ct)) \<Rightarrow>
               if \<not> fl_completed f \<and> gw_status st = 200 then Some (concat (fl_rc f), config_type ct, now) else cf_cache s
           | _ \<Rightarrow> cf_cache s)
      in config_update k (fl_event M config_hdrs dest e f) (s\<lparr>cf_cache := cache\<rparr>))"

inductive config_step :: "nat \<Rightarrow> int \<Rightarrow> bool \<Rightarrow> config_state \<Rightarrow> config_state \<Rightarrow> bool" for M ttl has_gw where
  serve: "config_step M ttl has_gw s (snd (serveConfig ttl has_gw dest now i s))"
| event: "k < length (cf_flights s) \<Longrightarrow> config_step M ttl has_gw s (config_event M dest now k e s)"
| close: "k < length (cf_flights s) \<Longrightarrow> i \<in> set (fl_callers (cf_flights s ! k)) \<Longrightarrow>
     config_step M ttl has_gw s (config_update k (fl_closed dest i (cf_flights s ! k)) s)"

inductive config_reachable :: "nat \<Rightarrow> int \<Rightarrow> bool \<Rightarrow> config_state \<Rightarrow> bool" for M ttl has_gw where
  init: "config_reachable M ttl has_gw config_init"
| step: "config_reachable M ttl has_gw s \<Longrightarrow> config_step M ttl has_gw s s' \<Longrightarrow> config_reachable M ttl has_gw s'"

definition buf_ok :: "nat \<Rightarrow> flight \<Rightarrow> bool" where
  "buf_ok M f \<longleftrightarrow> fl_rcLen f = length (concat (fl_rc f)) \<and> fl_rcLen f \<le> M"

lemma fl_rc_simps [simp]:
  "fl_rc (fl_finish dest r f) = fl_rc f" "fl_rcLen (fl_finish dest r f) = fl_rcLen f"
  "fl_rc (fl_closed dest i f) = fl_rc f" "fl_rcLen (fl_closed dest i f) = fl_rcLen f"
  "fl_rc (snd (fl_add dest i f)) = fl_rc f" "fl_rcLen (snd (fl_add dest i f)) = fl_rcLen f"
  by (simp_all add: fl_finish_def fl_closed_def fl_add_def Let_def)

lemma buf_ok_ops:
  assumes "buf_ok M f"
  shows "buf_ok M (fl_finish dest r f)" "buf_ok M (fl_closed dest i f)" "buf_ok M (snd (fl_add dest i f))"
    "buf_ok M (fl_event M hdrs dest e f)"
proof -
  show "buf_ok M (fl_event M hdrs dest e f)"
    using assms by (cases e) (auto simp: buf_ok_def split: option.split)
qed (use assms in \<open>simp_all add: buf_ok_def\<close>)

lemma fl_completed_stays:
  "fl_completed f \<Longrightarrow> fl_completed (fl_closed dest i f)" "fl_completed f \<Longrightarrow> fl_completed (fl_event M hdrs dest e f)"
  by (simp add: fl_closed_def) (cases e; auto simp: fl_finish_def split: option.split)

text \<open>Every flight still under way is the one \<open>configFlight\<close> refers to.\<close>

definition config_inv :: "nat \<Rightarrow> config_state \<Rightarrow> bool" where
  "config_inv M s \<longleftrightarrow>
     (\<forall>k < length (cf_flights s). (\<not> fl_completed (cf_flights s ! k) \<longrightarrow> cf_flight s = Some k) \<and> buf_ok M (cf_flights s ! k))
     \<and> (\<forall>k. cf_flight s = Some k \<longrightarrow> k < length (cf_flights s))
     \<and> (\<forall>b ct t. cf_cache s = Some (b, ct, t) \<longrightarrow> length b \<le> M)"

lemma config_inv_flight:
  assumes "config_inv M s"
  shows "k < length (cf_flights s) \<Longrightarrow> \<not> fl_completed (cf_flights s ! k) \<Longrightarrow> cf_flight s = Some k"
    "k < length (cf_flights s) \<Longrightarrow> buf_ok M (cf_flights s ! k)"
    "cf_flight s = Some k \<Longrightarrow> k < length (cf_flights s)"
    "cf_cache s = Some (b, ct, t) \<Longrightarrow> length b \<le> M"
  using assms unfolding config_inv_def by blast+

lemma config_inv_cache:
  assumes "config_inv M s" and "\<And>b ct t. c = Some (b, ct, t) \<Longrightarrow> length b \<le> M"
  shows "config_inv M (s\<lparr>cf_cache := c\<rparr>)"
proof -
  have f: "cf_flights (s\<lparr>cf_cache := c\<rparr>) = cf_flights s" "cf_flight (s\<lparr>cf_cache := c\<rparr>) = cf_flight s"
    "cf_cache (s\<lparr>cf_cache := c\<rparr>) = c" by simp_all
  from assms show ?thesis unfolding config_inv_def f by blast
qed

lemma config_inv_update:
  assumes inv: "config_inv M s" and k: "k < length (cf_flights s)" and b: "buf_ok M f"
    and mono: "fl_completed (cf_flights s ! k) \<Longrightarrow> fl_completed f"
  shows "config_inv M (config_update k f s)"
  unfolding config_inv_def
proof (intro conjI allI impI)
  note old = config_inv_flight [OF inv]
  have fl: "cf_flights (config_update k f s) = (cf_flights s)[k := f]" by (simp add: config_update_def)
  fix j
  assume j: "j < length (cf_flights (config_update k f s))"
  show "buf_ok M (cf_flights (config_update k f s) ! j)"
    using j b old(2) [of j] by (cases "j = k") (simp_all add: fl)
  assume n: "\<not> fl_completed (cf_flights (config_update k f s) ! j)"
  show "cf_flight (config_update k f s) = Some j"
  proof (cases "j = k")
    case True
    with n k have "\<not> fl_completed f" by (simp add: fl)
    moreover from this mono have "\<not> fl_completed (cf_flights s ! k)" by blast
    ultimately show ?thesis using old(1) [OF k] True by (simp add: config_update_def)
  next
    case False
    with n j have "cf_flight s = Some j" by (intro old(1)) (simp_all add: fl)
    with old(1) [OF k] False show ?thesis by (auto simp: config_update_def)
  qed
next
  fix j
  assume "cf_flight (config_update k f s) = Some j"
  then have "cf_flight s = Some j" by (auto simp: config_update_def split: if_splits)
  with config_inv_flight(3) [OF inv] show "j < length (cf_flights (config_update k f s))" by (simp add: config_update_def)
next
  fix c ct t
  assume "cf_cache (config_update k f s) = Some (c, ct, t)"
  then show "length c \<le> M" using config_inv_flight(4) [OF inv] by (simp add: config_update_def)
qed

lemma config_inv_start:
  assumes inv: "config_inv M s" and c: "\<forall>k < length (cf_flights s). fl_completed (cf_flights s ! k)"
  shows "config_inv M (config_start dest i s)"
proof -
  have "buf_ok M flight_new" by (simp add: buf_ok_def flight_new_def)
  from buf_ok_ops(3) [OF this] inv c show ?thesis
    by (auto simp: config_inv_def config_start_def nth_append less_Suc_eq)
qed

lemma config_inv_serve:
  assumes inv: "config_inv M s"
  shows "config_inv M (snd (serveConfig ttl has_gw dest now i s))"
proof -
  have "config_inv M (config_join dest i s)"
  proof (cases "cf_flight s")
    case None
    with config_inv_flight(1) [OF inv] have "\<forall>k < length (cf_flights s). fl_completed (cf_flights s ! k)" by fastforce
    with None show ?thesis by (simp add: config_join_def config_inv_start [OF inv])
  next
    case (Some k)
    then have k: "k < length (cf_flights s)" and b: "buf_ok M (cf_flights s ! k)"
      using config_inv_flight(2,3) [OF inv] by blast+
    show ?thesis
    proof (cases "fl_completed (cf_flights s ! k)")
      case True
      with Some config_inv_flight(1) [OF inv] have "\<forall>j < length (cf_flights s). fl_completed (cf_flights s ! j)" by fastforce
      with Some True show ?thesis by (simp add: config_join_def fl_add_def config_inv_start [OF inv])
    next
      case False
      obtain f where f: "fl_add dest i (cf_flights s ! k) = (True, f)" using False by (simp add: fl_add_def Let_def)
      have "config_inv M (config_update k f s)"
        by (rule config_inv_update [OF inv k]) (use buf_ok_ops(3) [OF b, of dest i] f False in simp_all)
      with Some f show ?thesis by (simp add: config_join_def)
    qed
  qed
  with inv show ?thesis by (auto simp: serveConfig_def Let_def split: option.split)
qed

lemma config_inv_reachable: "config_reachable M ttl has_gw s \<Longrightarrow> config_inv M s"
proof (induction rule: config_reachable.induct)
  case init
  show ?case by (simp add: config_inv_def config_init_def)
next
  case (step s s')
  note inv = step.IH
  from step.hyps(2) show ?case
  proof cases
    case (serve dest now i)
    with inv show ?thesis by (simp add: config_inv_serve)
  next
    case (close k i dest)
    show ?thesis unfolding close(1)
      by (rule config_inv_update [OF inv close(2) buf_ok_ops(2) [OF config_inv_flight(2) [OF inv close(2)]] fl_completed_stays(1)])
  next
    case (event k dest now e)
    let ?f = "cf_flights s ! k"
    have b: "buf_ok M ?f" using config_inv_flight(2) [OF inv event(2)] .
    let ?cache = "case (e, fl_head ?f) of (GEnd, Some (st, ct)) \<Rightarrow>
        if \<not> fl_completed ?f \<and> gw_status st = 200 then Some (concat (fl_rc ?f), config_type ct, now) else cf_cache s | _ \<Rightarrow> cf_cache s"
    have c: "length x \<le> M" if "?cache = Some (x, ct, t)" for x ct t
      using that config_inv_flight(4) [OF inv] b by (auto simp: buf_ok_def split: gw_event.splits option.splits if_splits)
    have "config_inv M (s\<lparr>cf_cache := ?cache\<rparr>)" by (rule config_inv_cache [OF inv c])
    then have "config_inv M (config_update k (fl_event M config_hdrs dest e ?f) (s\<lparr>cf_cache := ?cache\<rparr>))"
      by (rule config_inv_update) (use event buf_ok_ops(4) [OF b] fl_completed_stays(2) in auto)
    with event show ?thesis by (simp add: config_event_def Let_def)
  qed
qed

section \<open>Properties\<close>

text \<open>
  C5. The relay shows the gateway nothing of the client but its ciphertext: two requests that carry the same
  bytes, from any addresses, with any headers, tokens and chunking, in any states of the relay, produce the
  same request to the gateway, whose only headers are the content type, the length and the relay's own
  secret; and the body is exactly the bytes received.
\<close>

theorem relay_unlinkable:
  assumes "relay_outbound G E now1 remote1 req1 s1 outcome1 reqd1 resd1 es1 = Some o1"
    and "relay_outbound G E now2 remote2 req2 s2 outcome2 reqd2 resd2 es2 = Some o2"
    and "concat [c. BData c \<leftarrow> takeWhile (\<lambda>e. e \<noteq> BEnd) es1] = concat [c. BData c \<leftarrow> takeWhile (\<lambda>e. e \<noteq> BEnd) es2]"
  shows "o1 = o2 \<and> go_body o1 = concat [c. BData c \<leftarrow> takeWhile (\<lambda>e. e \<noteq> BEnd) es1]
    \<and> map fst (go_headers o1) = [''Content-Type'', ''Content-Length''] @ (if gw_secret G \<noteq> [] then [RELAY_GATEWAY_HEADER] else [])
    \<and> length (go_body o1) \<le> re_maxBody E"
proof -
  have sent: "\<exists>b. ob = forwardToGateway G b \<and> b = concat [c. BData c \<leftarrow> takeWhile (\<lambda>e. e \<noteq> BEnd) es] \<and> length b \<le> re_maxBody E"
    if "relay_outbound G E now remote req s outcome reqd resd es = Some ob" for now remote req s outcome reqd resd es ob
  proof -
    from that obtain b where b: "relay_body (re_maxBody E) es = BForward b" "ob = forwardToGateway G b"
      by (auto simp: relay_outbound_def split: relay_action.splits relay_next.splits body_outcome.splits)
    with body_fold_forward [of 0 "re_maxBody E" "[]" es b] obtain cs rest where
      cs: "es = map BData cs @ BEnd # rest" "b = concat cs" "length b \<le> re_maxBody E" by (auto simp: relay_body_def)
    have "takeWhile (\<lambda>e. e \<noteq> BEnd) es = map BData cs" unfolding cs(1) by (induction cs) simp_all
    moreover have "[c. BData c \<leftarrow> map BData cs] = cs" by (induction cs) simp_all
    ultimately show ?thesis using b(2) cs(2,3) by simp
  qed
  from sent [OF assms(1)] sent [OF assms(2)] assms(3) show ?thesis by (auto simp: forwardToGateway_def)
qed

theorem relay_unlinkable_witness:
  "\<exists>ob. relay_outbound \<lparr>gw_hostname = ''g'', gw_port = 443, gw_pathname = ''/gateway'', gw_secret = ''s''\<rparr> ex_relay_env 5 None
      ex_relay_req relay_init (Inr True) False False [BData [1], BData [2, 3], BEnd] = Some ob
    \<and> relay_outbound \<lparr>gw_hostname = ''g'', gw_port = 443, gw_pathname = ''/gateway'', gw_secret = ''s''\<rparr> ex_relay_env 99 (Some ''10.0.0.1'')
      (ex_relay_req\<lparr>req_headers := [''content-type'' \<mapsto> ''message/ohttp-req'', ''cookie'' \<mapsto> ''id=7'']\<rparr>) relay_init (Inr True) False False
      [BData [1, 2], BData [3], BEnd] = Some ob \<and> go_body ob = [1, 2, 3]"
proof -
  let ?G = "\<lparr>gw_hostname = ''g'', gw_port = 443, gw_pathname = ''/gateway'', gw_secret = ''s''\<rparr>"
  let ?q = "ex_relay_req\<lparr>req_headers := [''content-type'' \<mapsto> ''message/ohttp-req'', ''cookie'' \<mapsto> ''id=7'']\<rparr>"
  have a: "relay_outbound ?G ex_relay_env 5 None ex_relay_req relay_init (Inr True) False False [BData [1], BData [2, 3], BEnd]
      = Some (forwardToGateway ?G [1, 2, 3])"
    and b: "relay_outbound ?G ex_relay_env 99 (Some ''10.0.0.1'') ?q relay_init (Inr True) False False [BData [1, 2], BData [3], BEnd]
      = Some (forwardToGateway ?G [1, 2, 3])" by code_simp+
  from relay_unlinkable [OF a b] a b show ?thesis by (intro exI [of _ "forwardToGateway ?G [1, 2, 3]"]) simp
qed

text \<open>
  C16. Every caller of a flight gets one outcome: in every reachable state each caller that joined is either
  still waiting or has exactly one logged outcome; all answers written are the same and only their callers'
  logged status; a completed flight has no waiting caller and ignores every further event; the buffer stays
  within the limit; and the end of the gateway's response gives every connected caller its status and
  exactly its bytes.
\<close>

theorem proxy_one_outcome:
  assumes "fl_reachable M hdrs A f"
  shows "distinct (fl_callers f @ map fst (fl_logged f)) \<and> set (fl_callers f) \<union> fst ` set (fl_logged f) = A
    \<and> distinct (map fst (fl_sent f)) \<and> one_reply (fl_sent f) \<and> (\<lambda>(i, r). (i, fst r)) ` set (fl_sent f) \<subseteq> set (fl_logged f)
    \<and> length (concat (fl_rc f)) \<le> M
    \<and> (fl_completed f \<longrightarrow> fl_callers f = [] \<and> fl_event M hdrs dest e f = f \<and> fl_add dest i f = (False, f))
    \<and> (\<not> fl_completed f \<and> fl_head f = Some (st, ct) \<longrightarrow>
         fl_sent (fl_event M hdrs dest GEnd f) =
           map (\<lambda>i. (i, gw_status st, hdrs (gw_status st) ct, concat (fl_rc f))) (filter (\<lambda>i. \<not> dest i) (fl_callers f)))"
proof -
  from flight_inv_reachable [OF assms] have inv: "flight_inv M A f" .
  have "fl_event M hdrs dest e f = f" if "fl_completed f"
    using that by (cases e) (auto simp: fl_finish_def split: option.split)
  with inv show ?thesis by (auto simp: flight_inv_def fl_add_def fl_finish_def)
qed

theorem proxy_one_outcome_witness:
  "\<exists>f. fl_reachable 10 relay_hdrs {0, 1} f \<and> fl_logged f = [(1, 499), (0, 200)] \<and> map fst (fl_sent f) = [0] \<and> fl_event 10 relay_hdrs (\<lambda>_. False) GEnd f = f"
proof -
  let ?d = "\<lambda>_ :: nat. False"
  let ?f = "fl_event 10 relay_hdrs ?d GEnd (fl_event 10 relay_hdrs ?d (GData [7]) (fl_event 10 relay_hdrs ?d (GHead 200 None)
    (fl_closed ?d 1 (flight_new\<lparr>fl_callers := [0, 1]\<rparr>))))"
  have "fl_reachable 10 relay_hdrs {0} (flight_new\<lparr>fl_callers := [0]\<rparr>)"
    by (rule fl_reachable.add [OF fl_reachable.new, of 0 ?d]) (simp_all add: fl_add_def flight_new_def)
  then have "fl_reachable 10 relay_hdrs (insert 1 {0}) (flight_new\<lparr>fl_callers := [0, 1]\<rparr>)"
    by (rule fl_reachable.add [of _ _ _ _ 1 ?d]) (simp_all add: fl_add_def flight_new_def)
  then have "fl_reachable 10 relay_hdrs {0, 1} (flight_new\<lparr>fl_callers := [0, 1]\<rparr>)" by (simp add: insert_commute)
  then have r: "fl_reachable 10 relay_hdrs {0, 1} ?f"
    by (intro fl_reachable.event fl_reachable.close) (simp_all add: flight_new_def)
  define f where "f = ?f"
  have "fl_logged f = [(1, 499), (0, 200)]" "map fst (fl_sent f) = [0]" "fl_completed f" unfolding f_def by code_simp+
  moreover note r [folded f_def]
  moreover from this have "fl_completed f \<longrightarrow> fl_event 10 relay_hdrs ?d GEnd f = f"
    using proxy_one_outcome [of 10 relay_hdrs "{0, 1}" f ?d GEnd 0 0 None] by simp
  ultimately show ?thesis by (intro exI [of _ f]) simp
qed

text \<open>
  C19. Key-config fetches are coalesced: in every reachable state at most one flight is under way, and it is
  the one later callers join; a cached answer is served only younger than its time to live, is at most
  \<open>MAX_RESP_BYTES\<close> long, and is only ever replaced by the complete body of a 200 response.
\<close>

theorem config_single_flight:
  assumes "config_reachable M ttl has_gw s"
  shows "list_all (\<lambda>k. fl_completed (cf_flights s ! k) \<or> cf_flight s = Some k) [0..<length (cf_flights s)]
    \<and> length (filter (\<lambda>f. \<not> fl_completed f) (cf_flights s)) \<le> 1
    \<and> (cf_cache s = Some (b, ct, t) \<longrightarrow> length b \<le> M)
    \<and> (fst (serveConfig ttl has_gw dest now i s) = Some (200, h, body) \<longleftrightarrow>
         (\<exists>ct t. cf_cache s = Some (body, ct, t) \<and> now - t < ttl \<and> h = [(''Content-Type'', ct)]))
    \<and> (cf_cache (config_event M dest now k e s) \<noteq> cf_cache s \<longrightarrow>
         e = GEnd \<and> \<not> fl_completed (cf_flights s ! k)
         \<and> (\<exists>st ct. fl_head (cf_flights s ! k) = Some (st, ct) \<and> gw_status st = 200
              \<and> cf_cache (config_event M dest now k e s) = Some (concat (fl_rc (cf_flights s ! k)), config_type ct, now)))"
proof -
  note inv = config_inv_reachable [OF assms]
  note fl = config_inv_flight [OF inv]
  have 1: "list_all (\<lambda>k. fl_completed (cf_flights s ! k) \<or> cf_flight s = Some k) [0..<length (cf_flights s)]"
    using fl(1) unfolding list_all_iff by fastforce
  have "{k. k < length (cf_flights s) \<and> \<not> fl_completed (cf_flights s ! k)} \<subseteq> set_option (cf_flight s)"
    using fl(1) by auto
  then have "card {k. k < length (cf_flights s) \<and> \<not> fl_completed (cf_flights s ! k)} \<le> card (set_option (cf_flight s))"
    by (intro card_mono) simp_all
  also have "card (set_option (cf_flight s)) \<le> 1" by (cases "cf_flight s") simp_all
  finally have 2: "length (filter (\<lambda>f. \<not> fl_completed f) (cf_flights s)) \<le> 1" by (simp add: length_filter_conv_card)
  have 3: "fst (serveConfig ttl has_gw dest now i s) = Some (200, h, body) \<longleftrightarrow>
         (\<exists>ct t. cf_cache s = Some (body, ct, t) \<and> now - t < ttl \<and> h = [(''Content-Type'', ct)])"
    by (auto simp: serveConfig_def Let_def split: option.splits)
  have 4: "cf_cache (config_event M dest now k e s) \<noteq> cf_cache s \<longrightarrow>
         e = GEnd \<and> \<not> fl_completed (cf_flights s ! k)
         \<and> (\<exists>st ct. fl_head (cf_flights s ! k) = Some (st, ct) \<and> gw_status st = 200
              \<and> cf_cache (config_event M dest now k e s) = Some (concat (fl_rc (cf_flights s ! k)), config_type ct, now))"
    by (auto simp: config_event_def config_update_def Let_def split: gw_event.splits option.splits)
  from 1 2 3 4 fl(4) show ?thesis by blast
qed

theorem config_single_flight_witness:
  "fst (serveConfig 100 True (\<lambda>_. False) 50 2
      (config_event 10 (\<lambda>_. False) 20 0 GEnd (config_event 10 (\<lambda>_. False) 15 0 (GData [7]) (config_event 10 (\<lambda>_. False) 12 0 (GHead 200 None)
        (snd (serveConfig 100 True (\<lambda>_. False) 11 1 (snd (serveConfig 100 True (\<lambda>_. False) 10 0 config_init)))))))) =
    Some (200, [(''Content-Type'', ''application/octet-stream'')], [7])"
proof -
  let ?d = "\<lambda>_ :: nat. False"
  let ?s = "snd (serveConfig 100 True ?d 11 1 (snd (serveConfig 100 True ?d 10 0 config_init)))"
  let ?e = "config_event 10 ?d 20 0 GEnd (config_event 10 ?d 15 0 (GData [7]) (config_event 10 ?d 12 0 (GHead 200 None) ?s))"
  have r: "config_reachable 10 100 True ?s"
    by (rule config_reachable.step [OF config_reachable.step [OF config_reachable.init config_step.serve] config_step.serve])
  have l: "0 < length (cf_flights ?s)" by code_simp
  have n: "length (cf_flights (config_event 10 ?d t 0 e x)) = length (cf_flights x)" for t e x
    by (simp add: config_event_def config_update_def Let_def)
  have "config_reachable 10 100 True ?e"
    by (intro config_reachable.step [OF _ config_step.event] r) (simp_all only: n l)
  moreover have "cf_cache ?e = Some ([7], ''application/octet-stream'', 20)" by code_simp
  ultimately show ?thesis
    using config_single_flight [of 10 100 True ?e "[7]" "''application/octet-stream''" 20 ?d 50 2
        "[(''Content-Type'', ''application/octet-stream'')]" "[7]"] by simp
qed

end
