(* ===== verification/CommonsCache.thy ===== *)
theory CommonsCache
  imports FrontDoor
begin

text \<open>
  The shared cache of the commons service (\<^verbatim>\<open>commons-cache/server.js\<close>): the bounded cache write
  (\<open>cacheSet\<close>) and the lookup with stale-while-revalidate and single-flight fetches that \<open>getCachedFeed\<close> and
  \<open>getCachedImgur\<close> share. Lookups, finished fetches and finished revalidations are the steps of a relation,
  so any number of requests interleave. Shown: the cache is the most recently written entries, bounded;
  entries are served only inside their window; one fetch per key is shared; and no entry is stuck in
  revalidation.
\<close>

section \<open>Content types\<close>

definition ALLOWED_CONTENT_TYPES :: "string list" where
  "ALLOWED_CONTENT_TYPES = [''application/rss+xml'', ''application/atom+xml'', ''application/xml'', ''text/xml'', ''application/json'']"

definition safeContentType :: "string option \<Rightarrow> string" where
  "safeContentType raw = (if media_type raw \<in> set ALLOWED_CONTENT_TYPES then media_type raw else ''application/octet-stream'')"

section \<open>The bounded cache\<close>

text \<open>
  A cache entry; \<open>ce_obj\<close> is the identity of the JavaScript object, which a revalidation keeps a reference
  to.
\<close>

record centry =
  ce_body :: bytes
  ce_contentType :: string
  ce_fetchedAt :: int
  ce_revalidating :: bool
  ce_obj :: nat

text \<open>\<open>while (cache.size > MAX_ENTRIES) cache.delete(cache.keys().next().value)\<close>\<close>

lemma jm_drop_oldest_shorter: "m \<noteq> [] \<Longrightarrow> length (jm_drop_oldest m) < length m"
proof (cases m)
  case (Cons p m')
  then show ?thesis
    by (cases p) (simp add: jm_drop_oldest_def jm_delete_def less_Suc_eq_le)
qed simp

function evict :: "nat \<Rightarrow> ('k, 'v) jmap \<Rightarrow> ('k, 'v) jmap" where
  "evict MAX_ENTRIES m = (if length m > MAX_ENTRIES then evict MAX_ENTRIES (jm_drop_oldest m) else m)"
  by auto
termination by (relation "measure (\<lambda>(n, m). length m)") (auto intro: jm_drop_oldest_shorter)

declare evict.simps [simp del]

definition cacheSet :: "nat \<Rightarrow> 'k \<Rightarrow> 'v \<Rightarrow> ('k, 'v) jmap \<Rightarrow> ('k, 'v) jmap" where
  "cacheSet MAX_ENTRIES key val m = evict MAX_ENTRIES (jm_set key val (jm_delete key m))"

lemma evict_drop: "jm_wf m \<Longrightarrow> evict n m = drop (length m - n) m"
proof (induction n m rule: evict.induct)
  case (1 n m)
  show ?case
  proof (cases "length m > n")
    case True
    then have "evict n m = evict n (tl m)" using 1(2) by (simp add: evict.simps [of n m] jm_drop_oldest_wf)
    also have "\<dots> = drop (length (tl m) - n) (tl m)"
      using 1(1) [OF True] 1(2) by (simp add: jm_drop_oldest_wf jm_wf_drop_oldest [OF 1(2), unfolded jm_drop_oldest_wf [OF 1(2)]])
    also have "\<dots> = drop (length m - n) m" using True by (cases m) (simp_all add: Suc_diff_le)
    finally show ?thesis .
  qed (simp add: evict.simps [of n m])
qed

lemma cacheSet_drop:
  assumes "jm_wf m"
  shows "cacheSet n k v m = drop (Suc (length (jm_delete k m)) - n) (jm_delete k m @ [(k, v)])"
proof -
  have "jm_set k v (jm_delete k m) = jm_delete k m @ [(k, v)]"
    by (rule jm_set_absent) (simp add: jmap_simps)
  moreover have "jm_wf (jm_set k v (jm_delete k m))" using assms by simp
  ultimately show ?thesis by (simp add: cacheSet_def evict_drop)
qed

lemma cacheSet_wf: "jm_wf m \<Longrightarrow> jm_wf (cacheSet n k v m)"
proof -
  assume "jm_wf m"
  then have wf: "jm_wf (jm_set k v (jm_delete k m))" by simp
  then show ?thesis unfolding cacheSet_def evict_drop [OF wf] by (simp add: jm_wf_def drop_map [symmetric])
qed

lemma cacheSet_size: "jm_wf m \<Longrightarrow> length (cacheSet n k v m) \<le> n"
  by (simp add: cacheSet_drop)

lemma cacheSet_entries: "jm_wf m \<Longrightarrow> p \<in> set (cacheSet n k v m) \<Longrightarrow> p = (k, v) \<or> p \<in> set m \<and> fst p \<noteq> k"
  by (auto simp: cacheSet_drop jm_delete_def dest: in_set_dropD)

section \<open>The cache as a recency list\<close>

text \<open>The latest write of every key in a history given newest first.\<close>

fun latest :: "('k \<times> 'v) list \<Rightarrow> ('k \<times> 'v) list" where
  "latest [] = []"
| "latest (p # ws) = p # filter (\<lambda>q. fst q \<noteq> fst p) (latest ws)"

definition lru :: "nat \<Rightarrow> ('k \<times> 'v) list \<Rightarrow> ('k, 'v) jmap" where
  "lru n ws = rev (take n (latest (rev ws)))"

lemma latest_distinct: "distinct (map fst (latest ws))"
  by (induction ws) (auto simp: distinct_map_filter)

lemma take_filter_one:
  "distinct (map fst xs) \<Longrightarrow> take n (filter (\<lambda>q. fst q \<noteq> k) xs) = take n (filter (\<lambda>q. fst q \<noteq> k) (take (Suc n) xs))"
proof (induction xs arbitrary: n)
  case (Cons x xs)
  show ?case
  proof (cases "fst x = k")
    case True
    with Cons.prems have "filter (\<lambda>q. fst q \<noteq> k) xs = xs" by (simp add: filter_id_conv) (metis imageI)
    moreover from this have "filter (\<lambda>q. fst q \<noteq> k) (take n xs) = take n xs"
      by (metis filter_id_conv in_set_takeD)
    ultimately show ?thesis using True by simp
  next
    case False
    with Cons show ?thesis by (cases n) simp_all
  qed
qed simp

lemma latest_snoc: "latest (rev (ws @ [(k, v)])) = (k, v) # filter (\<lambda>q. fst q \<noteq> k) (latest (rev ws))"
  by simp

text \<open>
  C12. \<open>cacheSet\<close> implements a least-recently-written cache: after any sequence of writes from an empty cache
  the map holds exactly the last \<open>MAX_ENTRIES\<close> distinct keys written, each with its newest value, in order
  of their last write; so its size is bounded and a key that was among them is found with its newest value.
\<close>

theorem cacheSet_is_lru:
  "foldl (\<lambda>m (k, v). cacheSet n k v m) [] ws = lru n ws \<and> length (lru n ws) \<le> n
   \<and> jm_wf (foldl (\<lambda>m (k, v). cacheSet n k v m) [] ws)"
proof (induction ws rule: rev_induct)
  case Nil
  show ?case by (simp add: lru_def)
next
  case (snoc w ws)
  obtain k v where w: "w = (k, v)" by (cases w)
  let ?L = "latest (rev ws)"
  have wf: "jm_wf (lru n ws)" and IH: "foldl (\<lambda>m (k, v). cacheSet n k v m) [] ws = lru n ws" using snoc by auto
  have del: "jm_delete k (lru n ws) = rev (filter (\<lambda>q. fst q \<noteq> k) (take n ?L))"
    by (simp add: jm_delete_def lru_def rev_filter)
  have "cacheSet n k v (lru n ws) = rev (take n ((k, v) # filter (\<lambda>q. fst q \<noteq> k) (take n ?L)))"
    unfolding cacheSet_drop [OF wf] del by (simp add: rev_take)
  also have "\<dots> = lru n (ws @ [w])"
  proof (cases n)
    case (Suc n')
    then show ?thesis
      unfolding lru_def w latest_snoc by (simp add: take_filter_one [OF latest_distinct, of n' k "rev ws"])
  qed (simp add: lru_def)
  finally have "cacheSet n k v (lru n ws) = lru n (ws @ [w])" .
  moreover have "jm_wf (cacheSet n k v (lru n ws))" using wf by (rule cacheSet_wf)
  ultimately show ?case by (simp add: IH w lru_def)
qed

section \<open>Lookups and fetches\<close>

record commons_config =
  TTL_MS :: int
  SWR_MS :: int
  MAX_ENTRIES :: nat

text \<open>What a fetch of the upstream resolves to (\<open>fetchUpstream\<close>, \<open>fetchImgurJson\<close>; neither rejects).\<close>

record upstream =
  up_status :: int
  up_body :: bytes
  up_contentType :: string
  up_error :: bool
  up_reason :: "string option"
  up_redirectTarget :: "string option"

definition up_ok :: "upstream \<Rightarrow> bool" where
  "up_ok up \<longleftrightarrow> up_status up = 200 \<and> \<not> up_error up"

text \<open>
  The module's state: \<open>cache\<close>, the keys of \<open>inflight\<close>, the background revalidations under way (key and the
  entry object each refers to) and a counter for object identities.
\<close>

record commons =
  cm_cache :: "(string, centry) jmap"
  cm_inflight :: "string list"
  cm_reval :: "(string \<times> nat) list"
  cm_next :: nat

definition commons_init :: commons where
  "commons_init = \<lparr>cm_cache = [], cm_inflight = [], cm_reval = [], cm_next = 0\<rparr>"

datatype served =
    Serve centry string
  | Lead
  | Follow

text \<open>
  The part of \<open>getCachedFeed\<close> and \<open>getCachedImgur\<close> before their first \<open>await\<close>, which is the same text in
  both: serve a fresh or a stale entry (starting a revalidation unless one is under way), or else lead or
  join the fetch of the key.
\<close>

definition cached_miss :: "string \<Rightarrow> commons \<Rightarrow> served \<times> commons" where
  "cached_miss key s =
     (if key \<in> set (cm_inflight s) then (Follow, s) else (Lead, s\<lparr>cm_inflight := cm_inflight s @ [key]\<rparr>))"

definition cached_lookup :: "commons_config \<Rightarrow> int \<Rightarrow> string \<Rightarrow> commons \<Rightarrow> served \<times> commons" where
  "cached_lookup C now key s =
     (case jm_get (cm_cache s) key of
        None \<Rightarrow> cached_miss key s
      | Some e \<Rightarrow>
          let age = now - ce_fetchedAt e in
          if age < TTL_MS C then (Serve e ''HIT'', s)
          else if age < TTL_MS C + SWR_MS C then
            (if ce_revalidating e then (Serve e ''STALE'', s)
             else (Serve (e\<lparr>ce_revalidating := True\<rparr>) ''STALE'',
                   s\<lparr>cm_cache := jm_set key (e\<lparr>ce_revalidating := True\<rparr>) (cm_cache s),
                     cm_reval := (key, ce_obj e) # cm_reval s\<rparr>))
          else cached_miss key s)"

definition store_entry :: "commons_config \<Rightarrow> (string \<Rightarrow> string) \<Rightarrow> int \<Rightarrow> string \<Rightarrow> upstream \<Rightarrow> commons \<Rightarrow> commons" where
  "store_entry C ctype now key up s =
     s\<lparr>cm_cache := cacheSet (MAX_ENTRIES C) key
          \<lparr>ce_body = up_body up, ce_contentType = ctype (up_contentType up), ce_fetchedAt = now, ce_revalidating = False, ce_obj = cm_next s\<rparr>
          (cm_cache s),
       cm_next := Suc (cm_next s)\<rparr>"

text \<open>The leader's fetch settles: the key leaves \<open>inflight\<close> and a good answer is cached.\<close>

definition lead_done :: "commons_config \<Rightarrow> (string \<Rightarrow> string) \<Rightarrow> int \<Rightarrow> string \<Rightarrow> upstream \<Rightarrow> commons \<Rightarrow> commons" where
  "lead_done C ctype now key up s =
     (let s' = s\<lparr>cm_inflight := remove1 key (cm_inflight s)\<rparr> in if up_ok up then store_entry C ctype now key up s' else s')"

text \<open>A revalidation settles: a good answer is cached, and the entry object it was started for is reset.\<close>

definition reval_done :: "commons_config \<Rightarrow> (string \<Rightarrow> string) \<Rightarrow> int \<Rightarrow> string \<Rightarrow> nat \<Rightarrow> upstream \<Rightarrow> commons \<Rightarrow> commons" where
  "reval_done C ctype now key obj up s =
     (let s' = (if up_ok up then store_entry C ctype now key up s else s) in
      s'\<lparr>cm_cache := map (\<lambda>(k, e). (k, if ce_obj e = obj then e\<lparr>ce_revalidating := False\<rparr> else e)) (cm_cache s'),
         cm_reval := filter (\<lambda>p. snd p \<noteq> obj) (cm_reval s')\<rparr>)"

text \<open>What a leader or a follower returns after the fetch.\<close>

datatype cached_result =
    CServed bytes string int string
  | CFailed int "string option" "string option"

definition cached_result :: "bool \<Rightarrow> (string \<Rightarrow> string) \<Rightarrow> int \<Rightarrow> upstream \<Rightarrow> cached_result" where
  "cached_result isLeader ctype now up =
     (if up_ok up then CServed (up_body up) (ctype (up_contentType up)) now (if isLeader then ''MISS'' else ''COALESCED'')
      else CFailed (up_status up) (up_reason up) (up_redirectTarget up))"

definition feed_ctype :: "string \<Rightarrow> string" where
  "feed_ctype ct = safeContentType (Some ct)"

definition imgur_ctype :: "string \<Rightarrow> string" where
  "imgur_ctype ct = ''application/json''"

inductive commons_step :: "commons_config \<Rightarrow> commons \<Rightarrow> commons \<Rightarrow> bool" for C where
  lookup: "commons_step C s (snd (cached_lookup C now key s))"
| lead: "key \<in> set (cm_inflight s) \<Longrightarrow> ctype \<in> {feed_ctype, imgur_ctype} \<Longrightarrow> commons_step C s (lead_done C ctype now key up s)"
| reval: "(key, obj) \<in> set (cm_reval s) \<Longrightarrow> ctype \<in> {feed_ctype, imgur_ctype} \<Longrightarrow>
     commons_step C s (reval_done C ctype now key obj up s)"

inductive commons_reachable :: "commons_config \<Rightarrow> commons \<Rightarrow> bool" for C where
  init: "commons_reachable C commons_init"
| step: "commons_reachable C s \<Longrightarrow> commons_step C s s' \<Longrightarrow> commons_reachable C s'"

section \<open>Invariant of the cache\<close>

definition entry_inv :: "commons \<Rightarrow> centry \<Rightarrow> bool" where
  "entry_inv s e \<longleftrightarrow> ce_obj e < cm_next s \<and> ce_contentType e \<in> set (''application/octet-stream'' # ALLOWED_CONTENT_TYPES)
     \<and> (ce_revalidating e \<longleftrightarrow> ce_obj e \<in> snd ` set (cm_reval s))"

definition commons_inv :: "commons_config \<Rightarrow> commons \<Rightarrow> bool" where
  "commons_inv C s \<longleftrightarrow>
     jm_wf (cm_cache s) \<and> length (cm_cache s) \<le> MAX_ENTRIES C \<and> distinct (cm_inflight s)
     \<and> distinct (map snd (cm_reval s)) \<and> snd ` set (cm_reval s) \<subseteq> {..<cm_next s}
     \<and> inj_on (ce_obj \<circ> snd) (set (cm_cache s)) \<and> (\<forall>p \<in> set (cm_cache s). entry_inv s (snd p))"

lemma ctype_allowed:
  "ctype \<in> {feed_ctype, imgur_ctype} \<Longrightarrow> ctype c \<in> set (''application/octet-stream'' # ALLOWED_CONTENT_TYPES)"
  by (auto simp: feed_ctype_def imgur_ctype_def safeContentType_def) (simp_all add: ALLOWED_CONTENT_TYPES_def)

lemma commons_inv_inj:
  assumes "commons_inv C s" "p \<in> set (cm_cache s)" "q \<in> set (cm_cache s)" "ce_obj (snd p) = ce_obj (snd q)"
  shows "p = q"
proof -
  have "inj_on (ce_obj \<circ> snd) (set (cm_cache s))" using assms(1) unfolding commons_inv_def by blast
  then show ?thesis by (rule inj_onD) (use assms(2-4) in simp_all)
qed

lemma commons_inv_get:
  assumes "commons_inv C s" "jm_get (cm_cache s) key = Some e"
  shows "entry_inv s e"
  using assms(1) jm_get_in_set [OF assms(2)] unfolding commons_inv_def by fastforce

lemma commons_inv_store:
  assumes inv: "commons_inv C s" and ct: "ctype \<in> {feed_ctype, imgur_ctype}"
  shows "commons_inv C (store_entry C ctype now key up s)"
proof -
  let ?e = "\<lparr>ce_body = up_body up, ce_contentType = ctype (up_contentType up), ce_fetchedAt = now, ce_revalidating = False, ce_obj = cm_next s\<rparr>"
  let ?m = "cacheSet (MAX_ENTRIES C) key ?e (cm_cache s)"
  have wf: "jm_wf (cm_cache s)" using inv by (simp add: commons_inv_def)
  have sub: "set ?m \<subseteq> insert (key, ?e) (set (cm_cache s))" using cacheSet_entries [OF wf] by blast
  have old: "ce_obj (snd p) < cm_next s" if "p \<in> set (cm_cache s)" for p using inv that by (simp add: commons_inv_def entry_inv_def)
  have "inj_on (ce_obj \<circ> snd) (insert (key, ?e) (set (cm_cache s)))"
    using inv old by (fastforce simp: commons_inv_def)
  then have "inj_on (ce_obj \<circ> snd) (set ?m)" using sub by (rule inj_on_subset)
  moreover have "entry_inv (store_entry C ctype now key up s) (snd p)" if "p \<in> set ?m" for p
  proof -
    from that sub consider "p = (key, ?e)" | "p \<in> set (cm_cache s)" by blast
    then show ?thesis
    proof cases
      case 1
      then show ?thesis using inv ctype_allowed [OF ct, of "up_contentType up"]
        by (auto simp: entry_inv_def store_entry_def commons_inv_def)
    next
      case 2
      then have "entry_inv s (snd p)" using inv by (simp add: commons_inv_def)
      then show ?thesis by (simp add: entry_inv_def store_entry_def)
    qed
  qed
  ultimately show ?thesis
    using inv cacheSet_wf [OF wf] cacheSet_size [OF wf] by (auto simp: commons_inv_def store_entry_def)
qed

lemma commons_inv_reval:
  assumes inv: "commons_inv C s" and ct: "ctype \<in> {feed_ctype, imgur_ctype}"
  shows "commons_inv C (reval_done C ctype now key obj up s)"
proof -
  define s' where "s' = (if up_ok up then store_entry C ctype now key up s else s)"
  have s': "commons_inv C s'" using commons_inv_store [OF inv ct] inv by (simp add: s'_def)
  let ?r = "\<lambda>p. (fst p, if ce_obj (snd p) = obj then (snd p)\<lparr>ce_revalidating := False\<rparr> else snd p)"
  let ?m = "map ?r (cm_cache s')"
  have obj: "ce_obj (snd (?r p)) = ce_obj (snd p)" for p :: "string \<times> centry" by simp
  have "jm_wf ?m" using s' by (simp add: commons_inv_def jm_wf_def comp_def)
  moreover have "inj_on (ce_obj \<circ> snd) (set ?m)"
  proof (rule inj_onI)
    fix x y assume "x \<in> set ?m" "y \<in> set ?m" and eq: "(ce_obj \<circ> snd) x = (ce_obj \<circ> snd) y"
    then obtain a b where ab: "a \<in> set (cm_cache s')" "x = ?r a" "b \<in> set (cm_cache s')" "y = ?r b" by auto
    with eq obj have "ce_obj (snd a) = ce_obj (snd b)" by simp
    with ab commons_inv_inj [OF s', of a b] have "a = b" by simp
    with ab show "x = y" by simp
  qed
  moreover have "entry_inv (s'\<lparr>cm_cache := ?m, cm_reval := filter (\<lambda>p. snd p \<noteq> obj) (cm_reval s')\<rparr>) (snd q)" if "q \<in> set ?m" for q
  proof -
    from that obtain p where p: "p \<in> set (cm_cache s')" "q = ?r p" by auto
    with s' have "entry_inv s' (snd p)" by (simp add: commons_inv_def)
    with p(2) show ?thesis by (auto simp: entry_inv_def)
  qed
  moreover have "reval_done C ctype now key obj up s = s'\<lparr>cm_cache := ?m, cm_reval := filter (\<lambda>p. snd p \<noteq> obj) (cm_reval s')\<rparr>"
    by (simp add: reval_done_def s'_def Let_def case_prod_unfold)
  ultimately show ?thesis using s' by (auto simp: commons_inv_def distinct_map_filter)
qed

lemma commons_inv_stale:
  assumes inv: "commons_inv C s" and e: "jm_get (cm_cache s) key = Some e" and r: "\<not> ce_revalidating e"
  shows "commons_inv C (s\<lparr>cm_cache := jm_set key (e\<lparr>ce_revalidating := True\<rparr>) (cm_cache s), cm_reval := (key, ce_obj e) # cm_reval s\<rparr>)"
proof -
  let ?e = "e\<lparr>ce_revalidating := True\<rparr>"
  let ?m = "jm_set key ?e (cm_cache s)"
  have wf: "jm_wf (cm_cache s)" using inv by (simp add: commons_inv_def)
  have ke: "(key, e) \<in> set (cm_cache s)" using e by (rule jm_get_in_set)
  with inv have ei: "entry_inv s e" by (auto simp: commons_inv_def)
  have mem: "p = (key, ?e) \<or> p \<in> set (cm_cache s) \<and> fst p \<noteq> key" if "p \<in> set ?m" for p
  proof (cases "fst p = key")
    case True
    have "jm_get ?m key = Some (snd p)"
      using jm_get_wf [OF jm_wf_set [OF wf, of key ?e], of "fst p" "snd p"] that True by (metis prod.collapse)
    with True show ?thesis by (cases p) (simp add: jmap_simps)
  next
    case False
    with that jm_set_entries [of p key ?e "cm_cache s"] show ?thesis by auto
  qed
  have other: "ce_obj (snd p) \<noteq> ce_obj e" if "p \<in> set (cm_cache s)" "fst p \<noteq> key" for p
    using commons_inv_inj [OF inv that(1) ke] that(2) by auto
  have "inj_on (ce_obj \<circ> snd) (set ?m)"
  proof (rule inj_onI)
    fix x y assume "x \<in> set ?m" "y \<in> set ?m" "(ce_obj \<circ> snd) x = (ce_obj \<circ> snd) y"
    then show "x = y" using mem [of x] mem [of y] other [of x] other [of y] commons_inv_inj [OF inv, of x y] by auto
  qed
  moreover have "entry_inv (s\<lparr>cm_cache := ?m, cm_reval := (key, ce_obj e) # cm_reval s\<rparr>) (snd p)" if "p \<in> set ?m" for p
    using mem [OF that] ei other [of p] inv by (auto simp: entry_inv_def commons_inv_def)
  moreover have "length ?m = length (cm_cache s)" using e by (simp add: jmap_simps)
  ultimately show ?thesis using inv wf ei r by (auto simp: commons_inv_def entry_inv_def)
qed

lemma commons_inv_miss: "commons_inv C s \<Longrightarrow> commons_inv C (snd (cached_miss key s))"
  by (auto simp: cached_miss_def commons_inv_def entry_inv_def)

lemma commons_inv_reachable: "commons_reachable C s \<Longrightarrow> commons_inv C s"
proof (induction rule: commons_reachable.induct)
  case init
  show ?case by (simp add: commons_init_def commons_inv_def)
next
  case (step s s')
  from step.hyps(2) show ?case
  proof cases
    case (lookup now key)
    then show ?thesis using step.IH commons_inv_miss [OF step.IH] commons_inv_stale [OF step.IH]
      by (auto simp: cached_lookup_def Let_def split: option.split)
  next
    case (lead key ctype now up)
    have "commons_inv C (s\<lparr>cm_inflight := remove1 key (cm_inflight s)\<rparr>)"
      using step.IH by (auto simp: commons_inv_def entry_inv_def)
    with lead commons_inv_store [OF this, of ctype] show ?thesis by (simp add: lead_done_def Let_def)
  next
    case (reval key obj ctype now up)
    with step.IH show ?thesis by (simp add: commons_inv_reval)
  qed
qed

section \<open>Properties\<close>

text \<open>
  C13. The shared cache is sound under every interleaving of lookups, fetches and revalidations: it never
  holds more than \<open>MAX_ENTRIES\<close> entries; at most one fetch per key is in \<open>inflight\<close> and at most one
  revalidation per entry is under way; every entry's content type is on the allow list; and an entry is
  marked as revalidating exactly while its revalidation is under way, so none is ever stuck.
\<close>

theorem commons_cache_sound:
  assumes "commons_reachable C s"
  shows "length (cm_cache s) \<le> MAX_ENTRIES C \<and> distinct (cm_inflight s) \<and> distinct (map snd (cm_reval s))
    \<and> (jm_get (cm_cache s) key = Some e \<longrightarrow>
         ce_contentType e \<in> set (''application/octet-stream'' # ALLOWED_CONTENT_TYPES)
         \<and> (ce_revalidating e \<longleftrightarrow> ce_obj e \<in> snd ` set (cm_reval s)))"
proof -
  have inv: "commons_inv C s" using assms by (rule commons_inv_reachable)
  have "length (cm_cache s) \<le> MAX_ENTRIES C" "distinct (cm_inflight s)" "distinct (map snd (cm_reval s))"
    using inv unfolding commons_inv_def by blast+
  moreover have "jm_get (cm_cache s) key = Some e \<longrightarrow> entry_inv s e" using commons_inv_get [OF inv] by blast
  ultimately show ?thesis unfolding entry_inv_def by blast
qed

definition ex_commons_config :: commons_config where
  "ex_commons_config = \<lparr>TTL_MS = 10, SWR_MS = 20, MAX_ENTRIES = 2\<rparr>"

definition ex_upstream :: upstream where
  "ex_upstream = \<lparr>up_status = 200, up_body = [1, 2], up_contentType = ''Text/XML; charset=utf-8'', up_error = False,
     up_reason = None, up_redirectTarget = None\<rparr>"

definition ex_commons :: commons where
  "ex_commons = snd (cached_lookup ex_commons_config 115 ''a/new''
     (lead_done ex_commons_config feed_ctype 100 ''a/new'' ex_upstream (snd (cached_lookup ex_commons_config 95 ''a/new'' commons_init))))"

lemma ex_commons_reachable: "commons_reachable ex_commons_config ex_commons"
  unfolding ex_commons_def
  by (rule commons_reachable.step [OF commons_reachable.step [OF commons_reachable.step [OF commons_reachable.init
        commons_step.lookup] commons_step.lead] commons_step.lookup])
     (simp_all add: cached_lookup_def cached_miss_def commons_init_def jmap_simps)

theorem commons_cache_sound_witness:
  "\<exists>e. jm_get (cm_cache ex_commons) ''a/new'' = Some e \<and> ce_contentType e = ''text/xml'' \<and> ce_revalidating e
     \<and> ce_obj e \<in> snd ` set (cm_reval ex_commons)"
proof -
  let ?e = "\<lparr>ce_body = [1, 2], ce_contentType = ''text/xml'', ce_fetchedAt = 100, ce_revalidating = True, ce_obj = 0\<rparr>"
  have "jm_get (cm_cache ex_commons) ''a/new'' = Some ?e" by code_simp
  with commons_cache_sound [OF ex_commons_reachable, of "''a/new''" ?e] show ?thesis by (intro exI [of _ ?e]) simp
qed

text \<open>
  What a lookup does, on every branch: an entry younger than the TTL is a hit and changes nothing; one
  inside the stale window is served as stale, and afterwards its revalidation is under way; with no entry or
  a rotten one the caller joins the key's fetch if there is one and leads a new one otherwise. So a served
  entry is never older than both windows, and a hit or a stale answer never waits for the upstream.
\<close>

theorem cached_lookup_exact:
  assumes "commons_reachable C s"
  shows "(fst (cached_lookup C now key s) = Serve e st \<longrightarrow>
      (\<exists>e0. jm_get (cm_cache s) key = Some e0 \<and> ce_body e = ce_body e0 \<and> ce_contentType e = ce_contentType e0
         \<and> ce_fetchedAt e = ce_fetchedAt e0
         \<and> (st = ''HIT'' \<and> now - ce_fetchedAt e0 < TTL_MS C \<and> snd (cached_lookup C now key s) = s
            \<or> st = ''STALE'' \<and> TTL_MS C \<le> now - ce_fetchedAt e0 \<and> now - ce_fetchedAt e0 < TTL_MS C + SWR_MS C
              \<and> ce_obj e0 \<in> snd ` set (cm_reval (snd (cached_lookup C now key s))))))
    \<and> (fst (cached_lookup C now key s) = Lead \<longrightarrow> key \<notin> set (cm_inflight s)
         \<and> cm_inflight (snd (cached_lookup C now key s)) = cm_inflight s @ [key])
    \<and> (fst (cached_lookup C now key s) = Follow \<longrightarrow> key \<in> set (cm_inflight s) \<and> snd (cached_lookup C now key s) = s)
    \<and> (fst (cached_lookup C now key s) \<in> {Lead, Follow} \<longleftrightarrow>
         (case jm_get (cm_cache s) key of None \<Rightarrow> True
          | Some e0 \<Rightarrow> now - ce_fetchedAt e0 \<ge> max (TTL_MS C) (TTL_MS C + SWR_MS C)))"
proof -
  have inv: "ce_obj e0 \<in> snd ` set (cm_reval s)" if "jm_get (cm_cache s) key = Some e0" "ce_revalidating e0" for e0
    using commons_inv_get [OF commons_inv_reachable [OF assms] that(1)] that(2) by (simp add: entry_inv_def)
  show ?thesis
  proof (cases "jm_get (cm_cache s) key")
    case None
    then show ?thesis by (simp add: cached_lookup_def cached_miss_def)
  next
    case (Some e0)
    with inv [OF Some] show ?thesis by (auto simp: cached_lookup_def cached_miss_def Let_def)
  qed
qed

theorem cached_lookup_exact_witness:
  "fst (cached_lookup ex_commons_config 130 ''a/new'' ex_commons) = Lead
   \<and> cm_inflight (snd (cached_lookup ex_commons_config 130 ''a/new'' ex_commons)) = [''a/new'']"
proof -
  have "fst (cached_lookup ex_commons_config 130 ''a/new'' ex_commons) = Lead" "cm_inflight ex_commons = []" by code_simp+
  with cached_lookup_exact [OF ex_commons_reachable, of 130 "''a/new''"] show ?thesis by simp
qed

end
