(* ===== verification/CommonsServer.thy ===== *)
theory CommonsServer
  imports CommonsCache
begin

text \<open>
  The rest of the commons service (\<^verbatim>\<open>commons-cache/server.js\<close>): the upstream fetch with its limits and its
  failure categories, the imgur lookups, the request routing with its input checks, the responses and the
  log filter. Shown: what a fetch may return, which requests share a cache entry, that a failure of the
  upstream is answered by one fixed response, and what the start-up guard lets through.
\<close>

section \<open>Failures\<close>

text \<open>A thrown value, as far as \<open>upstreamFailure\<close> looks at it.\<close>

record js_error =
  er_name :: string
  er_code :: string
  er_syntax :: bool

definition upstreamFailure :: "int \<Rightarrow> js_error option \<Rightarrow> string" where
  "upstreamFailure status error =
     (if map_option er_name error = Some ''TimeoutError'' then ''timeout''
      else if map_option er_code error = Some ''BODY_TOO_LARGE'' then ''too_large''
      else if map_option er_syntax error = Some True then ''invalid_body''
      else if status = 403 then ''upstream_403''
      else if status = 429 then ''upstream_429''
      else if status = 404 then ''not_found''
      else if status \<ge> 500 then ''upstream_5xx''
      else if status \<ge> 400 then ''upstream_4xx''
      else if status \<ge> 300 then ''redirect''
      else if error \<noteq> None then ''network'' else ''other'')"

text \<open>
  \<open>resolve\<close> is \<open>new URL(location, requestedUrl)\<close> with the origin and protocol of the target, \<open>None\<close> where
  it throws; \<open>base_origin\<close> the origin of the requested URL.
\<close>

definition redirectTargetClass :: "(string \<Rightarrow> (string \<times> string) option) \<Rightarrow> string \<Rightarrow> int \<Rightarrow> string option \<Rightarrow> string option" where
  "redirectTargetClass resolve base_origin status location =
     (if status < 300 \<or> status \<ge> 400 then None
      else case location of
        None \<Rightarrow> Some ''missing''
      | Some raw \<Rightarrow>
          if js_trim raw = [] then Some ''missing''
          else (case resolve (js_trim raw) of
            None \<Rightarrow> Some ''invalid''
          | Some (origin, protocol) \<Rightarrow>
              if origin = base_origin then Some ''same_origin''
              else if protocol = ''https:'' then Some ''other_origin_https'' else Some ''unsafe_scheme''))"

section \<open>Reading a body\<close>

text \<open>A response body: its chunks, and how the stream ends (\<open>Some e\<close>: a read rejects with \<open>e\<close>).\<close>

type_synonym body_stream = "bytes list \<times> js_error option"

definition body_too_large :: js_error where
  "body_too_large = \<lparr>er_name = ''Error'', er_code = ''BODY_TOO_LARGE'', er_syntax = False\<rparr>"

fun read_chunks :: "nat \<Rightarrow> nat \<Rightarrow> bytes list \<Rightarrow> js_error option \<Rightarrow> js_error + bytes" where
  "read_chunks limit got [] fail = (case fail of None \<Rightarrow> Inr [] | Some e \<Rightarrow> Inl e)"
| "read_chunks limit got (c # cs) fail =
     (if got + length c > limit then Inl body_too_large
      else map_sum id (\<lambda>r. c @ r) (read_chunks limit (got + length c) cs fail))"

definition readBoundedBody :: "nat \<Rightarrow> body_stream option \<Rightarrow> js_error + bytes" where
  "readBoundedBody limit body = (case body of None \<Rightarrow> Inr [] | Some (chunks, fail) \<Rightarrow> read_chunks limit 0 chunks fail)"

lemma read_chunks_eq:
  "got \<le> limit \<Longrightarrow> read_chunks limit got cs fail = Inr b \<longleftrightarrow>
     fail = None \<and> b = concat cs \<and> got + length (concat cs) \<le> limit"
proof (induction cs arbitrary: got b)
  case Nil
  then show ?case by (auto split: option.split)
next
  case (Cons c cs)
  show ?case
  proof (cases "got + length c \<le> limit")
    case True
    then show ?thesis by (simp add: Cons.IH [OF True] add.assoc) blast
  qed auto
qed

lemma readBoundedBody_ok:
  "readBoundedBody limit body = Inr b \<longleftrightarrow>
     (case body of None \<Rightarrow> b = [] | Some (cs, fail) \<Rightarrow> fail = None \<and> b = concat cs \<and> length (concat cs) \<le> limit)"
  by (auto simp: readBoundedBody_def read_chunks_eq split: option.split)

section \<open>fetchUpstream\<close>

record commons_env =
  ce_base :: string
  ce_ua :: string
  ce_maxBody :: nat
  ce_forwardAuth :: bool
  ce_resolve :: "string \<Rightarrow> string \<Rightarrow> (string \<times> string) option"
  ce_origin :: "string \<Rightarrow> string"

definition upstreamHeaders :: "commons_env \<Rightarrow> string option \<Rightarrow> (string \<times> string) list" where
  "upstreamHeaders E authHeader =
     [(''User-Agent'', ce_ua E), (''Accept'', ''application/json, text/plain, */*''), (''Accept-Language'', ''en-US,en;q=0.9'')]
     @ (case authHeader of
          Some a \<Rightarrow> if ce_forwardAuth E \<and> a \<noteq> [] then [(''Authorization'', a)] else []
        | None \<Rightarrow> [])"

text \<open>What \<open>fetch\<close> with \<open>redirect: 'manual'\<close> gives: a rejection, or a response that was not followed.\<close>

datatype fetch_out =
    FetchError js_error
  | FetchResponse int "string option" "string option" "body_stream option"

definition up_failed :: "int \<Rightarrow> string \<Rightarrow> string option \<Rightarrow> upstream" where
  "up_failed status reason target =
     \<lparr>up_status = status, up_body = [], up_contentType = ''application/octet-stream'', up_error = True,
      up_reason = Some reason, up_redirectTarget = target\<rparr>"

definition fetchUpstream :: "commons_env \<Rightarrow> string \<Rightarrow> fetch_out \<Rightarrow> upstream" where
  "fetchUpstream E url out =
     (case out of
        FetchError e \<Rightarrow> up_failed 0 (upstreamFailure 0 (Some e)) None
      | FetchResponse status ctype location body \<Rightarrow>
          if status \<noteq> 200 then
            up_failed status (upstreamFailure status None) (redirectTargetClass (ce_resolve E url) (ce_origin E url) status location)
          else (case readBoundedBody (ce_maxBody E) body of
            Inl e \<Rightarrow> up_failed 0 (upstreamFailure 0 (Some e)) None
          | Inr b \<Rightarrow>
              \<lparr>up_status = 200, up_body = b,
               up_contentType = (case ctype of None \<Rightarrow> ''application/json'' | Some t \<Rightarrow> if t = [] then ''application/json'' else t),
               up_error = False, up_reason = None, up_redirectTarget = None\<rparr>))"

section \<open>Upstream URLs\<close>

text \<open>\<open>encodeURIComponent\<close> of a latin-1 string: unreserved characters stay, the others are escaped byte by byte.\<close>

definition ascii_alnum :: "char \<Rightarrow> bool" where
  "ascii_alnum c \<longleftrightarrow>
     (let n = (of_char c :: nat) in (48 \<le> n \<and> n \<le> 57) \<or> (65 \<le> n \<and> n \<le> 90) \<or> (97 \<le> n \<and> n \<le> 122))"

definition hex_upper :: "nat \<Rightarrow> char" where
  "hex_upper n = ''0123456789ABCDEF'' ! n"

definition encodeURIComponent :: "string \<Rightarrow> string" where
  "encodeURIComponent s = concat (map (\<lambda>c.
     if ascii_alnum c \<or> c \<in> set ''-_.!~*()'' \<or> c = char_of (39 :: nat) then [c]
     else concat (map (\<lambda>b. [CHR ''%'', hex_upper (unat b div 16), hex_upper (unat b mod 16)]) (utf8_char c))) s)"

text \<open>\<open>s.replace(/pat/g, rep)\<close> for a literal pattern.\<close>

function replace_all :: "string \<Rightarrow> string \<Rightarrow> string \<Rightarrow> string" where
  "replace_all pat rep s =
     (if pat = [] \<or> s = [] then s
      else if take (length pat) s = pat then rep @ replace_all pat rep (drop (length pat) s)
      else hd s # replace_all pat rep (tl s))"
  by auto
termination by (relation "measure (\<lambda>(pat, rep, s). length s)") auto

declare replace_all.simps [simp del]

definition upstreamUrl :: "commons_env \<Rightarrow> string \<Rightarrow> string \<Rightarrow> string \<Rightarrow> string" where
  "upstreamUrl E template feed view =
     (let path = replace_all ''{sort}'' (encodeURIComponent view) (replace_all ''{id}'' (encodeURIComponent feed) template)
      in ce_base E @ (if take 1 path = ''/'' then [] else ''/'') @ path)"

section \<open>The start-up guard\<close>

text \<open>
  \<open>validateUpstreamBase\<close> on the protocol and host name \<open>new URL\<close> finds (\<open>None\<close> where it throws); \<open>False\<close> is an
  exit with code 1.
\<close>

definition private_172 :: "string \<Rightarrow> bool" where
  "private_172 host \<longleftrightarrow>
     take 5 host = ''172.1'' \<and> take 1 (drop 5 host) \<in> {''6'', ''7'', ''8'', ''9''} \<and> take 1 (drop 6 host) = ''.''
     \<or> take 5 host = ''172.2'' \<and> take 1 (drop 5 host) \<in> {''0'', ''1'', ''2'', ''3'', ''4'', ''5'', ''6'', ''7'', ''8'', ''9''} \<and> take 1 (drop 6 host) = ''.''
     \<or> take 5 host = ''172.3'' \<and> take 1 (drop 5 host) \<in> {''0'', ''1''} \<and> take 1 (drop 6 host) = ''.''"

definition validateUpstreamBase :: "(string \<times> string) option \<Rightarrow> bool" where
  "validateUpstreamBase parsed =
     (case parsed of
        None \<Rightarrow> False
      | Some (protocol, hostname) \<Rightarrow>
          let host = js_lower hostname in
          \<not> (protocol \<noteq> ''https:'' \<or> host = ''localhost'' \<or> take 4 host = ''127.'' \<or> host = ''::1'' \<or> take 3 host = ''10.''
             \<or> take 8 host = ''192.168.'' \<or> take 8 host = ''169.254.'' \<or> private_172 host))"

section \<open>Imgur\<close>

text \<open>A shaping function throws, returns \<open>null\<close> or returns a value.\<close>

datatype shaped =
    SThrow
  | SNull
  | SOut jv

definition httpsUrl :: "jv \<Rightarrow> bool" where
  "httpsUrl u = (case jstr u of None \<Rightarrow> False | Some s \<Rightarrow> take 8 s = ''https://'')"

definition no_props :: "jv \<Rightarrow> bool" where
  "no_props j \<longleftrightarrow> j = JNull \<or> j = JUndef"

definition album_image :: "jv \<Rightarrow> jv" where
  "album_image i = JObj [(''url'', jget i ''link''), (''type'', jget i ''type''), (''w'', jget i ''width''), (''h'', jget i ''height'')]"

definition fetchImgurAlbum_shape :: "jv \<Rightarrow> shaped" where
  "fetchImgurAlbum_shape j =
     (if no_props j then SThrow
      else let xs = (case jarr (jget j ''data'') of None \<Rightarrow> [] | Some xs \<Rightarrow> xs) in
        if list_ex no_props xs then SThrow
        else SOut (JObj [(''images'', JArr (filter (\<lambda>x. httpsUrl (jget x ''url'')) (map album_image xs)))]))"

definition fetchImgurImage_shape :: "jv \<Rightarrow> shaped" where
  "fetchImgurImage_shape j =
     (if no_props j then SThrow
      else let d = jget j ''data'' in
        if jarr d = None \<and> jobj d = None then SNull
        else
          let animated = (jget d ''animated'' = JBool True);
              mp4 = (animated \<and> httpsUrl (jget d ''mp4''));
              url = (if mp4 then jget d ''mp4'' else jget d ''link'')
          in if \<not> httpsUrl url then SNull
             else SOut (JObj [(''image'', JObj [(''url'', url), (''type'', if mp4 then JStr ''video/mp4'' else jget d ''type''),
                    (''w'', jget d ''width''), (''h'', jget d ''height''), (''animated'', JBool animated)])]))"

text \<open>
  \<open>jparse\<close> is \<open>JSON.parse\<close> of the body as UTF-8, \<open>jprint\<close> the bytes of \<open>JSON.stringify\<close>.
\<close>

definition fetchImgurJson :: "commons_env \<Rightarrow> (bytes \<Rightarrow> jv option) \<Rightarrow> (jv \<Rightarrow> bytes) \<Rightarrow> (jv \<Rightarrow> shaped) \<Rightarrow> string \<Rightarrow> fetch_out \<Rightarrow> upstream" where
  "fetchImgurJson E jparse jprint shape url out =
     (let syntax_error = \<lparr>er_name = ''SyntaxError'', er_code = [], er_syntax = True\<rparr>;
          type_error = \<lparr>er_name = ''TypeError'', er_code = [], er_syntax = False\<rparr> in
      case out of
        FetchError e \<Rightarrow> up_failed 0 (upstreamFailure 0 (Some e)) None
      | FetchResponse status ctype location body \<Rightarrow>
          if status \<noteq> 200 then
            up_failed status (upstreamFailure status None) (redirectTargetClass (ce_resolve E url) (ce_origin E url) status location)
          else (case readBoundedBody (ce_maxBody E) body of
            Inl e \<Rightarrow> up_failed 0 (upstreamFailure 0 (Some e)) None
          | Inr b \<Rightarrow>
              (case jparse b of
                 None \<Rightarrow> up_failed 0 (upstreamFailure 0 (Some syntax_error)) None
               | Some j \<Rightarrow>
                   (case shape j of
                      SThrow \<Rightarrow> up_failed 0 (upstreamFailure 0 (Some type_error)) None
                    | SNull \<Rightarrow> up_failed 200 ''invalid_body'' None
                    | SOut v \<Rightarrow>
                        if length (jprint v) > ce_maxBody E then up_failed 200 ''too_large'' None
                        else \<lparr>up_status = 200, up_body = jprint v, up_contentType = ''application/json'', up_error = False,
                              up_reason = None, up_redirectTarget = None\<rparr>))))"

section \<open>Routing\<close>

text \<open>
  A request with its parsed URL: the path, and the query values \<open>searchParams.get\<close> returns (as latin-1
  strings; \<open>None\<close> is \<open>null\<close>).
\<close>

record commons_request =
  cq_req :: request
  cq_path :: string
  cq_query :: "string \<Rightarrow> string option"

definition query :: "commons_request \<Rightarrow> string \<Rightarrow> string \<Rightarrow> string" where
  "query q name dflt = (case cq_query q name of None \<Rightarrow> dflt | Some v \<Rightarrow> if v = [] then dflt else v)"

definition id_char :: "char \<Rightarrow> bool" where
  "id_char c \<longleftrightarrow> ascii_alnum c \<or> c = CHR ''_''"

text \<open>\<open>SORT_RE\<close>, \<open>/^[a-z]+$/\<close>, and \<open>IMGUR_ID_RE\<close>, \<open>/^[A-Za-z0-9]{1,15}$/\<close>.\<close>

definition SORT_RE :: "string \<Rightarrow> bool" where
  "SORT_RE s \<longleftrightarrow> s \<noteq> [] \<and> list_all (\<lambda>c. let n = (of_char c :: nat) in 97 \<le> n \<and> n \<le> 122) s"

definition IMGUR_ID_RE :: "string \<Rightarrow> bool" where
  "IMGUR_ID_RE s \<longleftrightarrow> 1 \<le> length s \<and> length s \<le> 15 \<and> list_all ascii_alnum s"

datatype feed_kind =
    Commons
  | Comments

datatype croute =
    CForbidden
  | CHealth
  | CProbe
  | CFeed feed_kind string string "string option"
  | CAlbum string
  | CImage string
  | CBadInput
  | CNotFound

text \<open>The request handler up to the calls of its collaborators; a URL that does not parse is answered 400 before.\<close>

definition feed_route :: "commons_env \<Rightarrow> feed_kind \<Rightarrow> commons_request \<Rightarrow> croute" where
  "feed_route E kind q =
     (let feed = filter id_char (query q ''id'' []); view = js_lower (query q ''sort'' ''latest'') in
      if feed = [] \<or> \<not> SORT_RE view then CBadInput
      else CFeed kind feed view
        (if ce_forwardAuth E then
           (case req_headers (cq_req q) ''authorization'' of None \<Rightarrow> None | Some a \<Rightarrow> if a = [] then None else Some a)
         else None))"

definition imgur_route :: "commons_request \<Rightarrow> croute" where
  "imgur_route q =
     (let album = js_trim (query q ''id'' []); image = js_trim (query q ''image'' []) in
      if album \<noteq> [] \<and> image = [] \<and> IMGUR_ID_RE album then CAlbum album
      else if image \<noteq> [] \<and> album = [] \<and> IMGUR_ID_RE image then CImage image
      else CBadInput)"

definition commons_route :: "commons_env \<Rightarrow> (bytes \<Rightarrow> bytes) \<Rightarrow> string \<Rightarrow> string \<Rightarrow> commons_request \<Rightarrow> croute" where
  "commons_route E sha256 REQUIRE_FDID FDID_HEADER q =
     (if REQUIRE_FDID \<noteq> [] \<and> \<not> cache_fdidExempt (cq_req q) (cq_path q)
          \<and> \<not> cache_frontDoorAllowed sha256 REQUIRE_FDID FDID_HEADER (cq_req q) then CForbidden
      else if cq_path q = ''/health'' then CHealth
      else if cq_path q = ''/v1/probe'' then CProbe
      else if cq_path q = ''/v1/commons'' then feed_route E Commons q
      else if cq_path q = ''/v1/comments'' then feed_route E Comments q
      else if cq_path q = ''/v1/imgur'' then imgur_route q
      else CNotFound)"

text \<open>The cache keys of \<open>getCachedFeed\<close> and of the two calls of \<open>getCachedImgur\<close>; \<open>None\<close> for the other routes.\<close>

definition feed_key :: "feed_kind \<Rightarrow> string \<Rightarrow> string \<Rightarrow> string" where
  "feed_key kind feed view = (case kind of Commons \<Rightarrow> [] | Comments \<Rightarrow> ''comments:'') @ feed @ ''/'' @ view"

definition album_key :: "string \<Rightarrow> string" where
  "album_key i = ''imgur/'' @ i"

definition image_key :: "string \<Rightarrow> string" where
  "image_key i = ''imgur-image/'' @ i"

fun route_key :: "croute \<Rightarrow> string option" where
  "route_key (CFeed kind feed view auth) = Some (feed_key kind feed view)"
| "route_key (CAlbum i) = Some (album_key i)"
| "route_key (CImage i) = Some (image_key i)"
| "route_key _ = None"

section \<open>Responses\<close>

record cresponse =
  cr_status :: int
  cr_headers :: "(string \<times> string) list"
  cr_body :: bytes

definition upstream_unavailable :: "string \<Rightarrow> cresponse" where
  "upstream_unavailable cacheState =
     \<lparr>cr_status = 502,
      cr_headers = [(''Content-Type'', ''application/json''), (''X-Cache'', cacheState), (''X-Content-Type-Options'', ''nosniff''),
        (''Cache-Control'', ''no-store'')],
      cr_body = utf8_bytes (''{'' @ [char_of (34 :: nat)] @ ''error'' @ [char_of (34 :: nat)] @ '':'' @ [char_of (34 :: nat)]
        @ ''upstream unavailable'' @ [char_of (34 :: nat)] @ ''}'')\<rparr>"

text \<open>The answer to a feed or imgur request; \<open>ctype\<close> is \<open>safeContentType\<close> or the constant of the imgur route.\<close>

definition cached_response :: "commons_config \<Rightarrow> (string \<Rightarrow> string) \<Rightarrow> int \<Rightarrow> cached_result \<Rightarrow> cresponse" where
  "cached_response C ctype now out =
     (case out of
        CFailed status reason target \<Rightarrow> upstream_unavailable ''MISS''
      | CServed body ct fetchedAt cacheState \<Rightarrow>
          \<lparr>cr_status = 200,
           cr_headers = [(''Content-Type'', ctype ct), (''X-Cache'', cacheState), (''X-Upstream-Status'', ''200''),
             (''X-Content-Type-Options'', ''nosniff''),
             (''Cache-Control'', ''public, max-age='' @ js_int_string (TTL_MS C div 1000) @ '', stale-while-revalidate=''
                @ js_int_string (SWR_MS C div 1000)),
             (''Age'', js_int_string (if fetchedAt = 0 then 0 else max 0 ((now - fetchedAt) div 1000)))],
           cr_body = body\<rparr>)"

text \<open>
  A whole request for a cached item: the lookup, and when it has to wait the outcome \<open>up\<close> of the fetch it
  leads or joins, which arrives at \<open>later\<close>.
\<close>

definition cached_answer :: "commons_config \<Rightarrow> (string \<Rightarrow> string) \<Rightarrow> int \<Rightarrow> int \<Rightarrow> string \<Rightarrow> upstream \<Rightarrow> commons \<Rightarrow> cached_result" where
  "cached_answer C ctype now later key up s =
     (case fst (cached_lookup C now key s) of
        Serve e st \<Rightarrow> CServed (ce_body e) (ce_contentType e) (ce_fetchedAt e) st
      | Lead \<Rightarrow> cached_result True ctype later up
      | Follow \<Rightarrow> cached_result False ctype later up)"

definition getCachedFeed :: "commons_config \<Rightarrow> feed_kind \<Rightarrow> string \<Rightarrow> string \<Rightarrow> int \<Rightarrow> int \<Rightarrow> upstream \<Rightarrow> commons \<Rightarrow> cached_result" where
  "getCachedFeed C kind feed view now later up s = cached_answer C feed_ctype now later (feed_key kind feed view) up s"

definition getCachedImgur :: "commons_config \<Rightarrow> string \<Rightarrow> int \<Rightarrow> int \<Rightarrow> upstream \<Rightarrow> commons \<Rightarrow> cached_result" where
  "getCachedImgur C key now later up s = cached_answer C imgur_ctype now later key up s"

text \<open>One row of \<open>handleProbe\<close>: status and size of a fetch without a credential.\<close>

definition handleProbe :: "commons_env \<Rightarrow> string \<Rightarrow> fetch_out \<Rightarrow> (string \<times> int \<times> nat) list" where
  "handleProbe E template out =
     (let up = fetchUpstream E (upstreamUrl E template ''example'' ''latest'') out in [(''commons'', up_status up, length (up_body up))])"

section \<open>The log boundary\<close>

record commons_log =
  cl_route :: jv
  cl_method :: jv
  cl_status :: jv
  cl_durationMs :: "int option"
  cl_cache :: jv
  cl_phase :: jv
  cl_reason :: jv
  cl_upstreamStatus :: jv
  cl_redirectTarget :: jv
  cl_event :: jv

definition commons_routes :: "string list" where
  "commons_routes = [''/health'', ''/v1/commons'', ''/v1/comments'', ''/v1/imgur'', ''/v1/probe'']"

definition commons_methods :: "string list" where
  "commons_methods = [''GET'', ''HEAD'', ''POST'', ''PUT'', ''PATCH'', ''DELETE'', ''OPTIONS'']"

definition commons_states :: "string list" where
  "commons_states = [''HIT'', ''STALE'', ''MISS'', ''COALESCED'', ''-'']"

definition commons_reasons :: "string list" where
  "commons_reasons = [''timeout'', ''network'', ''too_large'', ''invalid_body'', ''upstream_403'', ''upstream_429'', ''not_found'',
     ''upstream_4xx'', ''upstream_5xx'', ''redirect'', ''other'']"

definition commons_targets :: "string list" where
  "commons_targets = [''same_origin'', ''other_origin_https'', ''unsafe_scheme'', ''missing'', ''invalid'']"

definition commons_safeLogFields :: "commons_log \<Rightarrow> (string \<times> jv) list" where
  "commons_safeLogFields f =
     (if cl_route f \<noteq> JUndef then [(''route'', or_other commons_routes (cl_route f))] else [])
     @ (if cl_method f \<noteq> JUndef then [(''method'', or_other commons_methods (cl_method f))] else [])
     @ (if int_between 100 599 (cl_status f) then [(''status'', cl_status f)] else [])
     @ (case cl_durationMs f of None \<Rightarrow> [] | Some d \<Rightarrow> [(''durationMs'', JInt (max 0 d))])
     @ (if includes_str commons_states (cl_cache f) then [(''cache'', cl_cache f)] else [])
     @ (if cl_phase f = JStr ''revalidate'' then [(''phase'', cl_phase f)] else [])
     @ (if includes_str commons_reasons (cl_reason f) then [(''reason'', cl_reason f)] else [])
     @ (if int_between 100 599 (cl_upstreamStatus f) then [(''upstreamStatus'', cl_upstreamStatus f)] else [])
     @ (if includes_str commons_targets (cl_redirectTarget f) then [(''redirectTarget'', cl_redirectTarget f)] else [])
     @ (if includes_str [''fatal'', ''listen''] (cl_event f) then [(''event'', cl_event f)] else [])
     @ (if cl_reason f = JStr ''upstream_base_invalid'' then [(''reason'', cl_reason f)] else [])"

definition commons_log_words :: "string list" where
  "commons_log_words = [''other'', ''revalidate'', ''fatal'', ''listen'', ''upstream_base_invalid''] @ commons_routes @ commons_methods
     @ commons_states @ commons_reasons @ commons_targets"

interpretation commons_log: closed_log commons_safeLogFields commons_log_words
proof unfold_locales
  fix f
  have w: "set commons_states \<subseteq> set commons_log_words" "set commons_reasons \<subseteq> set commons_log_words"
    "set commons_targets \<subseteq> set commons_log_words" "set [''fatal'', ''listen''] \<subseteq> set commons_log_words"
    "{''revalidate'', ''upstream_base_invalid''} \<subseteq> set commons_log_words"
    and o: "or_other commons_routes v \<in> JStr ` set commons_log_words" "or_other commons_methods v \<in> JStr ` set commons_log_words" for v
    by ((rule or_other_words)?; auto simp: commons_log_words_def)+
  note words = includes_str_words [OF _ w(1)] includes_str_words [OF _ w(2)] includes_str_words [OF _ w(3)] includes_str_words [OF _ w(4)]
  show "snd ` set (commons_safeLogFields f) \<subseteq> range JInt \<union> range JBool \<union> JStr ` set commons_log_words"
    using o w(5) by (auto simp: commons_safeLogFields_def dest: int_between_int words split: option.splits)
qed

section \<open>Properties\<close>

lemma upstreamFailure_reason: "upstreamFailure status error \<in> set commons_reasons"
  by (simp add: upstreamFailure_def commons_reasons_def)

lemma redirectTargetClass_target: "redirectTargetClass resolve origin status loc = Some t \<Longrightarrow> t \<in> set commons_targets"
  by (auto simp: redirectTargetClass_def commons_targets_def split: if_splits option.splits)

text \<open>
  C15. What a fetch of the upstream may return: it succeeds exactly on a status of 200 whose body was read to
  its end within the limit, and then returns those bytes; otherwise (a redirect, which is never followed,
  an error status, an oversized or broken body, a timeout) it returns no bytes at all and a reason of the
  fixed vocabulary, and the class of a redirect target is one of five words.
\<close>

theorem fetchUpstream_sound:
  "(up_ok (fetchUpstream E url out) \<longleftrightarrow>
      (\<exists>ct loc body. out = FetchResponse 200 ct loc body \<and>
         (case body of None \<Rightarrow> up_body (fetchUpstream E url out) = []
          | Some (cs, fail) \<Rightarrow> fail = None \<and> length (concat cs) \<le> ce_maxBody E \<and> up_body (fetchUpstream E url out) = concat cs)))
   \<and> (up_ok (fetchUpstream E url out) \<or>
        up_body (fetchUpstream E url out) = [] \<and> up_reason (fetchUpstream E url out) \<in> Some ` set commons_reasons)
   \<and> length (up_body (fetchUpstream E url out)) \<le> ce_maxBody E
   \<and> set_option (up_redirectTarget (fetchUpstream E url out)) \<subseteq> set commons_targets"
proof (cases out)
  case (FetchError e)
  then show ?thesis using upstreamFailure_reason [of 0 "Some e"] by (simp add: fetchUpstream_def up_failed_def up_ok_def)
next
  case (FetchResponse status ct loc body)
  note r = this
  show ?thesis
  proof (cases "status = 200")
    case False
    have "set_option (redirectTargetClass (ce_resolve E url) (ce_origin E url) status loc) \<subseteq> set commons_targets"
      using redirectTargetClass_target [of "ce_resolve E url" "ce_origin E url" status loc] by auto
    with False r upstreamFailure_reason [of status None] show ?thesis
      by (simp add: fetchUpstream_def up_failed_def up_ok_def)
  next
    case True
    show ?thesis
    proof (cases "readBoundedBody (ce_maxBody E) body")
      case (Inl e)
      then have "\<not> (case body of None \<Rightarrow> True | Some (cs, fail) \<Rightarrow> fail = None \<and> length (concat cs) \<le> ce_maxBody E)"
        using readBoundedBody_ok [of "ce_maxBody E" body "[]"] readBoundedBody_ok [of "ce_maxBody E" body "concat (fst (the body))"]
        by (auto split: option.splits)
      with Inl True r upstreamFailure_reason [of 0 "Some e"] show ?thesis
        by (auto simp: fetchUpstream_def up_failed_def up_ok_def split: option.splits)
    next
      case (Inr b)
      then have "case body of None \<Rightarrow> b = [] | Some (cs, fail) \<Rightarrow> fail = None \<and> length (concat cs) \<le> ce_maxBody E \<and> b = concat cs"
        unfolding readBoundedBody_ok by (auto split: option.splits)
      with Inr True r show ?thesis by (auto simp: fetchUpstream_def up_ok_def split: option.splits)
    qed
  qed
qed

text \<open>What the handler's input checks leave.\<close>

fun route_ok :: "croute \<Rightarrow> bool" where
  "route_ok (CFeed kind feed view auth) \<longleftrightarrow> feed \<noteq> [] \<and> list_all id_char feed \<and> SORT_RE view"
| "route_ok (CAlbum i) \<longleftrightarrow> IMGUR_ID_RE i"
| "route_ok (CImage i) \<longleftrightarrow> IMGUR_ID_RE i"
| "route_ok _ \<longleftrightarrow> True"

lemma commons_route_ok: "route_ok (commons_route E sha256 fdid name q)"
proof -
  have "route_ok (feed_route E kind q)" for kind by (simp add: feed_route_def Let_def list_all_iff)
  moreover have "route_ok (imgur_route q)" by (simp add: imgur_route_def Let_def)
  ultimately show ?thesis by (simp add: commons_route_def)
qed

lemma slash_split: "CHR ''/'' \<notin> set a \<Longrightarrow> CHR ''/'' \<notin> set b \<Longrightarrow> a @ CHR ''/'' # x = b @ CHR ''/'' # y \<longleftrightarrow> a = b \<and> x = y"
  by (induction a arbitrary: b; case_tac b) auto

lemma id_chars: "list_all id_char s \<Longrightarrow> CHR ''/'' \<notin> set s \<and> CHR '':'' \<notin> set s \<and> CHR ''-'' \<notin> set s"
  by (auto simp: list_all_iff id_char_def ascii_alnum_def)

text \<open>Two routes ask for the same item, whatever the credential.\<close>

fun same_item :: "croute \<Rightarrow> croute \<Rightarrow> bool" where
  "same_item (CFeed k f v a) (CFeed k' f' v' a') \<longleftrightarrow> k = k' \<and> f = f' \<and> v = v'"
| "same_item r r' \<longleftrightarrow> r = r'"

lemma feed_key_first: "feed_key k f v = ((case k of Commons \<Rightarrow> [] | Comments \<Rightarrow> ''comments:'') @ f) @ CHR ''/'' # v"
  by (simp add: feed_key_def)

lemma feed_key_inj:
  assumes "list_all id_char f" "list_all id_char f'"
  shows "feed_key k f v = feed_key k' f' v' \<longleftrightarrow> k = k' \<and> f = f' \<and> v = v'"
proof -
  let ?p = "\<lambda>k. case k of Commons \<Rightarrow> [] | Comments \<Rightarrow> ''comments:''"
  have no: "CHR ''/'' \<notin> set (?p k @ f)" "CHR ''/'' \<notin> set (?p k' @ f')"
    using id_chars [OF assms(1)] id_chars [OF assms(2)] by (auto split: feed_kind.split)
  have "''comments:'' @ x \<noteq> y" if "list_all id_char y" for x y :: string
    using id_chars [OF that] by auto
  from this [OF assms(1)] this [OF assms(2)] show ?thesis
    unfolding feed_key_first slash_split [OF no] by (cases k; cases k') (auto simp: eq_commute)
qed

lemma imgur_key_inj [simp]:
  "album_key i = album_key j \<longleftrightarrow> i = j" "image_key i = image_key j \<longleftrightarrow> i = j" "album_key i \<noteq> image_key j" "image_key j \<noteq> album_key i"
  by (auto simp: album_key_def image_key_def)

lemma feed_key_imgur:
  assumes "list_all id_char f"
  shows "feed_key k f v = album_key i \<longleftrightarrow> k = Commons \<and> f = ''imgur'' \<and> v = i"
    and "album_key i = feed_key k f v \<longleftrightarrow> k = Commons \<and> f = ''imgur'' \<and> v = i"
    and "feed_key k f v \<noteq> image_key i" and "image_key i \<noteq> feed_key k f v"
proof -
  let ?p = "(case k of Commons \<Rightarrow> [] | Comments \<Rightarrow> ''comments:'') @ f"
  note ids = id_chars [OF assms]
  then have no: "CHR ''/'' \<notin> set ?p" by (auto split: feed_kind.split)
  have "feed_key k f v = album_key i \<longleftrightarrow> ?p = ''imgur'' \<and> v = i"
    unfolding feed_key_first album_key_def using slash_split [OF no, of "''imgur''" v i] by simp
  then show "feed_key k f v = album_key i \<longleftrightarrow> k = Commons \<and> f = ''imgur'' \<and> v = i" by (cases k) auto
  then show "album_key i = feed_key k f v \<longleftrightarrow> k = Commons \<and> f = ''imgur'' \<and> v = i" by metis
  have "feed_key k f v = image_key i \<longleftrightarrow> ?p = ''imgur-image'' \<and> v = i"
    unfolding feed_key_first image_key_def using slash_split [OF no, of "''imgur-image''" v i] by simp
  with ids show "feed_key k f v \<noteq> image_key i" by (cases k) auto
  then show "image_key i \<noteq> feed_key k f v" by metis
qed

lemma route_key_eq:
  assumes "route_ok r1" "route_ok r2" "route_key r1 \<noteq> None" "route_key r2 \<noteq> None"
  shows "route_key r1 = route_key r2 \<longleftrightarrow>
    same_item r1 r2 \<or> (\<exists>v a. r1 = CFeed Commons ''imgur'' v a \<and> r2 = CAlbum v \<or> r2 = CFeed Commons ''imgur'' v a \<and> r1 = CAlbum v)"
  using assms by (cases r1; cases r2) (auto simp: feed_key_inj feed_key_imgur)

text \<open>
  C14. Exactly which requests share a cache entry: two accepted requests have the same key if and only if they
  ask for the same item (the credential never matters), with one exception, a feed named \<open>imgur\<close>, whose key
  for a sort equals the key of the imgur album of that name.
\<close>

theorem cache_key_sharing:
  assumes "r1 = commons_route E sha256 fdid name q1" "r2 = commons_route E sha256 fdid name q2"
    and "route_key r1 \<noteq> None" "route_key r2 \<noteq> None"
  shows "route_key r1 = route_key r2 \<longleftrightarrow>
    same_item r1 r2 \<or> (\<exists>v a. r1 = CFeed Commons ''imgur'' v a \<and> r2 = CAlbum v \<or> r2 = CFeed Commons ''imgur'' v a \<and> r1 = CAlbum v)"
proof -
  have "route_ok r1" "route_ok r2" using commons_route_ok assms(1,2) by simp_all
  from route_key_eq [OF this assms(3,4)] show ?thesis .
qed

definition ex_cenv :: commons_env where
  "ex_cenv = \<lparr>ce_base = ''https://example.com'', ce_ua = ''ua'', ce_maxBody = 100, ce_forwardAuth = False, ce_resolve = (\<lambda>_ _. None), ce_origin = id\<rparr>"

definition ex_feed_req :: commons_request where
  "ex_feed_req = \<lparr>cq_req = \<lparr>req_method = ''GET'', req_url = [], req_headers = Map.empty\<rparr>, cq_path = ''/v1/commons'',
     cq_query = [''id'' \<mapsto> ''im/gur'', ''sort'' \<mapsto> ''ABC'']\<rparr>"

definition ex_album_req :: commons_request where
  "ex_album_req = \<lparr>cq_req = \<lparr>req_method = ''GET'', req_url = [], req_headers = Map.empty\<rparr>, cq_path = ''/v1/imgur'',
     cq_query = [''id'' \<mapsto> '' abc'']\<rparr>"

theorem cache_key_sharing_witness:
  "route_key (commons_route ex_cenv id [] [] ex_feed_req) = route_key (commons_route ex_cenv id [] [] ex_album_req)
   \<and> commons_route ex_cenv id [] [] ex_feed_req = CFeed Commons ''imgur'' ''abc'' None
   \<and> commons_route ex_cenv id [] [] ex_album_req = CAlbum ''abc''"
proof -
  have r: "commons_route ex_cenv id [] [] ex_feed_req = CFeed Commons ''imgur'' ''abc'' None"
    "commons_route ex_cenv id [] [] ex_album_req = CAlbum ''abc''" by code_simp+
  with cache_key_sharing [of _ ex_cenv id "[]" "[]" ex_feed_req _ ex_album_req, OF refl refl] show ?thesis by simp
qed

text \<open>
  What a feed request is answered: either the fixed 502 response, the same whatever the upstream's
  status, body or error was, and only if the fetch failed; or a 200 whose content type is on the allow list
  and whose bytes are those of a cached entry inside its windows or of the successful fetch.
\<close>

theorem feed_answer_safe:
  assumes "commons_reachable C s"
  shows "let r = cached_response C feed_ctype later (getCachedFeed C kind feed view now later up s) in
    r = upstream_unavailable ''MISS'' \<and> \<not> up_ok up
    \<or> cr_status r = 200 \<and> map_of (cr_headers r) ''Content-Type'' \<in> Some ` set (''application/octet-stream'' # ALLOWED_CONTENT_TYPES)
      \<and> (up_ok up \<and> cr_body r = up_body up
         \<or> (\<exists>e. jm_get (cm_cache s) (feed_key kind feed view) = Some e \<and> cr_body r = ce_body e
              \<and> now - ce_fetchedAt e < max (TTL_MS C) (TTL_MS C + SWR_MS C)))"
proof -
  have ct: "feed_ctype c \<in> set (''application/octet-stream'' # ALLOWED_CONTENT_TYPES)" for c
    using ctype_allowed [of feed_ctype] by blast
  show ?thesis
  proof (cases "fst (cached_lookup C now (feed_key kind feed view) s)")
    case (Serve e st)
    then have "\<exists>e0. jm_get (cm_cache s) (feed_key kind feed view) = Some e0 \<and> ce_body e = ce_body e0
        \<and> now - ce_fetchedAt e0 < max (TTL_MS C) (TTL_MS C + SWR_MS C)"
      by (auto simp: cached_lookup_def cached_miss_def Let_def split: option.splits if_splits)
    with Serve ct show ?thesis
      by (auto simp: getCachedFeed_def cached_answer_def cached_response_def Let_def simp del: set_simps)
  qed (use ct in \<open>auto simp: getCachedFeed_def cached_answer_def cached_response_def cached_result_def Let_def simp del: set_simps\<close>)
qed

theorem feed_answer_safe_witness:
  "\<exists>e. jm_get (cm_cache ex_commons) (feed_key Commons ''a'' ''new'') = Some e
     \<and> cr_body (cached_response ex_commons_config feed_ctype 116 (getCachedFeed ex_commons_config Commons ''a'' ''new'' 116 116
         (up_failed 503 ''upstream_5xx'' None) ex_commons)) = ce_body e"
proof -
  have n: "\<not> up_ok (up_failed 503 ''upstream_5xx'' None)" by (simp add: up_ok_def up_failed_def)
  have s: "cr_status (cached_response ex_commons_config feed_ctype 116 (getCachedFeed ex_commons_config Commons ''a'' ''new'' 116 116
         (up_failed 503 ''upstream_5xx'' None) ex_commons)) = 200" by code_simp
  have "cr_status (upstream_unavailable ''MISS'') = 502" by (simp add: upstream_unavailable_def)
  with n s feed_answer_safe [OF ex_commons_reachable, of 116 Commons "''a''" "''new''" 116 "up_failed 503 ''upstream_5xx'' None"]
  show ?thesis unfolding Let_def by auto
qed

text \<open>
  Nothing of the caller's input but plain identifiers reaches the upstream: a feed request that is routed
  at all passed the origin lock, its id is made of letters, digits and underscores, its sort of lower-case
  letters, so percent-encoding leaves both unchanged and neither can alter the structure of the upstream
  path; and a credential is passed on only if that is switched on.
\<close>

theorem feed_input_sanitised:
  assumes "commons_route E sha256 fdid name q = CFeed kind feed view auth"
  shows "feed \<noteq> [] \<and> list_all id_char feed \<and> SORT_RE view
    \<and> encodeURIComponent feed = feed \<and> encodeURIComponent view = view
    \<and> (fdid = [] \<or> frontDoorAllowed sha256 fdid name (cq_req q) \<or> cq_path q = ''/health'')
    \<and> (auth \<noteq> None \<longrightarrow> ce_forwardAuth E \<and> auth = req_headers (cq_req q) ''authorization'')"
proof -
  have ok: "feed \<noteq> [] \<and> list_all id_char feed \<and> SORT_RE view"
    using commons_route_ok [of E sha256 fdid name q] assms by simp
  have enc: "encodeURIComponent s = s" if "list_all id_char s" for s
    using that by (induction s) (auto simp: encodeURIComponent_def id_char_def)
  have "list_all id_char view" using ok by (auto simp: SORT_RE_def list_all_iff id_char_def ascii_alnum_def Let_def)
  moreover have "fdid = [] \<or> frontDoorAllowed sha256 fdid name (cq_req q) \<or> cq_path q = ''/health''"
    using assms by (auto simp: commons_route_def cache_fdidExempt_def cache_frontDoorAllowed_def split: if_splits)
  moreover have "auth \<noteq> None \<longrightarrow> ce_forwardAuth E \<and> auth = req_headers (cq_req q) ''authorization''"
    using assms by (auto simp: commons_route_def feed_route_def imgur_route_def Let_def split: if_splits option.splits)
  ultimately show ?thesis using ok enc by simp
qed

theorem feed_input_sanitised_witness:
  "commons_route ex_cenv id [] [] ex_feed_req = CFeed Commons ''imgur'' ''abc'' None \<and> encodeURIComponent ''imgur'' = ''imgur''"
proof -
  have r: "commons_route ex_cenv id [] [] ex_feed_req = CFeed Commons ''imgur'' ''abc'' None" by code_simp
  with feed_input_sanitised [OF r] show ?thesis by blast
qed

text \<open>The image links handed to clients are https.\<close>

lemma imgur_album_https:
  "fetchImgurAlbum_shape j = SOut v \<Longrightarrow> jget v ''images'' = JArr xs \<Longrightarrow> list_all (\<lambda>x. httpsUrl (jget x ''url'')) xs"
  by (auto simp: fetchImgurAlbum_shape_def Let_def list_all_iff split: if_splits)

lemma imgur_image_https: "fetchImgurImage_shape j = SOut v \<Longrightarrow> httpsUrl (jget (jget v ''image'') ''url'')"
  by (auto simp: fetchImgurImage_shape_def Let_def split: if_splits)

text \<open>
  The start-up guard compares the host name with \<open>::1\<close>, but the host name of a URL with an IPv6 literal keeps
  its brackets, so the loopback address is let through.
\<close>

lemma validateUpstreamBase_ipv6_loopback:
  "validateUpstreamBase (Some (''https:'', ''[::1]'')) \<and> \<not> validateUpstreamBase (Some (''https:'', ''127.0.0.1''))"
  by code_simp

end
