(* ===== verification/TokenFlow.thy ===== *)
theory TokenFlow
  imports IssuerServer RelayProxy CommonsServer
begin

text \<open>
  Where the services meet: the key document the issuer publishes at \<open>/issuer-keys\<close> is what the relay's key
  cache parses; and the log filters of all three services honour one contract.
\<close>

section \<open>From the issuer's keys to the relay's cache\<close>

text \<open>
  What both services rely on of Node's crypto: a 2048-bit RSA key's SPKI survives base64 and is short enough,
  and importing it gives a public key of the same kind that exports to the same bytes; both use SHA-256.
\<close>

definition keys_compatible :: "'k node_keys \<Rightarrow> 'p relay_keys \<Rightarrow> bool" where
  "keys_compatible N R \<longleftrightarrow> rk_sha256 R = nk_sha256 N \<and>
     (\<forall>k spki. nk_type N k \<in> {''rsa'', ''rsa-pss''} \<longrightarrow> nk_modulus N k = Some 2048 \<longrightarrow> nk_spki N k = Some spki \<longrightarrow>
        length (nk_b64enc N spki) \<le> 2048 \<and> rk_b64dec R (nk_b64enc N spki) = spki \<and>
        (\<exists>pk. rk_spki R spki = Some pk \<and> rk_type R pk \<in> {''rsa'', ''rsa-pss''} \<and> rk_modulus R pk = Some 2048 \<and> rk_export R pk = spki))"

definition key_record :: "int \<Rightarrow> 'k epoch_entry \<Rightarrow> jv" where
  "key_record e en = JObj [(''epoch'', JInt e), (''keyId'', JStr (ek_keyId en)), (''publicKeySpki'', JStr (spkiB64 en))]"

lemma importKey_record:
  assumes imp: "importKey N material = Inr (f, en)" and compat: "keys_compatible N R" and e: "e \<in> {epoch, epoch - 1}"
  obtains pk fp where
    "parse_key R epoch secs (key_record e en)
       = Some (e, ek_keyId en, \<lparr>ck_publicKey = pk, ck_fingerprint = fp, ck_expiresAt = (e + 2) * secs * 1000\<rparr>)"
    "Some (rk_export R pk) = nk_spki N (signer en)"
proof -
  from imp obtain k spki where k: "nk_type N k \<in> {''rsa'', ''rsa-pss''}" "nk_modulus N k = Some 2048" "nk_spki N k = Some spki"
    and en: "en = \<lparr>signer = k, spkiB64 = nk_b64enc N spki, ek_keyId = keyIdFromSpki N spki\<rparr>"
    by (auto simp: importKey_def split: option.splits if_splits)
  from compat k have len: "length (nk_b64enc N spki) \<le> 2048" and dec: "rk_b64dec R (nk_b64enc N spki) = spki"
    and sha: "rk_sha256 R = nk_sha256 N" unfolding keys_compatible_def by blast+
  from compat k obtain pk where pk: "rk_spki R spki = Some pk" "rk_type R pk \<in> {''rsa'', ''rsa-pss''}"
    "rk_modulus R pk = Some 2048" "rk_export R pk = spki" unfolding keys_compatible_def by blast
  show thesis
  proof (rule that)
    show "parse_key R epoch secs (key_record e en) = Some (e, ek_keyId en,
        \<lparr>ck_publicKey = pk, ck_fingerprint = hex_string (nk_sha256 N spki), ck_expiresAt = (e + 2) * secs * 1000\<rparr>)"
      using e len dec sha pk by (simp add: parse_key_def key_record_def en keyIdFromSpki_def Let_def)
    show "Some (rk_export R pk) = nk_spki N (signer en)" using pk k en by simp
  qed
qed

lemma keysForEpoch_import: "keysForEpoch N P now later e = Inr en \<Longrightarrow> \<exists>material f. importKey N material = Inr (f, en)"
proof (cases P)
  case (Legacy m)
  assume "keysForEpoch N P now later e = Inr en"
  with Legacy obtain f where "importKey N m = Inr (f, en)"
    by (auto simp: keysForEpoch_def split: if_splits sum.splits)
  then show ?thesis by blast
next
  case (Manifest rs)
  assume "keysForEpoch N P now later e = Inr en"
  then show ?thesis unfolding Manifest by (blast elim: keysForEpoch_manifest dest: import_all_in)
qed

text \<open>
  C9. The two services agree on the keys: whenever \<open>/issuer-keys\<close> answers 200 and the relay's clock is in the
  same epoch, the relay's parser accepts the document; both published keys are then in its cache under their
  ids, each until the end of the epoch after its own, and a token signed under either key (unless the two
  ids collide) meets exactly the public key the issuer signs with.
\<close>

theorem relay_accepts_issuer_keys:
  assumes compat: "keys_compatible (is_keys I) R"
    and secs: "1 \<le> is_epochSeconds I" "is_epochSeconds I \<le> 31557600"
    and clock: "kc_epoch (is_epochSeconds I) t = currentEpoch (is_epochSeconds I) now"
    and ok: "handleIssuerKeys I now (n1, l1) (n2, l2) = (rsp, lg)" "rs_status rsp = 200"
  shows "\<exists>en1 en2 m x1 x2 epoch. epoch = currentEpoch (is_epochSeconds I) now
    \<and> keysForEpoch (is_keys I) (is_provider I) n1 l1 epoch = Inr en1
    \<and> keysForEpoch (is_keys I) (is_provider I) n2 l2 (epoch - 1) = Inr en2
    \<and> kc_parse R t (rs_body rsp) = Some m \<and> jm_get m (ek_keyId en1) = Some x1 \<and> jm_get m (ek_keyId en2) = Some x2
    \<and> (epoch + 2) * is_epochSeconds I * 1000 \<le> ck_expiresAt x1 \<and> (epoch + 1) * is_epochSeconds I * 1000 \<le> ck_expiresAt x2
    \<and> Some (rk_export R (ck_publicKey x2)) = nk_spki (is_keys I) (signer en2)
    \<and> (ek_keyId en1 \<noteq> ek_keyId en2 \<longrightarrow> Some (rk_export R (ck_publicKey x1)) = nk_spki (is_keys I) (signer en1))"
proof -
  let ?N = "is_keys I" and ?S = "is_epochSeconds I"
  define epoch where "epoch = currentEpoch ?S now"
  from ok obtain en1 en2 where k1: "keysForEpoch ?N (is_provider I) n1 l1 epoch = Inr en1"
    and k2: "keysForEpoch ?N (is_provider I) n2 l2 (epoch - 1) = Inr en2"
    and body: "rs_body rsp = JObj [(''schemaVersion'', JInt 1), (''suite'', JStr ''RSABSSA-SHA384-PSS-Deterministic''),
        (''epoch'', JInt epoch), (''epochSeconds'', JInt ?S), (''keys'', JArr [key_record epoch en1, key_record (epoch - 1) en2])]"
    by (auto simp: handleIssuerKeys_def Let_def epoch_def [symmetric] key_record_def plain_def split: sum.splits)
  from keysForEpoch_import [OF k1] obtain m1 f1 where i1: "importKey ?N m1 = Inr (f1, en1)" by blast
  from keysForEpoch_import [OF k2] obtain m2 f2 where i2: "importKey ?N m2 = Inr (f2, en2)" by blast
  obtain pk1 fp1 where p1: "parse_key R epoch ?S (key_record epoch en1)
      = Some (epoch, ek_keyId en1, \<lparr>ck_publicKey = pk1, ck_fingerprint = fp1, ck_expiresAt = (epoch + 2) * ?S * 1000\<rparr>)"
    and e1: "Some (rk_export R pk1) = nk_spki ?N (signer en1)" by (rule importKey_record [OF i1 compat, of epoch epoch]) auto
  obtain pk2 fp2 where p2: "parse_key R epoch ?S (key_record (epoch - 1) en2)
      = Some (epoch - 1, ek_keyId en2, \<lparr>ck_publicKey = pk2, ck_fingerprint = fp2, ck_expiresAt = (epoch - 1 + 2) * ?S * 1000\<rparr>)"
    and e2: "Some (rk_export R pk2) = nk_spki ?N (signer en2)" by (rule importKey_record [OF i2 compat, of "epoch - 1" epoch]) auto
  let ?x1 = "\<lparr>ck_publicKey = pk1, ck_fingerprint = fp1, ck_expiresAt = (epoch + 2) * ?S * 1000\<rparr>"
  let ?x2 = "\<lparr>ck_publicKey = pk2, ck_fingerprint = fp2, ck_expiresAt = (epoch - 1 + 2) * ?S * 1000\<rparr>"
  let ?m = "merge_key (ek_keyId en2) ?x2 (merge_key (ek_keyId en1) ?x1 [])"
  have "kc_parse R t (rs_body rsp) = Some ?m"
    using secs clock p1 p2 by (simp add: kc_parse_def body Let_def epoch_def [symmetric] safe_int_def max_safe_def)
  moreover have "\<exists>x1 x2. jm_get ?m (ek_keyId en1) = Some x1 \<and> jm_get ?m (ek_keyId en2) = Some x2
      \<and> (epoch + 2) * ?S * 1000 \<le> ck_expiresAt x1 \<and> (epoch + 1) * ?S * 1000 \<le> ck_expiresAt x2
      \<and> ck_publicKey x2 = pk2 \<and> (ek_keyId en1 \<noteq> ek_keyId en2 \<longrightarrow> ck_publicKey x1 = pk1)"
    by (cases "ek_keyId en1 = ek_keyId en2") (auto simp: merge_key_def jmap_simps add.commute le_max_iff_disj)
  ultimately show ?thesis using k1 k2 e1 e2 epoch_def by metis
qed

text \<open>A manifest with one key only is accepted at start-up, but then \<open>/issuer-keys\<close> never publishes anything.\<close>

lemma single_key_manifest_unpublished:
  assumes "is_provider I = Manifest [(e, pk)]"
  shows "rs_status (fst (handleIssuerKeys I now c p)) = 503"
proof -
  have only: "x = e" if "keysForEpoch (is_keys I) (Manifest [(e, pk)]) n l x = Inr en" for n l x en
    using that by (auto elim!: keysForEpoch_manifest dest: import_all_in)
  show ?thesis
  proof (rule ccontr)
    assume n: "rs_status (fst (handleIssuerKeys I now c p)) \<noteq> 503"
    let ?E = "currentEpoch (is_epochSeconds I) now"
    from n obtain en1 en2 where "keysForEpoch (is_keys I) (Manifest [(e, pk)]) (fst c) (snd c) ?E = Inr en1"
      "keysForEpoch (is_keys I) (Manifest [(e, pk)]) (fst p) (snd p) (?E - 1) = Inr en2"
      by (cases c; cases p) (auto simp: handleIssuerKeys_def Let_def plain_def assms split: sum.splits)
    from only [OF this(1)] only [OF this(2)] show False by simp
  qed
qed

section \<open>Logs\<close>


definition ex_flow_keys :: "string node_keys" where
  "ex_flow_keys = ex_keys\<lparr>nk_spki := (\<lambda>k. Some (take 20 (utf8_bytes k))), nk_b64enc := map (\<lambda>b. char_of (unat b))\<rparr>"

definition ex_flow_relay :: "bytes relay_keys" where
  "ex_flow_relay = \<lparr>rk_b64dec = map (\<lambda>c. of_nat (of_char c)), rk_spki = Some, rk_type = (\<lambda>_. ''rsa''),
     rk_modulus = (\<lambda>_. Some 2048), rk_export = id, rk_sha256 = id\<rparr>"

lemma ex_flow_compatible: "keys_compatible ex_flow_keys ex_flow_relay"
proof -
  have "of_nat (of_char (char_of (unat b) :: char)) = b" for b :: byte
    using byte_lt_256 [of b] by simp
  then have "map (\<lambda>c. of_nat (of_char c)) (map (\<lambda>b. char_of (unat b) :: char) xs) = (xs :: bytes)" for xs by (simp add: map_idI)
  then show ?thesis by (auto simp: keys_compatible_def ex_flow_keys_def ex_flow_relay_def ex_keys_def)
qed

theorem relay_accepts_issuer_keys_witness:
  "\<exists>rsp lg m. handleIssuerKeys (ex_issuer\<lparr>is_keys := ex_flow_keys\<rparr>) 7000 (7, 7) (7, 7) = (rsp, lg)
     \<and> kc_parse ex_flow_relay 7900 (rs_body rsp) = Some m"
proof -
  let ?I = "ex_issuer\<lparr>is_keys := ex_flow_keys\<rparr>"
  obtain rsp lg where h: "handleIssuerKeys ?I 7000 (7, 7) (7, 7) = (rsp, lg)" by (cases "handleIssuerKeys ?I 7000 (7, 7) (7, 7)")
  have i: "is_keys ?I = ex_flow_keys" "is_epochSeconds ?I = 1" "is_provider ?I = Manifest ex_records" by (simp_all add: ex_issuer_def)
  have e: "currentEpoch 1 7000 = 7" by (simp add: currentEpoch_def)
  obtain ks where ks: "issuer_keys ex_flow_keys (Manifest ex_records) [(7, 7, 7), (7 - 1, 7, 7)] = Inr ks"
  proof -
    let ?en = "\<lambda>k. \<lparr>signer = k, spkiB64 = map (\<lambda>b. char_of (unat b)) (utf8_bytes k), ek_keyId = take 32 (hex_string (utf8_bytes k))\<rparr>"
    have "keysForEpoch ex_flow_keys (Manifest ex_records) 7 7 7 = Inr (?en ''-----BEGIN a'')"
      "keysForEpoch ex_flow_keys (Manifest ex_records) 7 7 6 = Inr (?en ''-----BEGIN b'')" by code_simp+
    then show thesis using that by simp
  qed
  have s: "rs_status rsp = 200"
    using h unfolding handleIssuerKeys_def Let_def i e ks by auto
  from relay_accepts_issuer_keys [where I = ?I and R = ex_flow_relay and t = 7900, OF _ _ _ _ h s] h i ex_flow_compatible
  show ?thesis by (auto simp: kc_epoch_def currentEpoch_def)
qed

end
