(* ===== verification/Startup.thy ===== *)
theory Startup
  imports IssuerServer RelayProxy CommonsServer
begin

text \<open>
  Start-up of the three services: the configuration each \<^verbatim>\<open>server.js\<close> reads from the environment, its defaults,
  and the checks that make a misconfigured service refuse to start. A number is \<open>None\<close> where \<open>parseInt\<close>
  gives NaN. Shown: what a service that started guarantees, and the complete list of refusals.
\<close>

section \<open>The environment\<close>

type_synonym environ = "string \<Rightarrow> string option"

text \<open>\<open>process.env.NAME || dflt\<close> and \<open>parseInt(process.env.NAME || dflt, 10)\<close>.\<close>

definition env_or :: "environ \<Rightarrow> string \<Rightarrow> string \<Rightarrow> string" where
  "env_or env name dflt = (case env name of None \<Rightarrow> dflt | Some v \<Rightarrow> if v = [] then dflt else v)"

definition env_int :: "environ \<Rightarrow> string \<Rightarrow> string \<Rightarrow> int option" where
  "env_int env name dflt = parseInt10 (env_or env name dflt)"

text \<open>
  \<open>Number(s)\<close>: a plain decimal numeral is read here; \<open>num\<close> stands for the other numeric literals
  (\<open>JUndef\<close> is NaN).
\<close>

definition js_Number :: "(string \<Rightarrow> jv) \<Rightarrow> string \<Rightarrow> jv" where
  "js_Number num s =
     (let t = js_trim s; u = (if t \<noteq> [] \<and> hd t \<in> {CHR ''-'', CHR ''+''} then tl t else t);
          v = (if t \<noteq> [] \<and> hd t = CHR ''-'' then - int (read_dec u) else int (read_dec u))
      in if t = [] then JInt 0
         else if u \<noteq> [] \<and> list_all is_digit u \<and> safe_int v then JInt v else num t)"

text \<open>Decimal numerals are read as integers when the settings are evaluated.\<close>

definition read_int :: "string \<Rightarrow> int" where
  "read_int s = foldl (\<lambda>a c. 10 * a + int (of_char c - 48)) 0 s"

lemma read_dec_int [code_unfold]: "int (read_dec s) = read_int s"
proof -
  have "int (foldl (\<lambda>a c. 10 * a + (of_char c - 48)) n s) = foldl (\<lambda>a c. 10 * a + int (of_char c - 48)) (int n) s" for n
    by (induction s arbitrary: n) (simp_all add: algebra_simps)
  from this [of 0] show ?thesis by (simp add: read_dec_def read_int_def)
qed

section \<open>The issuer\<close>

record issuer_settings =
  st_port :: "int option"
  st_epochSeconds :: "int option"
  st_quota :: int
  st_maxTokens :: "int option"
  st_maxBody :: "int option"
  st_requireBinding :: bool
  st_provider :: provider
  st_fdid :: string
  st_fdidHeader :: string
  st_connection :: "(string \<times> string) option"
  st_salt :: bytes

text \<open>The argument check of \<open>createIssuerState\<close>, with the \<open>operationTimeoutMs\<close> it is given.\<close>

definition createIssuerState_ok :: "bytes \<Rightarrow> jv \<Rightarrow> jv \<Rightarrow> bool" where
  "createIssuerState_ok salt quota operationTimeoutMs \<longleftrightarrow>
     length salt \<ge> 32 \<and> isSafeInteger quota \<and> 0 \<le> jint quota \<and> isSafeInteger operationTimeoutMs \<and> 0 < jint operationTimeoutMs"

text \<open>
  The epoch at start-up; \<open>None\<close> where the division gives NaN or an infinity, which \<open>readEpoch\<close> refuses. Only
  an explicit manifest reads it.
\<close>

definition start_epoch :: "int \<Rightarrow> int option \<Rightarrow> int option" where
  "start_epoch now epochSeconds =
     (case epochSeconds of None \<Rightarrow> None | Some n \<Rightarrow> if n = 0 then None else Some (currentEpoch n now))"

definition start_provider :: "(string \<Rightarrow> jv option) \<Rightarrow> int option \<Rightarrow> string \<Rightarrow> string option \<Rightarrow> epoch_error + provider" where
  "start_provider jparse epoch legacy manifest =
     (case epoch of
        None \<Rightarrow> if manifest = None then createEpochKeyProvider jparse 0 legacy None else Inl EpochKeyUnavailable
      | Some e \<Rightarrow> createEpochKeyProvider jparse e legacy manifest)"

text \<open>
  Evaluating \<^verbatim>\<open>token-issuer/server.js\<close> up to \<open>ISSUER_STATE\<close>; \<open>Inl\<close> is the message of the error that ends the
  process. \<open>connect\<close> says whether \<open>TableClient.fromConnectionString\<close> accepts its arguments, \<open>random\<close> is the
  salt of a process without shared state.
\<close>

definition issuer_start :: "(string \<Rightarrow> jv) \<Rightarrow> (string \<Rightarrow> bytes) \<Rightarrow> (string \<Rightarrow> jv option) \<Rightarrow> (string \<Rightarrow> string \<Rightarrow> bool) \<Rightarrow> bytes \<Rightarrow> int
    \<Rightarrow> environ \<Rightarrow> string + issuer_settings" where
  "issuer_start num b64dec jparse connect random now env =
     (let epochSeconds = env_int env ''EPOCH_SECONDS'' ''604800'';
          quota = js_Number num (env_or env ''ISSUANCE_QUOTA_PER_EPOCH'' ''256'');
          connection = env_or env ''ISSUER_STATE_CONNECTION_STRING'' [];
          durable = env_or env ''REQUIRE_DURABLE_STATE'' ''0'';
          tbl = env_or env ''ISSUER_STATE_TABLE'' ''columbiaissuerstate'';
          salt = (if connection \<noteq> [] then b64dec (env_or env ''ISSUER_STATE_SALT'' []) else random)
      in case start_provider jparse (start_epoch now epochSeconds) (env_or env ''ISSUER_SIGNING_KEY'' []) (env ''ISSUER_EPOCH_KEYS_JSON'') of
           Inl _ \<Rightarrow> Inl ''epoch_key_unavailable''
         | Inr prov \<Rightarrow>
             if durable \<notin> {''0'', ''1''} then Inl ''issuer_durable_state_policy_invalid''
             else if durable = ''1'' \<and> connection = [] then Inl ''issuer_durable_state_required''
             else if connection \<noteq> [] \<and> \<not> connect connection tbl then Inl ''connection_string''
             else if connection \<noteq> [] \<and> length salt < 32 then Inl ''issuer_state_salt_required''
             else if \<not> createIssuerState_ok salt quota (JInt 8000) then Inl ''issuer_state_configuration''
             else Inr \<lparr>st_port = env_int env ''PORT'' ''8080'', st_epochSeconds = epochSeconds, st_quota = jint quota,
                       st_maxTokens = env_int env ''MAX_TOKENS_PER_REQUEST'' ''64'', st_maxBody = env_int env ''MAX_BODY_BYTES'' ''262144'',
                       st_requireBinding = (env ''REQUIRE_CLIENT_DATA_BINDING'' \<noteq> Some ''0''), st_provider = prov,
                       st_fdid = env_or env ''REQUIRE_FDID'' [], st_fdidHeader = js_lower (env_or env ''FDID_HEADER'' ''x-azure-fdid''),
                       st_connection = (if connection \<noteq> [] then Some (connection, tbl) else None), st_salt = salt\<rparr>)"

definition issuer_refusals :: "string list" where
  "issuer_refusals = [''epoch_key_unavailable'', ''issuer_durable_state_policy_invalid'', ''issuer_durable_state_required'', ''connection_string'',
     ''issuer_state_salt_required'', ''issuer_state_configuration'']"

text \<open>The environment of an issuer: one policy, one manifest, one salt of 32 bytes.\<close>

definition ex_issuer_env :: environ where
  "ex_issuer_env = [''REQUIRE_DURABLE_STATE'' \<mapsto> ''1'', ''ISSUER_STATE_CONNECTION_STRING'' \<mapsto> ''cs'',
     ''ISSUER_STATE_SALT'' \<mapsto> ''0123456789abcdef0123456789abcdef'', ''ISSUER_SIGNING_KEY'' \<mapsto> ''old'', ''ISSUER_EPOCH_KEYS_JSON'' \<mapsto> ''m'',
     ''ISSUANCE_QUOTA_PER_EPOCH'' \<mapsto> '' 12 '', ''EPOCH_SECONDS'' \<mapsto> ''10'']"

lemma start_provider_manifest:
  assumes "start_provider jparse ep legacy manifest = Inr P" "manifest \<noteq> None"
  shows "\<exists>rs e. ep = Some e \<and> P = Manifest rs \<and> 1 \<le> length rs \<and> length rs \<le> 2 \<and> fst ` set rs \<subseteq> {e, e - 1}"
proof -
  from assms obtain e m where e: "ep = Some e" "createEpochKeyProvider jparse e legacy (Some m) = Inr P"
    by (auto simp: start_provider_def split: option.splits)
  from manifest_accepted [OF e(2)] e(1) show ?thesis by fastforce
qed

lemma issuer_started:
  assumes "issuer_start num b64dec jparse connect random now env = Inr S"
  shows "env_or env ''REQUIRE_DURABLE_STATE'' ''0'' \<in> {''0'', ''1''}
      \<and> (env_or env ''REQUIRE_DURABLE_STATE'' ''0'' = ''1'' \<longrightarrow> env_or env ''ISSUER_STATE_CONNECTION_STRING'' [] \<noteq> [])"
    and "env_or env ''ISSUER_STATE_CONNECTION_STRING'' [] \<noteq> [] \<Longrightarrow>
      connect (env_or env ''ISSUER_STATE_CONNECTION_STRING'' []) (env_or env ''ISSUER_STATE_TABLE'' ''columbiaissuerstate'')
      \<and> st_connection S = Some (env_or env ''ISSUER_STATE_CONNECTION_STRING'' [], env_or env ''ISSUER_STATE_TABLE'' ''columbiaissuerstate'')
      \<and> st_salt S = b64dec (env_or env ''ISSUER_STATE_SALT'' [])"
    and "env_or env ''ISSUER_STATE_CONNECTION_STRING'' [] = [] \<Longrightarrow> st_connection S = None \<and> st_salt S = random"
    and "32 \<le> length (st_salt S)" "0 \<le> st_quota S \<and> st_quota S \<le> max_safe"
    and "start_provider jparse (start_epoch now (st_epochSeconds S)) (env_or env ''ISSUER_SIGNING_KEY'' []) (env ''ISSUER_EPOCH_KEYS_JSON'')
      = Inr (st_provider S)"
  using assms unfolding issuer_start_def Let_def createIssuerState_ok_def isSafeInteger_iff safe_int_def
  by (auto split: sum.splits if_splits)

text \<open>
  C37. An issuer that starts fails closed on its configuration: a policy that demands durable state is met by a
  table connection with the configured salt, never by process memory; the salt has at least 32 bytes; the
  quota is a safe non-negative integer; a manifest that is set, even an empty one, is the only source of
  signing keys, and holds one or two current or previous epochs; and a start that is refused is refused
  with one of six messages.
\<close>

theorem issuer_start_sound:
  "case issuer_start num b64dec jparse connect random now env of
     Inl msg \<Rightarrow> msg \<in> set issuer_refusals
   | Inr S \<Rightarrow>
       env_or env ''REQUIRE_DURABLE_STATE'' ''0'' \<in> {''0'', ''1''}
       \<and> (st_connection S = None \<longrightarrow> env ''REQUIRE_DURABLE_STATE'' \<noteq> Some ''1'' \<and> st_salt S = random)
       \<and> (\<forall>cs tbl. st_connection S = Some (cs, tbl) \<longrightarrow> env ''ISSUER_STATE_CONNECTION_STRING'' = Some cs \<and> cs \<noteq> [] \<and> connect cs tbl
            \<and> st_salt S = b64dec (env_or env ''ISSUER_STATE_SALT'' []))
       \<and> 32 \<le> length (st_salt S) \<and> 0 \<le> st_quota S \<and> st_quota S \<le> max_safe
       \<and> (env ''ISSUER_EPOCH_KEYS_JSON'' \<noteq> None \<longrightarrow>
            (\<exists>rs e. start_epoch now (st_epochSeconds S) = Some e \<and> st_provider S = Manifest rs \<and> 1 \<le> length rs \<and> length rs \<le> 2
               \<and> fst ` set rs \<subseteq> {e, e - 1}))"
proof (cases "issuer_start num b64dec jparse connect random now env")
  case (Inl msg)
  then show ?thesis unfolding issuer_start_def Let_def issuer_refusals_def by (simp split: sum.splits if_splits)
next
  case (Inr S)
  let ?cs = "env_or env ''ISSUER_STATE_CONNECTION_STRING'' []"
  note started = issuer_started [OF Inr]
  have "env ''REQUIRE_DURABLE_STATE'' = Some ''1'' \<Longrightarrow> env_or env ''REQUIRE_DURABLE_STATE'' ''0'' = ''1''"
    "?cs \<noteq> [] \<Longrightarrow> env ''ISSUER_STATE_CONNECTION_STRING'' = Some ?cs"
    by (simp_all add: env_or_def split: option.splits if_splits)
  with started(1-3) have "st_connection S = None \<longrightarrow> env ''REQUIRE_DURABLE_STATE'' \<noteq> Some ''1'' \<and> st_salt S = random"
    "\<forall>cs tbl. st_connection S = Some (cs, tbl) \<longrightarrow> env ''ISSUER_STATE_CONNECTION_STRING'' = Some cs \<and> cs \<noteq> [] \<and> connect cs tbl
            \<and> st_salt S = b64dec (env_or env ''ISSUER_STATE_SALT'' [])"
    by (metis option.distinct(1), metis option.inject option.distinct(1) prod.inject)
  with Inr started(1,4,5) start_provider_manifest [OF started(6)] show ?thesis by simp
qed

theorem issuer_start_sound_witness:
  "\<exists>S. issuer_start (\<lambda>_. JUndef) utf8_bytes (\<lambda>_. Some ex_manifest) (\<lambda>_ _. True) [] 75000 ex_issuer_env = Inr S
     \<and> st_quota S = 12 \<and> st_provider S = Manifest ex_records \<and> 32 \<le> length (st_salt S) \<and> st_connection S \<noteq> None"
proof -
  define r where "r = issuer_start (\<lambda>_. JUndef) utf8_bytes (\<lambda>_. Some ex_manifest) (\<lambda>_ _. True) [] 75000 ex_issuer_env"
  have v: "map_sum id (\<lambda>S. (st_quota S, st_provider S)) r = Inr (12, Manifest ex_records)" unfolding r_def by code_simp
  then obtain S where S: "r = Inr S" "st_quota S = 12" "st_provider S = Manifest ex_records" by (cases r) auto
  have "32 \<le> length (st_salt S)" "st_connection S = None \<longrightarrow> ex_issuer_env ''REQUIRE_DURABLE_STATE'' \<noteq> Some ''1''"
    using issuer_start_sound [where num = "\<lambda>_. JUndef" and b64dec = utf8_bytes and jparse = "\<lambda>_. Some ex_manifest"
        and connect = "\<lambda>_ _. True" and random = "[]" and now = 75000 and env = ex_issuer_env]
    unfolding r_def [symmetric] S(1) by simp_all
  moreover have "ex_issuer_env ''REQUIRE_DURABLE_STATE'' = Some ''1''" by code_simp
  ultimately show ?thesis using S unfolding r_def by auto
qed

section \<open>The relay\<close>

text \<open>What the relay reads of a parsed URL; \<open>new URL\<close> is a parameter, \<open>None\<close> where it throws.\<close>

record url =
  u_protocol :: string
  u_hostname :: string
  u_host :: string
  u_port :: string
  u_pathname :: string

text \<open>\<open>u.port || 443\<close>\<close>

definition url_port :: "url \<Rightarrow> int" where
  "url_port u = (if u_port u = [] then 443 else int (read_dec (u_port u)))"

datatype redemption_choice =
    MemoryStore int
  | TableStore string string

record relay_settings =
  rs_port :: "int option"
  rs_maxBody :: "int option"
  rs_maxResp :: "int option"
  rs_gwTimeout :: "int option"
  rs_rpm :: "int option"
  rs_window :: "int option"
  rs_maxInflight :: "int option"
  rs_rateKeys :: "int option"
  rs_trusted :: string
  rs_authMode :: string
  rs_clientSecret :: string
  rs_authHeader :: string
  rs_keysUrl :: string
  rs_keysTtl :: int
  rs_saltLen :: "int option"
  rs_fdid :: string
  rs_fdidHeader :: string
  rs_configTtl :: "int option"
  rs_gateway :: gateway
  rs_configs :: "url option"
  rs_store :: redemption_choice

text \<open>\<open>memoryRedemptionStore\<close> and \<open>createIssuerKeyCache\<close> check their arguments; NaN is not a safe integer.\<close>

definition positive_safe :: "int option \<Rightarrow> bool" where
  "positive_safe n = (case n of None \<Rightarrow> False | Some k \<Rightarrow> safe_int k \<and> 1 \<le> k)"

definition start_redemption :: "(string \<Rightarrow> string \<Rightarrow> bool) \<Rightarrow> environ \<Rightarrow> string + redemption_choice" where
  "start_redemption connect env =
     (let connection = env_or env ''REDEMPTION_CONNECTION_STRING'' [];
          tbl = env_or env ''REDEMPTION_TABLE'' ''columbiaredemptions'';
          maxKeys = env_int env ''REDEMPTION_MAX_KEYS'' ''5000000''
      in if connection \<noteq> [] then (if connect connection tbl then Inr (TableStore connection tbl) else Inl ''connection_string'')
         else if positive_safe maxKeys then Inr (MemoryStore (the maxKeys)) else Inl ''redemption_capacity_invalid'')"

text \<open>
  The gateway of \<open>GATEWAY_URL\<close>, parsed once; \<open>new URL(undefined)\<close> parses the text \<open>undefined\<close>. \<open>Inl\<close> is the
  reason logged before the exit with code 1.
\<close>

definition start_gateway :: "(string \<Rightarrow> url option) \<Rightarrow> environ \<Rightarrow> string + url" where
  "start_gateway parseURL env =
     (case parseURL (case env ''GATEWAY_URL'' of None \<Rightarrow> ''undefined'' | Some g \<Rightarrow> g) of
        None \<Rightarrow> Inl ''gateway_url_invalid''
      | Some gw \<Rightarrow> if u_protocol gw \<noteq> ''https:'' then Inl ''gateway_not_https'' else Inr gw)"

definition gateway_configs_url :: "url \<Rightarrow> environ \<Rightarrow> string" where
  "gateway_configs_url gw env = env_or env ''GATEWAY_CONFIGS_URL'' (u_protocol gw @ ''//'' @ u_host gw @ ''/ohttp-configs'')"

definition relay_start :: "(string \<Rightarrow> url option) \<Rightarrow> (string \<Rightarrow> string \<Rightarrow> bool) \<Rightarrow> environ \<Rightarrow> string + relay_settings" where
  "relay_start parseURL connect env =
     (case start_gateway parseURL env of
        Inl reason \<Rightarrow> Inl reason
      | Inr gw \<Rightarrow>
          (case start_redemption connect env of
             Inl msg \<Rightarrow> Inl msg
           | Inr choice \<Rightarrow>
               (let ttl = env_int env ''ISSUER_KEYS_TTL_MS'' ''300000'' in
                if \<not> positive_safe ttl then Inl ''issuer_cache_configuration''
                else Inr \<lparr>rs_port = env_int env ''PORT'' ''8080'', rs_maxBody = env_int env ''MAX_BODY_BYTES'' ''65536'',
                          rs_maxResp = env_int env ''MAX_RESP_BYTES'' ''5000000'', rs_gwTimeout = env_int env ''GW_TIMEOUT_MS'' ''15000'',
                          rs_rpm = env_int env ''RATE_LIMIT_RPM'' ''120'', rs_window = env_int env ''RATE_WINDOW_MS'' ''60000'',
                          rs_maxInflight = env_int env ''MAX_INFLIGHT'' ''256'', rs_rateKeys = env_int env ''RATE_MAX_KEYS'' ''100000'',
                          rs_trusted = js_lower (env_or env ''TRUSTED_CLIENT_IP_HEADER'' []),
                          rs_authMode = js_lower (env_or env ''CLIENT_AUTH_MODE'' ''off''), rs_clientSecret = env_or env ''CLIENT_SECRET'' [],
                          rs_authHeader = js_lower (env_or env ''CLIENT_AUTH_HEADER'' ''x-columbia-token''),
                          rs_keysUrl = env_or env ''ISSUER_KEYS_URL'' [], rs_keysTtl = the ttl,
                          rs_saltLen = env_int env ''TOKEN_PSS_SALT_LEN'' ''48'',
                          rs_fdid = env_or env ''REQUIRE_FDID'' [], rs_fdidHeader = js_lower (env_or env ''FDID_HEADER'' ''x-azure-fdid''),
                          rs_configTtl = env_int env ''CONFIG_TTL_MS'' ''120000'',
                          rs_gateway = \<lparr>gw_hostname = u_hostname gw, gw_port = url_port gw, gw_pathname = u_pathname gw,
                            gw_secret = env_or env ''RELAY_GATEWAY_SECRET'' []\<rparr>,
                          rs_configs = parseURL (gateway_configs_url gw env), rs_store = choice\<rparr>)))"

text \<open>
  The environment of the request handler, where every limit is a number. A limit that is NaN compares as
  false everywhere, so it limits nothing; such settings have no handler environment here.
\<close>

definition relay_env_of :: "(bytes \<Rightarrow> bytes) \<Rightarrow> relay_settings \<Rightarrow> relay_env option" where
  "relay_env_of sha256 S =
     (case (rs_rpm S, rs_window S, rs_rateKeys S, rs_maxInflight S, rs_maxBody S) of
        (Some rpm, Some window, Some keys, Some inflight, Some body) \<Rightarrow>
          Some \<lparr>re_sha256 = sha256, re_fdid = rs_fdid S, re_fdidHeader = rs_fdidHeader S, re_trusted = rs_trusted S,
                re_rate = \<lparr>RATE_LIMIT_RPM = rpm, RATE_WINDOW_MS = window, RATE_MAX_KEYS = nat keys\<rparr>,
                re_maxInflight = nat inflight, re_maxBody = nat body\<rparr>
      | _ \<Rightarrow> None)"

text \<open>The request of the key-config fetch: no body, no header of the relay's own.\<close>

definition config_request :: "url \<Rightarrow> gw_request" where
  "config_request u =
     \<lparr>go_hostname = u_hostname u, go_port = url_port u, go_path = u_pathname u, go_method = ''GET'', go_headers = [], go_body = []\<rparr>"

text \<open>A caught crash: the line that is logged before the exit with code 1, of which \<open>code\<close> and \<open>name\<close> are the error's.\<close>

definition relay_crash :: "string \<Rightarrow> jv \<Rightarrow> jv \<Rightarrow> (string \<times> jv) list" where
  "relay_crash event code name =
     relay_safeLogFields \<lparr>rl_route = JUndef, rl_status = JUndef, rl_durationMs = None, rl_reused = JUndef, rl_event = JStr event,
       rl_errorType = name, rl_reason = JUndef, rl_code = code\<rparr>"

definition relay_refusals :: "string list" where
  "relay_refusals = [''gateway_url_invalid'', ''gateway_not_https'', ''connection_string'', ''redemption_capacity_invalid'',
     ''issuer_cache_configuration'']"

lemma start_redemption_sound:
  "case start_redemption connect env of
     Inl msg \<Rightarrow> msg \<in> {''connection_string'', ''redemption_capacity_invalid''}
   | Inr (MemoryStore n) \<Rightarrow> 1 \<le> n \<and> n \<le> max_safe \<and> env_or env ''REDEMPTION_CONNECTION_STRING'' [] = []
   | Inr (TableStore cs tbl) \<Rightarrow> connect cs tbl \<and> cs = env_or env ''REDEMPTION_CONNECTION_STRING'' [] \<and> cs \<noteq> []"
  by (auto simp: start_redemption_def positive_safe_def safe_int_def Let_def split: option.splits)

text \<open>
  C38. A relay that starts talks to the configured gateway over TLS only: the gateway URL parsed and its scheme
  is https, every forwarded request goes to its host, port (443 unless given) and path, and the key config
  is read from the same host over https unless another URL is set; spent tokens are kept in the connected
  table, or in memory within a capacity of at least one; the key cache's time to live is at least a
  millisecond; and a start that is refused is refused for one of five reasons.
\<close>

theorem relay_start_sound:
  "case relay_start parseURL connect env of
     Inl reason \<Rightarrow> reason \<in> set relay_refusals
   | Inr S \<Rightarrow>
       (\<exists>u. parseURL (case env ''GATEWAY_URL'' of None \<Rightarrow> ''undefined'' | Some g \<Rightarrow> g) = Some u \<and> u_protocol u = ''https:''
          \<and> (\<forall>E now remote req s outcome reqd resd es ob. relay_outbound (rs_gateway S) E now remote req s outcome reqd resd es = Some ob \<longrightarrow>
               go_hostname ob = u_hostname u \<and> go_path ob = u_pathname u \<and> go_port ob = (if u_port u = [] then 443 else int (read_dec (u_port u))))
          \<and> (env ''GATEWAY_CONFIGS_URL'' = None \<longrightarrow> rs_configs S = parseURL (''https://'' @ u_host u @ ''/ohttp-configs'')))
       \<and> (case rs_store S of
            MemoryStore n \<Rightarrow> 1 \<le> n \<and> n \<le> max_safe \<and> env_or env ''REDEMPTION_CONNECTION_STRING'' [] = []
          | TableStore cs tbl \<Rightarrow> connect cs tbl \<and> cs = env_or env ''REDEMPTION_CONNECTION_STRING'' [] \<and> cs \<noteq> [])
       \<and> 1 \<le> rs_keysTtl S \<and> rs_keysTtl S \<le> max_safe"
proof (cases "relay_start parseURL connect env")
  case (Inl reason)
  with start_redemption_sound [of env connect] show ?thesis
    unfolding relay_start_def start_gateway_def Let_def relay_refusals_def by (auto split: sum.splits option.splits if_splits)
next
  case (Inr S)
  then obtain u choice where u: "start_gateway parseURL env = Inr u" and c: "start_redemption connect env = Inr choice" "rs_store S = choice"
    and ttl: "positive_safe (Some (rs_keysTtl S))" and gw: "gw_hostname (rs_gateway S) = u_hostname u" "gw_port (rs_gateway S) = url_port u"
      "gw_pathname (rs_gateway S) = u_pathname u" and cfg: "rs_configs S = parseURL (gateway_configs_url u env)"
    unfolding relay_start_def Let_def by (auto split: sum.splits if_splits simp: positive_safe_def split: option.splits)
  have out: "go_hostname ob = u_hostname u \<and> go_path ob = u_pathname u \<and> go_port ob = url_port u"
    if "relay_outbound (rs_gateway S) E now remote req s outcome reqd resd es = Some ob" for E now remote req s outcome reqd resd es ob
    using that gw by (auto simp: relay_outbound_def forwardToGateway_def split: relay_action.splits relay_next.splits body_outcome.splits)
  from u have p: "parseURL (case env ''GATEWAY_URL'' of None \<Rightarrow> ''undefined'' | Some g \<Rightarrow> g) = Some u" "u_protocol u = ''https:''"
    by (auto simp: start_gateway_def split: option.splits if_splits)
  then have "env ''GATEWAY_CONFIGS_URL'' = None \<longrightarrow> rs_configs S = parseURL (''https://'' @ u_host u @ ''/ohttp-configs'')"
    by (simp add: cfg gateway_configs_url_def env_or_def)
  moreover have "case choice of
            MemoryStore n \<Rightarrow> 1 \<le> n \<and> n \<le> max_safe \<and> env_or env ''REDEMPTION_CONNECTION_STRING'' [] = []
          | TableStore cs tbl \<Rightarrow> connect cs tbl \<and> cs = env_or env ''REDEMPTION_CONNECTION_STRING'' [] \<and> cs \<noteq> []"
    using start_redemption_sound [of env connect] c(1) by simp
  ultimately show ?thesis using Inr p out ttl c(2) by (auto simp: positive_safe_def safe_int_def url_port_def)
qed

text \<open>A URL parser that knows one gateway and its key config.\<close>

definition ex_parseURL :: "string \<Rightarrow> url option" where
  "ex_parseURL s =
     (if take 16 s = ''https://gw:8443/'' then
        Some \<lparr>u_protocol = ''https:'', u_hostname = ''gw'', u_host = ''gw:8443'', u_port = ''8443'', u_pathname = drop 15 s\<rparr> else None)"

theorem relay_start_sound_witness:
  "\<exists>S. relay_start ex_parseURL (\<lambda>_ _. False) [''GATEWAY_URL'' \<mapsto> ''https://gw:8443/gateway''] = Inr S
     \<and> rs_configs S = Some \<lparr>u_protocol = ''https:'', u_hostname = ''gw'', u_host = ''gw:8443'', u_port = ''8443'', u_pathname = ''/ohttp-configs''\<rparr>
     \<and> relay_env_of id S = Some (ex_relay_env\<lparr>re_rate := \<lparr>RATE_LIMIT_RPM = 120, RATE_WINDOW_MS = 60000, RATE_MAX_KEYS = 100000\<rparr>, re_maxBody := 65536\<rparr>)
     \<and> 1 \<le> rs_keysTtl S"
proof -
  let ?env = "[''GATEWAY_URL'' \<mapsto> ''https://gw:8443/gateway'']"
  define r where "r = relay_start ex_parseURL (\<lambda>_ _. False) ?env"
  have "map_sum id (\<lambda>S. (rs_rpm S, rs_window S, rs_rateKeys S, rs_maxInflight S, rs_maxBody S, rs_fdid S, rs_trusted S, rs_fdidHeader S)) r
      = Inr (Some 120, Some 60000, Some 100000, Some 256, Some 65536, [], [], ''x-azure-fdid'')" unfolding r_def by code_simp
  then obtain S where S: "r = Inr S" "relay_env_of id S = Some (ex_relay_env\<lparr>re_rate := \<lparr>RATE_LIMIT_RPM = 120, RATE_WINDOW_MS = 60000,
      RATE_MAX_KEYS = 100000\<rparr>, re_maxBody := 65536\<rparr>)"
    by (cases r) (simp_all add: relay_env_of_def ex_relay_env_def)
  note ok = relay_start_sound [where parseURL = ex_parseURL and connect = "\<lambda>_ _. False" and env = ?env, folded r_def, unfolded S(1) sum.case]
  then obtain u where u: "ex_parseURL ''https://gw:8443/gateway'' = Some u"
    "rs_configs S = ex_parseURL (''https://'' @ u_host u @ ''/ohttp-configs'')" "1 \<le> rs_keysTtl S" by auto
  moreover from u(1) have "u_host u = ''gw:8443''" by (auto simp: ex_parseURL_def)
  ultimately show ?thesis using S unfolding r_def by (simp add: ex_parseURL_def)
qed

section \<open>The listen line of the issuer\<close>

text \<open>
  The line the issuer logs once its port is bound (port and epoch length do not pass the log filter); \<open>ready\<close> is
  \<open>APP_ATTEST_READY\<close>.
\<close>

definition issuer_listen :: "bool \<Rightarrow> int \<Rightarrow> environ \<Rightarrow> (string \<times> jv) list" where
  "issuer_listen ready maxTokens env =
     issuer_safeLogFields maxTokens (no_fields\<lparr>lf_event := JStr ''listen'',
       lf_appAttest := JStr (if ready then ''enforced'' else ''stub-fail-closed''),
       lf_signingKey := JStr (if env_or env ''ISSUER_SIGNING_KEY'' [] \<noteq> [] \<or> env ''ISSUER_EPOCH_KEYS_JSON'' \<noteq> None then ''present''
                              else ''missing-fail-closed'')\<rparr>)"

text \<open>Stub mode is not silent: the line names it, and an issuer that logs a missing key signs in no epoch.\<close>

lemma issuer_listen_truthful:
  assumes "issuer_start num b64dec jparse connect random now env = Inr S"
  shows "map_of (issuer_listen ready n env) ''appAttest'' = Some (JStr (if ready then ''enforced'' else ''stub-fail-closed''))"
    and "map_of (issuer_listen ready n env) ''signingKey'' = Some (JStr ''missing-fail-closed'') \<Longrightarrow>
      keysForEpoch N (st_provider S) t later e = Inl EpochKeyUnavailable"
proof -
  show "map_of (issuer_listen ready n env) ''appAttest'' = Some (JStr (if ready then ''enforced'' else ''stub-fail-closed''))"
    by (simp add: issuer_listen_def issuer_safeLogFields_def no_fields_def includes_str_def)
  assume "map_of (issuer_listen ready n env) ''signingKey'' = Some (JStr ''missing-fail-closed'')"
  then have "env_or env ''ISSUER_SIGNING_KEY'' [] = []" "env ''ISSUER_EPOCH_KEYS_JSON'' = None"
    by (simp_all add: issuer_listen_def issuer_safeLogFields_def no_fields_def includes_str_def split: if_splits)
  with issuer_started(6) [OF assms] have "st_provider S = Legacy []"
    by (simp add: start_provider_def createEpochKeyProvider_def split: option.splits)
  then show "keysForEpoch N (st_provider S) t later e = Inl EpochKeyUnavailable"
    by (simp add: keysForEpoch_def importKey_def parsePrivateKeyEnv_def js_trim_def)
qed

section \<open>The commons service\<close>

text \<open>\<open>s.replace(/\/+$/, '')\<close>\<close>

definition strip_slashes :: "string \<Rightarrow> string" where
  "strip_slashes s = rev (dropWhile (\<lambda>c. c = CHR ''/'') (rev s))"

record commons_settings =
  cs_port :: "int option"
  cs_ttl :: "int option"
  cs_swr :: "int option"
  cs_base :: string
  cs_template :: string
  cs_commentsTemplate :: string
  cs_ua :: string
  cs_maxEntries :: "int option"
  cs_maxBody :: "int option"
  cs_imgurBase :: string
  cs_imgurClientId :: string
  cs_forwardAuth :: bool
  cs_fdid :: string
  cs_fdidHeader :: string

text \<open>The constants of \<^verbatim>\<open>commons-cache/server.js\<close>.\<close>

definition commons_settings_of :: "environ \<Rightarrow> commons_settings" where
  "commons_settings_of env =
     \<lparr>cs_port = env_int env ''PORT'' ''8080'', cs_ttl = env_int env ''COMMONS_TTL_MS'' ''60000'', cs_swr = env_int env ''COMMONS_SWR_MS'' ''300000'',
      cs_base = strip_slashes (env_or env ''UPSTREAM_BASE'' ''https://example.com''),
      cs_template = env_or env ''UPSTREAM_PATH_TEMPLATE'' ''/{id}/{sort}.rss'',
      cs_commentsTemplate = env_or env ''COMMENTS_PATH_TEMPLATE'' ''/comments/{id}?sort={sort}&raw_json=1'',
      cs_ua = env_or env ''UPSTREAM_UA'' ''columbia-commons/1.0 (+https://example.com)'',
      cs_maxEntries = env_int env ''COMMONS_MAX_ENTRIES'' ''5000'', cs_maxBody = env_int env ''COMMONS_MAX_BODY_BYTES'' ''5000000'',
      cs_imgurBase = strip_slashes (env_or env ''IMGUR_BASE'' ''https://api.imgur.com''),
      cs_imgurClientId = env_or env ''IMGUR_CLIENT_ID'' ''546c25a59c58ad7'',
      cs_forwardAuth = (js_lower (env_or env ''FORWARD_UPSTREAM_AUTH'' []) \<in> {''1'', ''true'', ''yes'', ''on''}),
      cs_fdid = env_or env ''REQUIRE_FDID'' [], cs_fdidHeader = js_lower (env_or env ''FDID_HEADER'' ''x-azure-fdid'')\<rparr>"

text \<open>Run as the entry point, the service validates its upstream before it listens; \<open>Inl\<close> is the logged reason.\<close>

definition commons_start :: "(string \<Rightarrow> url option) \<Rightarrow> environ \<Rightarrow> string + commons_settings" where
  "commons_start parseURL env =
     (let S = commons_settings_of env in
      if validateUpstreamBase (map_option (\<lambda>u. (u_protocol u, u_hostname u)) (parseURL (cs_base S))) then Inr S
      else Inl ''upstream_base_invalid'')"

text \<open>The fetch environment, where the body limit is a number.\<close>

definition commons_env_of :: "(string \<Rightarrow> string \<Rightarrow> (string \<times> string) option) \<Rightarrow> (string \<Rightarrow> string) \<Rightarrow> commons_settings \<Rightarrow> commons_env option" where
  "commons_env_of resolve origin S =
     map_option (\<lambda>n. \<lparr>ce_base = cs_base S, ce_ua = cs_ua S, ce_maxBody = nat n, ce_forwardAuth = cs_forwardAuth S, ce_resolve = resolve,
                      ce_origin = origin\<rparr>) (cs_maxBody S)"

lemma private_172_range:
  assumes "\<not> private_172 host" "16 \<le> n" "n \<le> 31"
  shows "take 7 host \<noteq> ''172.'' @ js_nat_string n @ ''.''"
proof
  assume eq: "take 7 host = ''172.'' @ js_nat_string n @ ''.''"
  have "list_all (\<lambda>n. private_172 (''172.'' @ js_nat_string n @ ''.'')) [16..<32]" by code_simp
  then have "\<forall>n \<in> {16..<32}. private_172 (''172.'' @ js_nat_string n @ ''.'')" by (simp only: list_all_iff set_upt)
  from bspec [OF this, of n] assms(2,3) have "private_172 (take 7 host)" unfolding eq by simp
  then have "private_172 host" by (simp add: private_172_def drop_take)
  with assms(1) show False by simp
qed

lemma strip_slashes_last: "strip_slashes s \<noteq> [] \<Longrightarrow> last (strip_slashes s) \<noteq> CHR ''/''"
  using hd_dropWhile [of "\<lambda>c. c = CHR ''/''" "rev s"] by (simp add: strip_slashes_def last_rev)

lemma upstreamUrl_base: "\<exists>p. upstreamUrl E template feed view = ce_base E @ CHR ''/'' # p"
proof -
  define path where "path = replace_all ''{sort}'' (encodeURIComponent view) (replace_all ''{id}'' (encodeURIComponent feed) template)"
  have "\<exists>p. (if take 1 path = ''/'' then [] else ''/'') @ path = CHR ''/'' # p" by (cases path) auto
  then show ?thesis by (auto simp: upstreamUrl_def path_def [symmetric] Let_def)
qed

text \<open>The addresses \<open>validateUpstreamBase\<close> means to keep out, as host names.\<close>

definition listed_private :: "string \<Rightarrow> bool" where
  "listed_private host \<longleftrightarrow>
     host \<in> {''localhost'', ''::1''} \<or> take 4 host = ''127.'' \<or> take 3 host = ''10.'' \<or> take 8 host = ''192.168.'' \<or> take 8 host = ''169.254.''
     \<or> (\<exists>n \<in> {16..31}. take 7 host = ''172.'' @ js_nat_string n @ ''.'')"

text \<open>
  A commons service that starts fetches feeds from one public https origin: its upstream base parsed, its scheme
  is https and its host, in lower case, is none of the listed private names and address ranges; the base
  has no trailing slash, and whatever the path template and the caller's input are, every feed URL is the
  base, a slash and a path; credentials are passed on only if that was switched on; otherwise the service
  exits.
\<close>

theorem commons_start_sound:
  "case commons_start parseURL env of
     Inl reason \<Rightarrow> reason = ''upstream_base_invalid''
   | Inr S \<Rightarrow>
       (\<exists>u. parseURL (cs_base S) = Some u \<and> u_protocol u = ''https:'' \<and> \<not> listed_private (js_lower (u_hostname u)))
       \<and> (cs_base S = [] \<or> last (cs_base S) \<noteq> CHR ''/'')
       \<and> (\<forall>resolve origin E template feed view. commons_env_of resolve origin S = Some E \<longrightarrow>
            (\<exists>p. upstreamUrl E template feed view = cs_base S @ CHR ''/'' # p)
            \<and> (env ''FORWARD_UPSTREAM_AUTH'' = None \<longrightarrow> map fst (upstreamHeaders E auth) = [''User-Agent'', ''Accept'', ''Accept-Language'']))"
proof (cases "commons_start parseURL env")
  case (Inr S)
  then have S: "S = commons_settings_of env"
    and v: "validateUpstreamBase (map_option (\<lambda>u. (u_protocol u, u_hostname u)) (parseURL (cs_base S)))"
    by (simp_all add: commons_start_def Let_def split: if_splits)
  from v obtain u where u: "parseURL (cs_base S) = Some u" "u_protocol u = ''https:''" "\<not> listed_private (js_lower (u_hostname u))"
    using private_172_range by (cases "parseURL (cs_base S)") (auto simp: validateUpstreamBase_def listed_private_def Let_def)
  have "cs_base S = [] \<or> last (cs_base S) \<noteq> CHR ''/''"
    using strip_slashes_last by (auto simp: S commons_settings_of_def)
  moreover have "(\<exists>p. upstreamUrl E template feed view = cs_base S @ CHR ''/'' # p)
      \<and> (env ''FORWARD_UPSTREAM_AUTH'' = None \<longrightarrow> map fst (upstreamHeaders E auth) = [''User-Agent'', ''Accept'', ''Accept-Language''])"
    if "commons_env_of resolve origin S = Some E" for resolve origin E template feed view
  proof -
    from that have E: "ce_base E = cs_base S" "ce_forwardAuth E = cs_forwardAuth S" by (auto simp: commons_env_of_def)
    have "env ''FORWARD_UPSTREAM_AUTH'' = None \<Longrightarrow> \<not> cs_forwardAuth S" by (simp add: S commons_settings_of_def env_or_def js_lower_def)
    with upstreamUrl_base [of E] show ?thesis by (auto simp: E upstreamHeaders_def split: option.splits)
  qed
  ultimately show ?thesis using Inr u by auto
qed (simp add: commons_start_def Let_def split: if_splits)

theorem commons_start_sound_witness:
  "\<exists>S E p. commons_start ex_parseURL [''UPSTREAM_BASE'' \<mapsto> ''https://gw:8443/feeds//''] = Inr S
     \<and> commons_env_of (\<lambda>_ _. None) id S = Some E
     \<and> upstreamUrl E (cs_template S) ''news'' ''hot'' = ''https://gw:8443/feeds'' @ CHR ''/'' # p"
proof -
  let ?env = "[''UPSTREAM_BASE'' \<mapsto> ''https://gw:8443/feeds//'']"
  define r where "r = commons_start ex_parseURL ?env"
  have "map_sum id (\<lambda>S. (cs_base S, cs_maxBody S)) r = Inr (''https://gw:8443/feeds'', Some 5000000)" unfolding r_def by code_simp
  then obtain S where S: "r = Inr S" "cs_base S = ''https://gw:8443/feeds''" "cs_maxBody S = Some 5000000" by (cases r) auto
  from S(3) obtain E where E: "commons_env_of (\<lambda>_ _. None) id S = Some E" by (simp add: commons_env_of_def)
  from commons_start_sound [where parseURL = ex_parseURL and env = ?env, folded r_def, unfolded S(1) sum.case] E S(2)
  obtain p where "upstreamUrl E (cs_template S) ''news'' ''hot'' = ''https://gw:8443/feeds'' @ CHR ''/'' # p" by metis
  with S(1) E show ?thesis unfolding r_def by blast
qed

text \<open>A crash line carries no text of the error beyond the fixed vocabulary.\<close>

lemma relay_crash_closed: "snd ` set (relay_crash event code name) \<subseteq> range JInt \<union> range JBool \<union> JStr ` set relay_log_words"
  unfolding relay_crash_def by (rule relay_log.closed)

end
