(* ===== verification/RelayHandler.thy ===== *)
theory RelayHandler
  imports RelayProxy
begin

text \<open>
  One exchange of the relay (\<^verbatim>\<open>ohttp-relay/server.js\<close>) from the client's side: what the request handler
  writes, logs and forwards, with every header and every log line of its branches. Shown: what the relay
  itself answers is constant, is logged with the status that was sent, and excludes a forwarded request.
\<close>

section \<open>Replies and lines\<close>

definition plain :: "int \<Rightarrow> reply" where
  "plain status = (status, [], [])"

definition retry_later :: reply where
  "retry_later = (503, [(''Retry-After'', ''2'')], [])"

definition health_ok :: reply where
  "health_ok = (200, [(''Content-Type'', ''text/plain'')], utf8_bytes ''ok'')"

definition relay_line :: "string \<Rightarrow> int \<Rightarrow> string option \<Rightarrow> int \<Rightarrow> (string \<times> jv) list" where
  "relay_line route status reason duration =
     relay_safeLogFields \<lparr>rl_route = JStr route, rl_status = JInt status, rl_durationMs = Some duration, rl_reused = JUndef, rl_event = JUndef,
       rl_errorType = JUndef, rl_reason = (case reason of None \<Rightarrow> JUndef | Some r \<Rightarrow> JStr r), rl_code = JUndef\<rparr>"

section \<open>The handler\<close>

text \<open>
  The guards with what each writes and logs; \<open>None\<close> where the request goes on to the key config or to
  authorisation. \<open>ms\<close> is the duration at the time of the line.
\<close>

definition relay_refuse :: "relay_env \<Rightarrow> bool \<Rightarrow> int \<Rightarrow> int \<Rightarrow> string option \<Rightarrow> request \<Rightarrow> relay \<Rightarrow> (reply \<times> (string \<times> jv) list list) option" where
  "relay_refuse E logHealth now ms remote req s =
     (if dr_draining (ry_drain s) then Some (retry_later, [])
      else if re_fdid E \<noteq> [] \<and> \<not> relay_fdidExempt req (url_path (req_url req))
              \<and> \<not> relay_frontDoorAllowed (re_sha256 E) (re_fdid E) (re_fdidHeader E) req
        then Some (plain 403, [relay_line (url_path (req_url req)) 403 (Some ''origin'') ms])
      else if req_method req = ''GET'' \<and> req_url req = ''/health''
        then Some (health_ok, if logHealth then [relay_line ''/health'' 200 None ms] else [])
      else if req_method req = ''GET'' \<and> req_url req = ''/ohttp-configs'' then None
      else if \<not> (req_method req = ''POST'' \<and> req_url req = ''/relay'') then Some (plain 404, [])
      else if media_type (req_headers req ''content-type'') \<noteq> ''message/ohttp-req''
        then Some (plain 415, [relay_line ''/relay'' 415 (Some ''content_type'') ms])
      else
        let ip = clientIpKey (re_trusted E) remote req;
            clientRequests = (case jm_get (ry_clients s) ip of None \<Rightarrow> 0 | Some n \<Rightarrow> n) in
        if fst (rateLimited (re_rate E) now ip (ry_buckets s)) then Some (plain 429, [relay_line ''/relay'' 429 (Some ''rate_limit'') ms])
        else if dr_work (ry_drain s) \<ge> re_maxInflight E \<or> clientRequests \<ge> MAX_CLIENT_INFLIGHT E
          then Some (plain 429, [relay_line ''/relay'' 429 (Some ''capacity'') ms])
        else None)"

text \<open>Authorisation and the body: a reply unless the response is destroyed, a line, or the request that is forwarded.\<close>

definition relay_authorised :: "gateway \<Rightarrow> relay_env \<Rightarrow> int \<Rightarrow> redemption_error + bool \<Rightarrow> bool \<Rightarrow> bool \<Rightarrow> body_event list
    \<Rightarrow> reply option \<times> (string \<times> jv) list list \<times> gw_request option" where
  "relay_authorised G E ms outcome reqd resd es =
     (case outcome of
        Inl _ \<Rightarrow> (if resd then None else Some retry_later, [relay_line ''/relay'' 503 (Some ''state_unavailable'') ms], None)
      | Inr False \<Rightarrow> (if resd then None else Some (plain 401), [relay_line ''/relay'' 401 (Some ''client_auth'') ms], None)
      | Inr True \<Rightarrow>
          if reqd \<or> resd then (None, [], None)
          else (case relay_body (re_maxBody E) es of
            BTooLarge \<Rightarrow> (Some (plain 413), [relay_line ''/relay'' 413 (Some ''request_too_large'') ms], None)
          | BDisconnected \<Rightarrow> (None, [relay_line ''/relay'' 499 (Some ''client_disconnect'') ms], None)
          | BForward body \<Rightarrow> (None, [], Some (forwardToGateway G body))
          | BOpen n chunks \<Rightarrow> (None, [], None)))"

definition relay_exchange :: "gateway \<Rightarrow> relay_env \<Rightarrow> bool \<Rightarrow> int \<Rightarrow> int \<Rightarrow> string option \<Rightarrow> request \<Rightarrow> relay
    \<Rightarrow> redemption_error + bool \<Rightarrow> bool \<Rightarrow> bool \<Rightarrow> body_event list \<Rightarrow> reply option \<times> (string \<times> jv) list list \<times> gw_request option" where
  "relay_exchange G E logHealth now ms remote req s outcome reqd resd es =
     (case relay_refuse E logHealth now ms remote req s of
        Some (r, ls) \<Rightarrow> (Some r, ls, None)
      | None \<Rightarrow>
          (case fst (relay_enter E now remote req s) of
             RSlot i \<Rightarrow> relay_authorised G E ms outcome reqd resd es
           | _ \<Rightarrow> (None, [], None)))"

section \<open>Properties\<close>

definition relay_replies :: "reply set" where
  "relay_replies = {retry_later, health_ok} \<union> plain ` {401, 403, 404, 413, 415, 429}"

text \<open>The branches with their replies agree with the state machine of the handler.\<close>

lemma relay_refuse_enter:
  "map_option (fst \<circ> fst) (relay_refuse E lh now ms remote req s) =
     (case fst (relay_enter E now remote req s) of RRespond st \<Rightarrow> Some st | _ \<Rightarrow> None)"
  by (simp add: relay_refuse_def relay_enter_def relay_admit_def Let_def plain_def retry_later_def health_ok_def split: prod.split)

lemma line_status [simp]: "100 \<le> st \<Longrightarrow> st \<le> 599 \<Longrightarrow> map_of (relay_line route st reason d) ''status'' = Some (JInt st)"
  by (simp add: relay_line_def relay_safeLogFields_def)

lemma line_filtered [simp]: "relay_line route st reason d \<in> range relay_safeLogFields"
  by (simp add: relay_line_def)

lemma relay_refuse_reply:
  assumes "relay_refuse E lh now ms remote req s = Some (r, ls)"
  shows "r \<in> relay_replies" and "list_all (\<lambda>l. map_of l ''status'' = Some (JInt (fst r))) ls"
    and "length ls \<le> 1" and "set ls \<subseteq> range relay_safeLogFields"
    and "ls = [] \<longrightarrow> r = retry_later \<and> dr_draining (ry_drain s) \<or> r = plain 404 \<or> r = health_ok \<and> \<not> lh"
  using assms unfolding relay_refuse_def relay_replies_def Let_def
  by (auto simp: plain_def retry_later_def health_ok_def split: if_splits)

lemma relay_authorised_reply:
  assumes "relay_authorised G E ms outcome reqd resd es = (r, ls, f)"
  shows "set_option r \<subseteq> relay_replies" and "length ls \<le> 1" and "set ls \<subseteq> range relay_safeLogFields"
    and "r = Some q \<longrightarrow> ls \<noteq> [] \<and> list_all (\<lambda>l. map_of l ''status'' = Some (JInt (fst q))) ls"
    and "f \<noteq> None \<longrightarrow> r = None \<and> ls = []"
  using assms unfolding relay_authorised_def relay_replies_def
  by (auto simp: plain_def retry_later_def split: sum.splits bool.splits if_splits body_outcome.splits)

text \<open>
  What the relay itself says to a client is constant: in every exchange at most one reply is written by the
  handler and it is one of eight fixed ones, so it reflects neither the request nor the gateway; at most one
  line is logged for it, with the status that was sent, and no line is missing except for a health probe, an
  unknown route or a draining relay; a request is forwarded exactly when the state machine forwards it, and
  then the handler has written and logged nothing of its own.
\<close>

theorem relay_exchange_fixed:
  assumes "relay_exchange G E lh now ms remote req s outcome reqd resd es = (r, ls, f)"
  shows "set_option r \<subseteq> relay_replies \<and> length ls \<le> 1 \<and> set ls \<subseteq> range relay_safeLogFields
    \<and> f = relay_outbound G E now remote req s outcome reqd resd es
    \<and> (f \<noteq> None \<longrightarrow> r = None \<and> ls = [])
    \<and> (r = Some q \<longrightarrow> list_all (\<lambda>l. map_of l ''status'' = Some (JInt (fst q))) ls)
    \<and> (r = Some q \<and> ls = [] \<longrightarrow> q = retry_later \<and> dr_draining (ry_drain s) \<or> q = plain 404 \<or> q = health_ok \<and> \<not> lh)"
proof (cases "relay_refuse E lh now ms remote req s")
  case (Some p)
  obtain p1 p2 where p: "p = (p1, p2)" by (cases p)
  with Some assms have e: "r = Some p1" "ls = p2" "f = None" by (simp_all add: relay_exchange_def)
  have "relay_outbound G E now remote req s outcome reqd resd es = None"
    using relay_refuse_enter [of E lh now ms remote req s] Some by (auto simp: relay_outbound_def split: relay_action.splits)
  with relay_refuse_reply [OF Some [unfolded p]] e show ?thesis by auto
next
  case None
  show ?thesis
  proof (cases "fst (relay_enter E now remote req s)")
    case (RSlot i)
    with None assms have a: "relay_authorised G E ms outcome reqd resd es = (r, ls, f)" by (simp add: relay_exchange_def)
    moreover have "f = relay_outbound G E now remote req s outcome reqd resd es"
      using a RSlot by (auto simp: relay_authorised_def relay_outbound_def relay_after_auth_def
          split: sum.splits bool.splits if_splits body_outcome.splits)
    ultimately show ?thesis using relay_authorised_reply(1-3,5) [OF a] relay_authorised_reply(4) [OF a, of q] by auto
  qed (use None assms in \<open>auto simp: relay_exchange_def relay_outbound_def\<close>)
qed

theorem relay_exchange_fixed_witness:
  "relay_exchange \<lparr>gw_hostname = ''g'', gw_port = 443, gw_pathname = ''/gateway'', gw_secret = []\<rparr> ex_relay_env False 5 3 None ex_relay_req
     relay_init (Inr False) False False [] = (Some (plain 401), [relay_line ''/relay'' 401 (Some ''client_auth'') 3], None)
   \<and> plain 401 \<in> relay_replies"
proof -
  let ?G = "\<lparr>gw_hostname = ''g'', gw_port = 443, gw_pathname = ''/gateway'', gw_secret = []\<rparr>"
  have "relay_exchange ?G ex_relay_env False 5 3 None ex_relay_req relay_init (Inr False) False False []
      = (Some (plain 401), [relay_line ''/relay'' 401 (Some ''client_auth'') 3], None)" by code_simp
  with relay_exchange_fixed [OF this, of "plain 401"] show ?thesis by simp
qed

end
