(* ===== verification/RelayService.thy ===== *)
theory RelayService
  imports RelayHandler
begin

text \<open>
  The relay's requests composed (\<^verbatim>\<open>ohttp-relay/server.js\<close>): admission, authorisation against the redemption
  store, the body, the hop to the gateway and the release of the slot, for any number of concurrent
  requests, interleaved at every \<open>await\<close> and event. Shown in token mode, for every redemption store that
  keeps its contract: each request the gateway sees was paid for by a token of its own, and each client
  request is answered at most once.
\<close>

section \<open>Requests under way\<close>

text \<open>
  Where a request with a slot stands: \<open>await clientAuthorized(req)\<close>, its settled outcome before the handler
  resumes, the body's listeners, the flight to the gateway, or finished.
\<close>

datatype relay_phase =
    WAuth request
  | WDecided "redemption_error + bool"
  | WBody body_outcome
  | WFlight flight
  | WDone

record ('k, 's) relay_world =
  rw_gateway :: gateway
  rw_env :: relay_env
  rw_maxResp :: nat
  rw_auth :: auth_config
  rw_token :: "'k token_env"
  rw_redeem :: "'s \<Rightarrow> string \<Rightarrow> string \<Rightarrow> (redemption_error + bool) \<times> 's"

text \<open>
  The relay's variables, the redemption store and the phase of every slot; what was sent to the gateway and
  answered to clients, by slot. \<open>rz_paid\<close> is a history: the key fingerprint and nullifier admitted for a slot.
\<close>

record 's relay_service =
  rz_relay :: relay
  rz_store :: 's
  rz_phases :: "relay_phase list"
  rz_forwarded :: "(nat \<times> gw_request) list"
  rz_answers :: "(nat \<times> reply) list"
  rz_paid :: "(nat \<times> string \<times> string) list"

definition rz_init :: "'s \<Rightarrow> 's relay_service" where
  "rz_init s = \<lparr>rz_relay = relay_init, rz_store = s, rz_phases = [], rz_forwarded = [], rz_answers = [], rz_paid = []\<rparr>"

text \<open>The pair that a token names under the keys of the moment.\<close>

definition token_pair :: "'k token_env \<Rightarrow> (string \<Rightarrow> redemption_error + 'k cached_key option) \<Rightarrow> string option \<Rightarrow> (string \<times> string) option" where
  "token_pair V key_of presented =
     (case parse_token V presented of
        Some (keyId, tokenInput, signature) \<Rightarrow>
          (case key_of keyId of
             Inr (Some entry) \<Rightarrow> Some (ck_fingerprint entry, nullifierFor V (tv_b64dec V signature))
           | _ \<Rightarrow> None)
      | None \<Rightarrow> None)"

section \<open>The steps\<close>

text \<open>A request arrives. One that is refused or served at once holds no slot.\<close>

definition rz_enter :: "('k, 's) relay_world \<Rightarrow> int \<Rightarrow> string option \<Rightarrow> request \<Rightarrow> 's relay_service \<Rightarrow> 's relay_service" where
  "rz_enter W now remote req z =
     (case relay_enter (rw_env W) now remote req (rz_relay z) of
        (RSlot i, s) \<Rightarrow> z\<lparr>rz_relay := s, rz_phases := rz_phases z @ [WAuth req]\<rparr>
      | (_, s) \<Rightarrow> z\<lparr>rz_relay := s\<rparr>)"

text \<open>The authorisation of slot \<open>i\<close> is decided; \<open>key_of\<close> is what the key cache answers.\<close>

definition rz_decide :: "('k, 's) relay_world \<Rightarrow> nat \<Rightarrow> (string \<Rightarrow> redemption_error + 'k cached_key option) \<Rightarrow> 's relay_service \<Rightarrow> 's relay_service" where
  "rz_decide W i key_of z =
     (case rz_phases z ! i of
        WAuth req \<Rightarrow>
          (case clientAuthorized (rw_auth W) (rw_token W) key_of (rw_redeem W) req (rz_store z) of
             (outcome, st) \<Rightarrow>
               z\<lparr>rz_store := st, rz_phases := (rz_phases z)[i := WDecided outcome],
                 rz_paid := (case token_pair (rw_token W) key_of (req_headers req (CLIENT_AUTH_HEADER (rw_auth W))) of
                     Some p \<Rightarrow> if outcome = Inr True then (i, p) # rz_paid z else rz_paid z
                   | None \<Rightarrow> rz_paid z)\<rparr>)
      | _ \<Rightarrow> z)"

text \<open>The handler resumes after the \<open>await\<close>.\<close>

definition rz_resume :: "nat \<Rightarrow> bool \<Rightarrow> bool \<Rightarrow> 's relay_service \<Rightarrow> 's relay_service" where
  "rz_resume i reqd resd z =
     (case rz_phases z ! i of
        WDecided outcome \<Rightarrow>
          (let z' = z\<lparr>rz_relay := relay_auth_done i (reqd \<or> resd) (rz_relay z)\<rparr> in
           case relay_after_auth outcome reqd resd of
             NReadBody \<Rightarrow> z'\<lparr>rz_phases := (rz_phases z)[i := WBody (BOpen 0 [])]\<rparr>
           | NRespond st \<Rightarrow> z'\<lparr>rz_phases := (rz_phases z)[i := WDone],
                rz_answers := (i, if st = 503 then retry_later else plain st) # rz_answers z\<rparr>
           | NGone \<Rightarrow> z'\<lparr>rz_phases := (rz_phases z)[i := WDone]\<rparr>)
      | _ \<Rightarrow> z)"

text \<open>An event of the request stream; the end of the body is dropped when the response is destroyed.\<close>

definition rz_body :: "('k, 's) relay_world \<Rightarrow> nat \<Rightarrow> body_event \<Rightarrow> bool \<Rightarrow> 's relay_service \<Rightarrow> 's relay_service" where
  "rz_body W i e resd z =
     (case rz_phases z ! i of
        WBody b \<Rightarrow>
          (case body_step (re_maxBody (rw_env W)) b e of
             BOpen n cs \<Rightarrow> z\<lparr>rz_phases := (rz_phases z)[i := WBody (BOpen n cs)]\<rparr>
           | BTooLarge \<Rightarrow> z\<lparr>rz_relay := releaseSlot i (rz_relay z), rz_phases := (rz_phases z)[i := WDone],
                rz_answers := (i, plain 413) # rz_answers z\<rparr>
           | BDisconnected \<Rightarrow> z\<lparr>rz_relay := releaseSlot i (rz_relay z), rz_phases := (rz_phases z)[i := WDone]\<rparr>
           | BForward body \<Rightarrow>
               if resd then z\<lparr>rz_phases := (rz_phases z)[i := WDone]\<rparr>
               else z\<lparr>rz_phases := (rz_phases z)[i := WFlight (snd (fl_add (\<lambda>_. False) i flight_new))],
                      rz_forwarded := (i, forwardToGateway (rw_gateway W) body) # rz_forwarded z\<rparr>)
      | _ \<Rightarrow> z)"

text \<open>A flight moves on; its completion is the answer, unless the response is gone.\<close>

definition rz_flight :: "nat \<Rightarrow> flight \<Rightarrow> 's relay_service \<Rightarrow> 's relay_service" where
  "rz_flight i f z =
     (if fl_completed f then z\<lparr>rz_phases := (rz_phases z)[i := WDone], rz_answers := fl_sent f @ rz_answers z\<rparr>
      else z\<lparr>rz_phases := (rz_phases z)[i := WFlight f]\<rparr>)"

definition rz_gateway :: "('k, 's) relay_world \<Rightarrow> nat \<Rightarrow> gw_event \<Rightarrow> bool \<Rightarrow> 's relay_service \<Rightarrow> 's relay_service" where
  "rz_gateway W i e resd z =
     (case rz_phases z ! i of
        WFlight f \<Rightarrow> rz_flight i (fl_event (rw_maxResp W) relay_hdrs (\<lambda>_. resd) e f) z
      | _ \<Rightarrow> z)"

text \<open>The response of slot \<open>i\<close> emits \<open>finish\<close> or \<open>close\<close>: the flight's listener runs first, then the slot's.\<close>

definition rz_close :: "nat \<Rightarrow> 's relay_service \<Rightarrow> 's relay_service" where
  "rz_close i z =
     (let z' = (case rz_phases z ! i of WFlight f \<Rightarrow> rz_flight i (fl_closed (\<lambda>_. True) i f) z | _ \<Rightarrow> z)
      in z'\<lparr>rz_relay := releaseSlot i (rz_relay z')\<rparr>)"

text \<open>
  The events of the process. Signals and the drain's callbacks are those of \<open>beginShutdown\<close>; an event of a slot
  concerns one that exists, and nothing happens after the process has exited.
\<close>

datatype 'k relay_event =
    Enter int "string option" request
  | Decide nat "string \<Rightarrow> redemption_error + 'k cached_key option"
  | Resume nat bool bool
  | Body nat body_event bool
  | Gateway nat gw_event bool
  | Close nat
  | Signal
  | Closed
  | Timeout

fun event_slot :: "'k relay_event \<Rightarrow> nat option" where
  "event_slot (Decide i key_of) = Some i"
| "event_slot (Resume i reqd resd) = Some i"
| "event_slot (Body i e resd) = Some i"
| "event_slot (Gateway i e resd) = Some i"
| "event_slot (Close i) = Some i"
| "event_slot _ = None"

definition rz_drain :: "(drain \<Rightarrow> drain) \<Rightarrow> 's relay_service \<Rightarrow> 's relay_service" where
  "rz_drain f z = z\<lparr>rz_relay := (rz_relay z)\<lparr>ry_drain := f (ry_drain (rz_relay z))\<rparr>\<rparr>"

fun rz_handle :: "('k, 's) relay_world \<Rightarrow> 'k relay_event \<Rightarrow> 's relay_service \<Rightarrow> 's relay_service" where
  "rz_handle W (Enter now remote req) z = rz_enter W now remote req z"
| "rz_handle W (Decide i key_of) z = rz_decide W i key_of z"
| "rz_handle W (Resume i reqd resd) z = rz_resume i reqd resd z"
| "rz_handle W (Body i e resd) z = rz_body W i e resd z"
| "rz_handle W (Gateway i e resd) z = rz_gateway W i e resd z"
| "rz_handle W (Close i) z = rz_close i z"
| "rz_handle W Signal z = rz_drain beginShutdown z"
| "rz_handle W Closed z = (if dr_draining (ry_drain (rz_relay z)) then rz_drain drain_closed z else z)"
| "rz_handle W Timeout z = (if dr_draining (ry_drain (rz_relay z)) then rz_drain drain_timeout z else z)"

definition rz_next :: "('k, 's) relay_world \<Rightarrow> 'k relay_event \<Rightarrow> 's relay_service \<Rightarrow> 's relay_service" where
  "rz_next W ev z =
     (if dr_exit (ry_drain (rz_relay z)) \<noteq> None \<or> (\<exists>i \<in> set_option (event_slot ev). length (rz_phases z) \<le> i) then z
      else rz_handle W ev z)"

inductive rz_reachable :: "('k, 's) relay_world \<Rightarrow> 's \<Rightarrow> 's relay_service \<Rightarrow> bool" for W s where
  init: "rz_reachable W s (rz_init s)"
| step: "rz_reachable W s z \<Longrightarrow> rz_reachable W s (rz_next W ev z)"

definition rz_run :: "('k, 's) relay_world \<Rightarrow> 'k relay_event list \<Rightarrow> 's \<Rightarrow> 's relay_service" where
  "rz_run W evs s = fold (rz_next W) evs (rz_init s)"

lemma rz_run_reachable: "rz_reachable W s (rz_run W evs s)"
proof -
  have "rz_reachable W s z \<Longrightarrow> rz_reachable W s (fold (rz_next W) evs z)" for z
    by (induction evs arbitrary: z) (auto intro: rz_reachable.step)
  then show ?thesis by (simp add: rz_run_def rz_reachable.init)
qed

section \<open>Invariant\<close>

text \<open>Slot \<open>j\<close> in a phase, with its pending flag and whether it has paid, was forwarded and was answered.\<close>

fun phase_ok :: "nat \<Rightarrow> nat \<Rightarrow> bool \<Rightarrow> bool \<Rightarrow> bool \<Rightarrow> bool \<Rightarrow> relay_phase \<Rightarrow> bool" where
  "phase_ok M j pend paid fwd ans (WAuth req) \<longleftrightarrow> pend \<and> \<not> paid \<and> \<not> fwd \<and> \<not> ans"
| "phase_ok M j pend paid fwd ans (WDecided outcome) \<longleftrightarrow> pend \<and> (outcome = Inr True \<longrightarrow> paid) \<and> \<not> fwd \<and> \<not> ans"
| "phase_ok M j pend paid fwd ans (WBody b) \<longleftrightarrow> paid \<and> \<not> fwd \<and> \<not> ans"
| "phase_ok M j pend paid fwd ans (WFlight f) \<longleftrightarrow> fwd \<and> \<not> ans \<and> fl_reachable M relay_hdrs {j} f"
| "phase_ok M j pend paid fwd ans WDone \<longleftrightarrow> True"

abbreviation slots_with :: "(nat \<times> 'a) list \<Rightarrow> nat set" where
  "slots_with xs \<equiv> fst ` set xs"

definition phases_inv :: "nat \<Rightarrow> 's relay_service \<Rightarrow> bool" where
  "phases_inv M z \<longleftrightarrow>
     (\<forall>j < length (rz_phases z). phase_ok M j (sl_authPending (ry_slots (rz_relay z) ! j)) (j \<in> slots_with (rz_paid z))
        (j \<in> slots_with (rz_forwarded z)) (j \<in> slots_with (rz_answers z)) (rz_phases z ! j))"

definition lists_inv :: "('s \<Rightarrow> (string \<times> string) set) \<Rightarrow> 's relay_service \<Rightarrow> bool" where
  "lists_inv spent z \<longleftrightarrow>
     distinct (map fst (rz_forwarded z)) \<and> distinct (map fst (rz_answers z)) \<and> distinct (map fst (rz_paid z)) \<and> distinct (map snd (rz_paid z))
     \<and> slots_with (rz_forwarded z) \<subseteq> slots_with (rz_paid z) \<and> snd ` set (rz_paid z) \<subseteq> spent (rz_store z)
     \<and> slots_with (rz_paid z) \<union> slots_with (rz_answers z) \<subseteq> {..<length (rz_phases z)}"

definition rz_inv :: "('k, 's) relay_world \<Rightarrow> ('s \<Rightarrow> (string \<times> string) set) \<Rightarrow> 's relay_service \<Rightarrow> bool" where
  "rz_inv W spent z \<longleftrightarrow>
     relay_reachable (rw_env W) (rz_relay z) \<and> length (rz_phases z) = length (ry_slots (rz_relay z))
     \<and> phases_inv (rw_maxResp W) z \<and> lists_inv spent z"

section \<open>The slots\<close>

lemma relay_enter_slots:
  assumes "relay_enter E now remote req s = (a, s')"
  shows "(\<exists>i sl. a = RSlot i \<and> ry_slots s' = ry_slots s @ [sl] \<and> sl_authPending sl) \<or> (\<forall>i. a \<noteq> RSlot i) \<and> ry_slots s' = ry_slots s"
  using assms by (auto simp: relay_enter_def relay_admit_def relay_acquire_def Let_def split: if_splits prod.splits)

lemma releaseSlot_slots [simp]:
  "length (ry_slots (releaseSlot i s)) = length (ry_slots s)"
  "sl_authPending (ry_slots (releaseSlot i s) ! j) = sl_authPending (ry_slots s ! j)"
  by (simp add: releaseSlot_def Let_def)
    (cases "i < length (ry_slots s)"; cases "j = i"; simp add: releaseSlot_def Let_def list_update_beyond not_less)

lemma relay_auth_done_slots [simp]:
  "length (ry_slots (relay_auth_done i d s)) = length (ry_slots s)"
  "j \<noteq> i \<Longrightarrow> sl_authPending (ry_slots (relay_auth_done i d s) ! j) = sl_authPending (ry_slots s ! j)"
  by (simp_all add: relay_auth_done_def Let_def)

lemma flight_one:
  assumes "fl_reachable M hdrs {i} f"
  shows "distinct (map fst (fl_sent f))" "slots_with (fl_sent f) \<subseteq> {i}"
proof -
  from flight_inv_reachable [OF assms] have inv: "flight_inv M {i} f" .
  then show "distinct (map fst (fl_sent f))" by (simp add: flight_inv_def)
  from inv have "slots_with (fl_logged f) \<subseteq> {i}" "(\<lambda>(i, r). (i, fst r)) ` set (fl_sent f) \<subseteq> set (fl_logged f)"
    by (auto simp: flight_inv_def)
  then show "slots_with (fl_sent f) \<subseteq> {i}" by force
qed

text \<open>A flight that has not completed has a caller left.\<close>

lemma flight_alive: "fl_reachable M hdrs A f \<Longrightarrow> A \<noteq> {} \<Longrightarrow> fl_completed f \<or> fl_callers f \<noteq> []"
proof (induction rule: fl_reachable.induct)
  case (add A f i dest f')
  then show ?case by (auto simp: fl_add_def fl_closed_def fl_finish_def Let_def split: if_splits)
next
  case (close A f i dest)
  then show ?case by (auto simp: fl_closed_def fl_finish_def Let_def)
next
  case (event A f dest e)
  then show ?case by (cases e) (auto simp: fl_finish_def split: option.split)
qed simp

section \<open>Steps keep the invariant\<close>

text \<open>A step that changes slot \<open>i\<close> only.\<close>

lemma phases_inv_update:
  assumes inv: "phases_inv M z" and len: "length (rz_phases z') = length (rz_phases z)"
    and other: "\<And>j. j \<noteq> i \<Longrightarrow> rz_phases z' ! j = rz_phases z ! j
      \<and> sl_authPending (ry_slots (rz_relay z') ! j) = sl_authPending (ry_slots (rz_relay z) ! j)
      \<and> (j \<in> slots_with (rz_paid z') \<longleftrightarrow> j \<in> slots_with (rz_paid z))
      \<and> (j \<in> slots_with (rz_forwarded z') \<longleftrightarrow> j \<in> slots_with (rz_forwarded z))
      \<and> (j \<in> slots_with (rz_answers z') \<longleftrightarrow> j \<in> slots_with (rz_answers z))"
    and own: "i < length (rz_phases z) \<Longrightarrow> phase_ok M i (sl_authPending (ry_slots (rz_relay z') ! i)) (i \<in> slots_with (rz_paid z'))
        (i \<in> slots_with (rz_forwarded z')) (i \<in> slots_with (rz_answers z')) (rz_phases z' ! i)"
  shows "phases_inv M z'"
  unfolding phases_inv_def
proof (intro allI impI)
  fix j assume "j < length (rz_phases z')"
  then show "phase_ok M j (sl_authPending (ry_slots (rz_relay z') ! j)) (j \<in> slots_with (rz_paid z'))
        (j \<in> slots_with (rz_forwarded z')) (j \<in> slots_with (rz_answers z')) (rz_phases z' ! j)"
    using inv other [of j] own len unfolding phases_inv_def by (cases "j = i") simp_all
qed

lemma phases_invD:
  "phases_inv M z \<Longrightarrow> i < length (rz_phases z) \<Longrightarrow> rz_phases z ! i = p \<Longrightarrow>
   phase_ok M i (sl_authPending (ry_slots (rz_relay z) ! i)) (i \<in> slots_with (rz_paid z))
     (i \<in> slots_with (rz_forwarded z)) (i \<in> slots_with (rz_answers z)) p"
  by (auto simp: phases_inv_def)

lemma rz_inv_parts:
  assumes "rz_inv W spent z"
  shows "relay_reachable (rw_env W) (rz_relay z)" "length (rz_phases z) = length (ry_slots (rz_relay z))"
    "phases_inv (rw_maxResp W) z" "lists_inv spent z"
  using assms by (simp_all add: rz_inv_def)

lemma enter_keeps:
  assumes inv: "rz_inv W spent z" and run: "dr_exit (ry_drain (rz_relay z)) = None"
  shows "rz_inv W spent (rz_enter W now remote req z)"
proof -
  note i = rz_inv_parts [OF inv]
  obtain a s where e: "relay_enter (rw_env W) now remote req (rz_relay z) = (a, s)" by (cases "relay_enter (rw_env W) now remote req (rz_relay z)")
  have reach: "relay_reachable (rw_env W) s"
    using relay_reachable.step [OF i(1) relay_step.enter [OF run, of _ now remote req]] e by simp
  from relay_enter_slots [OF e] show ?thesis
  proof
    assume "\<exists>k sl. a = RSlot k \<and> ry_slots s = ry_slots (rz_relay z) @ [sl] \<and> sl_authPending sl"
    then obtain k sl where k: "a = RSlot k" "ry_slots s = ry_slots (rz_relay z) @ [sl]" "sl_authPending sl" by blast
    have "length (rz_phases z) \<notin> slots_with (rz_paid z) \<union> slots_with (rz_forwarded z) \<union> slots_with (rz_answers z)"
      using i(4) by (auto simp: lists_inv_def)
    then have "phases_inv (rw_maxResp W) (z\<lparr>rz_relay := s, rz_phases := rz_phases z @ [WAuth req]\<rparr>)"
      using i(2,3) k(2,3) unfolding phases_inv_def by (auto simp: nth_append less_Suc_eq)
    moreover have "lists_inv spent (z\<lparr>rz_relay := s, rz_phases := rz_phases z @ [WAuth req]\<rparr>)"
      using i(4) by (auto simp: lists_inv_def)
    ultimately show ?thesis using reach i(2) k e by (simp add: rz_inv_def rz_enter_def)
  next
    assume "(\<forall>k. a \<noteq> RSlot k) \<and> ry_slots s = ry_slots (rz_relay z)"
    then show ?thesis using reach i e by (auto simp: rz_inv_def rz_enter_def phases_inv_def lists_inv_def split: relay_action.splits)
  qed
qed

lemma decide_keeps:
  assumes store: "redemption_store (rw_redeem W) spent" and mode: "CLIENT_AUTH_MODE (rw_auth W) = ''token''"
    and inv: "rz_inv W spent z" and k: "k < length (rz_phases z)"
  shows "rz_inv W spent (rz_decide W k key_of z)"
proof (cases "rz_phases z ! k")
  case (WAuth req)
  note i = rz_inv_parts [OF inv]
  let ?V = "rw_token W" and ?p = "req_headers req (CLIENT_AUTH_HEADER (rw_auth W))"
  obtain out st where c: "verifyAccessToken ?V key_of (rw_redeem W) ?p (rz_store z) = (out, st)"
    by (cases "verifyAccessToken ?V key_of (rw_redeem W) ?p (rz_store z)")
  have auth: "clientAuthorized (rw_auth W) ?V key_of (rw_redeem W) req (rz_store z) = (out, st)"
    using c mode by (simp add: clientAuthorized_def)
  have mono: "spent (rz_store z) \<subseteq> spent st" by (rule redemption_store.verify_spends [OF store c])
  note own = phases_invD [OF i(3) k WAuth]
  show ?thesis
  proof (cases "out = Inr True")
    case True
    with c have ok: "verifyAccessToken ?V key_of (rw_redeem W) ?p (rz_store z) = (Inr True, st)" by simp
    obtain f n where p: "token_pair ?V key_of ?p = Some (f, n)" and r: "rw_redeem W (rz_store z) f n = (Inr True, st)"
      by (rule verifyAccessToken_True [OF ok]) (simp add: token_pair_def)
    from redemption_store.redeem_true [OF store r] have new: "(f, n) \<notin> spent (rz_store z)" "(f, n) \<in> spent st" by simp_all
    let ?z = "z\<lparr>rz_store := st, rz_phases := (rz_phases z)[k := WDecided out], rz_paid := (k, f, n) # rz_paid z\<rparr>"
    have z: "rz_decide W k key_of z = ?z" by (simp add: rz_decide_def WAuth auth p True)
    have "phases_inv (rw_maxResp W) ?z"
      by (rule phases_inv_update [OF i(3), where i = k]) (use own k in auto)
    moreover have "lists_inv spent ?z" using i(4) own new mono k by (auto simp: lists_inv_def)
    ultimately show ?thesis unfolding z rz_inv_def using i(1,2) by simp
  next
    case False
    let ?z = "z\<lparr>rz_store := st, rz_phases := (rz_phases z)[k := WDecided out]\<rparr>"
    have z: "rz_decide W k key_of z = ?z" by (simp add: rz_decide_def WAuth auth False split: option.split)
    have "phases_inv (rw_maxResp W) ?z"
      by (rule phases_inv_update [OF i(3), where i = k]) (use own k False in auto)
    moreover have "lists_inv spent ?z" using i(4) mono by (auto simp: lists_inv_def)
    ultimately show ?thesis unfolding z rz_inv_def using i(1,2) by simp
  qed
qed (use inv in \<open>simp_all add: rz_decide_def\<close>)

lemma resume_keeps:
  assumes inv: "rz_inv W spent z" and run: "dr_exit (ry_drain (rz_relay z)) = None" and k: "k < length (rz_phases z)"
  shows "rz_inv W spent (rz_resume k reqd resd z)"
proof (cases "rz_phases z ! k")
  case (WDecided out)
  note i = rz_inv_parts [OF inv] and own = phases_invD [OF rz_inv_parts(3) [OF inv] k WDecided]
  let ?s = "relay_auth_done k (reqd \<or> resd) (rz_relay z)"
  have reach: "relay_reachable (rw_env W) ?s"
    using own k i(2) by (intro relay_reachable.step [OF i(1) relay_step.auth_settled [OF run]]) simp_all
  have paid: "k \<in> slots_with (rz_paid z)" if "relay_after_auth out reqd resd = NReadBody"
    using own that by (auto simp: relay_after_auth_def split: sum.splits bool.splits if_splits)
  let ?body = "z\<lparr>rz_relay := ?s, rz_phases := (rz_phases z)[k := WBody (BOpen 0 [])]\<rparr>"
  let ?done = "z\<lparr>rz_relay := ?s, rz_phases := (rz_phases z)[k := WDone]\<rparr>"
  have "phases_inv (rw_maxResp W) ?body" if "relay_after_auth out reqd resd = NReadBody"
    by (rule phases_inv_update [OF i(3), where i = k]) (use own k paid [OF that] in auto)
  moreover have "phases_inv (rw_maxResp W) ?done" by (rule phases_inv_update [OF i(3), where i = k]) (use k in auto)
  moreover have "phases_inv (rw_maxResp W) (?done\<lparr>rz_answers := (k, r) # rz_answers z\<rparr>)" for r
    by (rule phases_inv_update [OF i(3), where i = k]) (use k in auto)
  moreover have "lists_inv spent ?body" "lists_inv spent ?done" "lists_inv spent (?done\<lparr>rz_answers := (k, r) # rz_answers z\<rparr>)" for r
    using i(4) own k by (auto simp: lists_inv_def)
  ultimately show ?thesis using reach i(2) by (auto simp: rz_inv_def rz_resume_def WDecided Let_def split: relay_next.split)
qed (use inv in \<open>simp_all add: rz_resume_def\<close>)

lemma release_keeps:
  assumes reach: "relay_reachable (rw_env W) s" and run: "dr_exit (ry_drain s) = None" and k: "k < length (ry_slots s)"
  shows "relay_reachable (rw_env W) (releaseSlot k s)"
  using relay_reachable.step [OF reach relay_step.end_response [OF run k]] .

lemma body_keeps:
  assumes inv: "rz_inv W spent z" and run: "dr_exit (ry_drain (rz_relay z)) = None" and k: "k < length (rz_phases z)"
  shows "rz_inv W spent (rz_body W k e resd z)"
proof (cases "rz_phases z ! k")
  case (WBody b)
  note i = rz_inv_parts [OF inv] and own = phases_invD [OF rz_inv_parts(3) [OF inv] k WBody]
  let ?f = "snd (fl_add (\<lambda>_. False) k flight_new)" and ?s = "releaseSlot k (rz_relay z)"
  have flight: "fl_reachable (rw_maxResp W) relay_hdrs {k} ?f"
    by (rule fl_reachable.add [OF fl_reachable.new, of k "\<lambda>_. False"]) (simp_all add: fl_add_def flight_new_def)
  note reach = release_keeps [OF i(1) run k [unfolded i(2)]]
  let ?open = "\<lambda>b. z\<lparr>rz_phases := (rz_phases z)[k := WBody b]\<rparr>" and ?quit = "z\<lparr>rz_phases := (rz_phases z)[k := WDone]\<rparr>"
  let ?gone = "z\<lparr>rz_relay := ?s, rz_phases := (rz_phases z)[k := WDone]\<rparr>"
  let ?fwd = "\<lambda>r. z\<lparr>rz_phases := (rz_phases z)[k := WFlight ?f], rz_forwarded := (k, r) # rz_forwarded z\<rparr>"
  have "phases_inv (rw_maxResp W) (?open b')" "phases_inv (rw_maxResp W) ?quit" "phases_inv (rw_maxResp W) ?gone"
    "phases_inv (rw_maxResp W) (?gone\<lparr>rz_answers := (k, r) # rz_answers z\<rparr>)" "phases_inv (rw_maxResp W) (?fwd g)" for b' r g
    by (rule phases_inv_update [OF i(3), where i = k]; use own k flight in auto)+
  moreover have "lists_inv spent (?open b')" "lists_inv spent ?quit" "lists_inv spent ?gone"
    "lists_inv spent (?gone\<lparr>rz_answers := (k, r) # rz_answers z\<rparr>)" "lists_inv spent (?fwd g)" for b' r g
    using i(4) own k by (auto simp: lists_inv_def)
  ultimately show ?thesis using reach i(1,2) by (auto simp: rz_inv_def rz_body_def WBody split: body_outcome.split)
qed (use inv in \<open>simp_all add: rz_body_def\<close>)

lemma rz_flight_sel [simp]: "rz_relay (rz_flight k f z) = rz_relay z" "length (rz_phases (rz_flight k f z)) = length (rz_phases z)"
  by (simp_all add: rz_flight_def)

lemma flight_keeps:
  assumes inv: "rz_inv W spent z" and k: "k < length (rz_phases z)" and w: "rz_phases z ! k = WFlight f0"
    and f: "fl_reachable (rw_maxResp W) relay_hdrs {k} f"
  shows "rz_inv W spent (rz_flight k f z)"
proof -
  note i = rz_inv_parts [OF inv] and own = phases_invD [OF rz_inv_parts(3) [OF inv] k w]
  have "phases_inv (rw_maxResp W) (rz_flight k f z)"
    by (rule phases_inv_update [OF i(3), where i = k]) (use own k f flight_one [OF f] in \<open>auto simp: rz_flight_def\<close>)
  moreover have "slots_with (fl_sent f) \<inter> slots_with (rz_answers z) = {}" "slots_with (fl_sent f) \<subseteq> {..<length (rz_phases z)}"
  proof -
    have "k \<notin> slots_with (rz_answers z)" using own by simp
    with flight_one(2) [OF f] show "slots_with (fl_sent f) \<inter> slots_with (rz_answers z) = {}" by blast
    show "slots_with (fl_sent f) \<subseteq> {..<length (rz_phases z)}" using k flight_one(2) [OF f] by auto
  qed
  then have "lists_inv spent (rz_flight k f z)"
    using i(4) flight_one(1) [OF f] by (simp add: lists_inv_def rz_flight_def image_Un)
  ultimately show ?thesis using i(1,2) by (simp add: rz_inv_def rz_flight_def)
qed

lemma gateway_keeps:
  assumes inv: "rz_inv W spent z" and k: "k < length (rz_phases z)"
  shows "rz_inv W spent (rz_gateway W k e resd z)"
proof (cases "rz_phases z ! k")
  case (WFlight f)
  from phases_invD [OF rz_inv_parts(3) [OF inv] k WFlight] have "fl_reachable (rw_maxResp W) relay_hdrs {k} f" by simp
  then have "fl_reachable (rw_maxResp W) relay_hdrs {k} (fl_event (rw_maxResp W) relay_hdrs (\<lambda>_. resd) e f)" by (rule fl_reachable.event)
  from flight_keeps [OF inv k WFlight this] show ?thesis by (simp add: rz_gateway_def WFlight)
qed (use inv in \<open>simp_all add: rz_gateway_def\<close>)

lemma close_keeps:
  assumes inv: "rz_inv W spent z" and run: "dr_exit (ry_drain (rz_relay z)) = None" and k: "k < length (rz_phases z)"
  shows "rz_inv W spent (rz_close k z)"
proof -
  have rel: "rz_inv W spent (y\<lparr>rz_relay := releaseSlot k (rz_relay y)\<rparr>)"
    if "rz_inv W spent y" "rz_relay y = rz_relay z" "length (rz_phases y) = length (rz_phases z)" for y
  proof -
    note i = rz_inv_parts [OF that(1)]
    have "k < length (ry_slots (rz_relay y))" using that k i(2) by simp
    with i run that(2) release_keeps [OF i(1)] show ?thesis
      by (simp add: rz_inv_def phases_inv_def lists_inv_def)
  qed
  show ?thesis
  proof (cases "rz_phases z ! k")
    case (WFlight f)
    from phases_invD [OF rz_inv_parts(3) [OF inv] k WFlight] have f: "fl_reachable (rw_maxResp W) relay_hdrs {k} f" by simp
    have "fl_reachable (rw_maxResp W) relay_hdrs {k} (fl_closed (\<lambda>_. True) k f)"
    proof (cases "k \<in> set (fl_callers f)")
      case False
      have "set (fl_callers f) \<union> slots_with (fl_logged f) = {k}" using flight_inv_reachable [OF f] by (simp add: flight_inv_def)
      then have "set (fl_callers f) \<subseteq> {k}" by (metis Un_upper1)
      then have "set (fl_callers f) = {}" using False by (auto dest: subset_singletonD)
      with flight_alive [OF f] f show ?thesis by (simp add: fl_closed_def)
    qed (rule fl_reachable.close [OF f])
    from rel [OF flight_keeps [OF inv k WFlight this]] show ?thesis by (simp add: rz_close_def WFlight)
  qed (use rel [OF inv] in \<open>simp_all add: rz_close_def\<close>)
qed

lemma rz_inv_reachable:
  assumes store: "redemption_store (rw_redeem W) spent" and mode: "CLIENT_AUTH_MODE (rw_auth W) = ''token''"
  shows "rz_reachable W s z \<Longrightarrow> rz_inv W spent z"
proof (induction rule: rz_reachable.induct)
  case init
  show ?case using relay_reachable.init [of "rw_env W"]
    by (simp add: rz_inv_def rz_init_def phases_inv_def lists_inv_def relay_init_def)
next
  case (step z ev)
  note i = rz_inv_parts [OF step.IH]
  show ?case
  proof (cases "dr_exit (ry_drain (rz_relay z)) \<noteq> None \<or> (\<exists>i \<in> set_option (event_slot ev). length (rz_phases z) \<le> i)")
    case False
    then have run: "dr_exit (ry_drain (rz_relay z)) = None" by simp
    have drain: "rz_inv W spent (rz_drain f z)"
      if "relay_step (rw_env W) (rz_relay z) ((rz_relay z)\<lparr>ry_drain := f (ry_drain (rz_relay z))\<rparr>)" for f
      using i relay_reachable.step [OF i(1) that] by (simp add: rz_inv_def phases_inv_def lists_inv_def rz_drain_def)
    note keeps = enter_keeps [OF step.IH run] decide_keeps [OF store mode step.IH] resume_keeps [OF step.IH run] body_keeps [OF step.IH run]
      gateway_keeps [OF step.IH] close_keeps [OF step.IH run]
    have "rz_inv W spent (rz_handle W ev z)"
      using False step.IH keeps drain relay_step.signal [OF run] relay_step.closed [OF run] relay_step.timeout [OF run]
      by (cases ev) simp_all
    with False show ?thesis by (simp add: rz_next_def)
  qed (simp add: rz_next_def step.IH)
qed

section \<open>Properties\<close>

text \<open>
  C3. Every request the gateway sees was paid for by a token of its own: in token mode with the in-process store,
  however many requests run concurrently and wherever clients disconnect, each forwarded request belongs to
  a slot that was forwarded once and for which the store admitted a key fingerprint and nullifier; no two
  slots were paid for by the same pair, and all pairs are among the spent ones; so the gateway receives at
  most as many requests as tokens were spent. Each client request is answered at most once, and the slot
  accounting of the relay holds throughout.
\<close>

theorem gateway_requests_paid:
  assumes "rz_reachable W s z" and "rw_redeem W = mem_redeem maxKeys" and "CLIENT_AUTH_MODE (rw_auth W) = ''token''"
  shows "distinct (map fst (rz_forwarded z)) \<and> fst ` set (rz_forwarded z) \<subseteq> fst ` set (rz_paid z)
    \<and> distinct (map fst (rz_paid z)) \<and> distinct (map snd (rz_paid z))
    \<and> (\<forall>(i, f, n) \<in> set (rz_paid z). redemption_key f n \<in> set (spent_keys (rz_store z)))
    \<and> length (rz_forwarded z) \<le> card (snd ` set (rz_paid z))
    \<and> distinct (map fst (rz_answers z)) \<and> relay_reachable (rw_env W) (rz_relay z)"
proof -
  let ?spent = "\<lambda>s. {(f, n). redemption_key f n \<in> set (spent_keys s)}"
  have "redemption_store (rw_redeem W) ?spent" unfolding assms(2) by (rule mem_red.redemption_store_axioms)
  note inv = rz_inv_parts [OF rz_inv_reachable [OF this assms(3,1)]]
  note l = inv(4) [unfolded lists_inv_def]
  have "length (rz_forwarded z) = card (fst ` set (rz_forwarded z))" using l distinct_card [of "map fst (rz_forwarded z)"] by simp
  also have "\<dots> \<le> card (fst ` set (rz_paid z))" using l by (intro card_mono) simp_all
  also have "\<dots> = card (snd ` set (rz_paid z))" using l distinct_card [of "map fst (rz_paid z)"] distinct_card [of "map snd (rz_paid z)"] by simp
  finally show ?thesis using l inv(1) by (auto simp: image_subset_iff)
qed

text \<open>Two clients; the second presents the token of the first.\<close>

definition ex_world :: "(bytes, mem_redemption) relay_world" where
  "ex_world =
     \<lparr>rw_gateway = \<lparr>gw_hostname = ''g'', gw_port = 443, gw_pathname = ''/gateway'', gw_secret = []\<rparr>, rw_env = ex_relay_env, rw_maxResp = 10,
      rw_auth = \<lparr>CLIENT_AUTH_MODE = ''token'', CLIENT_SECRET = [], CLIENT_AUTH_HEADER = ''x-columbia-token''\<rparr>, rw_token = ex_token_env,
      rw_redeem = mem_redeem 5\<rparr>"

definition ex_token_req :: request where
  "ex_token_req = ex_relay_req\<lparr>req_headers := (req_headers ex_relay_req)(''x-columbia-token'' \<mapsto> ''PrivateToken abc'')\<rparr>"

definition ex_key_of :: "string \<Rightarrow> redemption_error + bytes cached_key option" where
  "ex_key_of k = Inr (Some \<lparr>ck_publicKey = [75], ck_fingerprint = ''f0'', ck_expiresAt = 100\<rparr>)"

definition ex_double :: "mem_redemption relay_service" where
  "ex_double = rz_run ex_world
     [Enter 5 None ex_token_req, Enter 6 None ex_token_req, Decide 0 ex_key_of, Decide 1 ex_key_of, Resume 0 False False, Resume 1 False False,
      Body 0 (BData [7]) False, Body 0 BEnd False, Gateway 0 (GHead 200 None) False, Gateway 0 (GData [8]) False, Gateway 0 GEnd False, Close 0, Close 1]
     memoryRedemptionStore"

theorem gateway_requests_paid_witness:
  "rz_answers ex_double = [(0, 200, [(''Content-Type'', ''message/ohttp-res'')], [8]), (1, plain 401)]
   \<and> map fst (rz_forwarded ex_double) = [0] \<and> rz_paid ex_double = [(0, ''f0'', ''73'')] \<and> distinct (map snd (rz_paid ex_double))
   \<and> dr_work (ry_drain (rz_relay ex_double)) = 0"
proof -
  have "(rz_answers ex_double, map fst (rz_forwarded ex_double), rz_paid ex_double, dr_work (ry_drain (rz_relay ex_double)))
      = ([(0, 200, [(''Content-Type'', ''message/ohttp-res'')], [8]), (1, plain 401)], [0], [(0, ''f0'', ''73'')], 0)" by code_simp
  moreover have "rz_reachable ex_world memoryRedemptionStore ex_double" unfolding ex_double_def by (rule rz_run_reachable)
  then have "distinct (map snd (rz_paid ex_double))"
    using gateway_requests_paid [of ex_world memoryRedemptionStore ex_double 5] by (simp add: ex_world_def)
  ultimately show ?thesis by simp
qed

end
