(* ===== verification/CommonsHandler.thy ===== *)
theory CommonsHandler
  imports CommonsServer Json
begin

text \<open>
  The request handler of the commons service (\<^verbatim>\<open>commons-cache/server.js\<close>), composed: routing, the shared
  cache, the upstream fetches and the responses of any number of concurrent requests. A request is answered
  at once or waits for a fetch; the fetch of a key is led by one request and answers every request that
  waits for it. Shown: every request is answered exactly once, no request waits without a fetch under way,
  and every answer consists of the bytes of a successful fetch of the same item, or is one of a few fixed
  ones.
\<close>

section \<open>JSON with indentation\<close>

text \<open>\<open>JSON.stringify(v, null, 2)\<close>, at the indentation reached so far.\<close>

fun json_lines :: "string list \<Rightarrow> string" where
  "json_lines [] = []"
| "json_lines [t] = t"
| "json_lines (t # u # ts) = t @ [CHR '','', CHR 0x0A] @ json_lines (u # ts)"

definition json_block :: "string \<Rightarrow> string \<Rightarrow> string list \<Rightarrow> string \<Rightarrow> string" where
  "json_block open_b ind ls close_b =
     (if ls = [] then open_b @ close_b
      else open_b @ [CHR 0x0A] @ json_lines (map (\<lambda>l. ind @ ''  '' @ l) ls) @ [CHR 0x0A] @ ind @ close_b)"

fun stringify2 :: "string \<Rightarrow> jv \<Rightarrow> string option" where
  "stringify2 ind (JArr xs) =
     Some (json_block ''['' ind (map (\<lambda>x. case stringify2 (ind @ ''  '') x of None \<Rightarrow> ''null'' | Some t \<Rightarrow> t) xs) '']'')"
| "stringify2 ind (JObj fs) =
     Some (json_block ''{'' ind (concat (map (\<lambda>p. case stringify2 (ind @ ''  '') (snd p) of
         None \<Rightarrow> [] | Some t \<Rightarrow> [json_quote (fst p) @ '': '' @ t]) fs)) ''}'')"
| "stringify2 ind v = stringify v"

definition json_bytes :: "string option \<Rightarrow> bytes" where
  "json_bytes t = (case t of None \<Rightarrow> [] | Some s \<Rightarrow> utf8_bytes s)"

section \<open>The handler's environment\<close>

text \<open>
  \<open>he_url\<close> is \<open>new URL(req.url, 'http://localhost')\<close>: its path and \<open>searchParams.get\<close>, \<open>None\<close> where it throws;
  \<open>he_jparse\<close> and \<open>he_jprint\<close> are the JSON functions of the imgur bodies.
\<close>

record handler_env =
  he_env :: commons_env
  he_config :: commons_config
  he_sha256 :: "bytes \<Rightarrow> bytes"
  he_fdid :: string
  he_fdidHeader :: string
  he_logHealth :: bool
  he_template :: string
  he_comments :: string
  he_imgurBase :: string
  he_clientId :: string
  he_url :: "string \<Rightarrow> (string \<times> (string \<Rightarrow> string option)) option"
  he_jparse :: "bytes \<Rightarrow> jv option"
  he_jprint :: "jv \<Rightarrow> bytes"

text \<open>
  The readings of a request's arrival: \<open>Date.now()\<close>, \<open>toISOString()\<close>, the rounded \<open>process.uptime()\<close>, and the
  milliseconds spent when a request that does not wait is logged.
\<close>

record reading =
  rd_now :: int
  rd_iso :: string
  rd_uptime :: int
  rd_spent :: int

section \<open>Fetches\<close>

definition route_url :: "handler_env \<Rightarrow> croute \<Rightarrow> string" where
  "route_url H r =
     (case r of
        CFeed kind feed view auth \<Rightarrow>
          upstreamUrl (he_env H) (case kind of Commons \<Rightarrow> he_template H | Comments \<Rightarrow> he_comments H) feed view
      | CAlbum i \<Rightarrow> he_imgurBase H @ ''/3/album/'' @ encodeURIComponent i @ ''/images''
      | CImage i \<Rightarrow> he_imgurBase H @ ''/3/image/'' @ encodeURIComponent i
      | _ \<Rightarrow> upstreamUrl (he_env H) (he_template H) ''example'' ''latest'')"

definition route_headers :: "handler_env \<Rightarrow> croute \<Rightarrow> (string \<times> string) list" where
  "route_headers H r =
     (case r of
        CFeed kind feed view auth \<Rightarrow> upstreamHeaders (he_env H) auth
      | CProbe \<Rightarrow> upstreamHeaders (he_env H) None
      | _ \<Rightarrow> [(''User-Agent'', ce_ua (he_env H)), (''Accept'', ''application/json''), (''Authorization'', ''Client-ID '' @ he_clientId H)])"

definition route_fetch :: "handler_env \<Rightarrow> croute \<Rightarrow> fetch_out \<Rightarrow> upstream" where
  "route_fetch H r out =
     (case r of
        CAlbum i \<Rightarrow> fetchImgurJson (he_env H) (he_jparse H) (he_jprint H) fetchImgurAlbum_shape (route_url H r) out
      | CImage i \<Rightarrow> fetchImgurJson (he_env H) (he_jparse H) (he_jprint H) fetchImgurImage_shape (route_url H r) out
      | _ \<Rightarrow> fetchUpstream (he_env H) (route_url H r) out)"

definition route_ctype :: "croute \<Rightarrow> string \<Rightarrow> string" where
  "route_ctype r = (case r of CFeed kind feed view auth \<Rightarrow> feed_ctype | _ \<Rightarrow> imgur_ctype)"

section \<open>Responses\<close>

definition json_type :: "(string \<times> string) list" where
  "json_type = [(''Content-Type'', ''application/json'')]"

definition error_response :: "int \<Rightarrow> (string \<times> jv) list \<Rightarrow> cresponse" where
  "error_response status fs = \<lparr>cr_status = status, cr_headers = json_type, cr_body = json_bytes (stringify (JObj fs))\<rparr>"

definition health_response :: "reading \<Rightarrow> nat \<Rightarrow> cresponse" where
  "health_response rd cacheSize =
     \<lparr>cr_status = 200, cr_headers = json_type,
      cr_body = json_bytes (stringify (JObj [(''status'', JStr ''ok''), (''service'', JStr ''commons-cache''), (''ts'', JStr (rd_iso rd)),
        (''uptimeS'', JInt (rd_uptime rd)), (''cacheKeys'', JInt (int cacheSize))]))\<rparr>"

text \<open>The probe's answer; \<open>ms\<close> is how long the fetch took.\<close>

definition probe_response :: "handler_env \<Rightarrow> int \<Rightarrow> fetch_out \<Rightarrow> cresponse" where
  "probe_response H ms out =
     (let results = map (\<lambda>(name, status, n). (name, JObj [(''status'', JInt status), (''bytes'', JInt (int n)), (''ms'', JInt ms)]))
            (handleProbe (he_env H) (he_template H) out)
      in \<lparr>cr_status = 200, cr_headers = json_type,
          cr_body = json_bytes (stringify2 [] (JObj [(''note'', JStr ''upstream-surface reachability from this host: status, size, and latency''),
            (''results'', JObj results)]))\<rparr>)"

definition bad_input :: "string \<Rightarrow> cresponse" where
  "bad_input path =
     error_response 400 [(''error'', JStr
       (if path = ''/v1/imgur'' then ''require ?id=<imgur album id> or ?image=<imgur image id>''
        else ''require ?id=<'' @ (if path = ''/v1/comments'' then ''item'' else ''feed'') @ ''-id>&sort=<sort>''))]"

definition not_found :: cresponse where
  "not_found = error_response 404 [(''error'', JStr ''not found''), (''routes'', JArr (map JStr
     [''/health'', ''/v1/probe'', ''/v1/commons?id=&sort='', ''/v1/imgur?id='', ''/v1/imgur?image='']))]"

definition bare :: "int \<Rightarrow> cresponse" where
  "bare status = \<lparr>cr_status = status, cr_headers = [], cr_body = []\<rparr>"

text \<open>The answers that wait for nothing.\<close>

definition fixed_reply :: "reading \<Rightarrow> nat \<Rightarrow> string \<Rightarrow> croute \<Rightarrow> cresponse" where
  "fixed_reply rd cacheSize path r =
     (case r of
        CForbidden \<Rightarrow> bare 403
      | CHealth \<Rightarrow> health_response rd cacheSize
      | CBadInput \<Rightarrow> bad_input path
      | _ \<Rightarrow> not_found)"

section \<open>The log lines\<close>

definition no_log :: commons_log where
  "no_log = \<lparr>cl_route = JUndef, cl_method = JUndef, cl_status = JUndef, cl_durationMs = None, cl_cache = JUndef, cl_phase = JUndef,
     cl_reason = JUndef, cl_upstreamStatus = JUndef, cl_redirectTarget = JUndef, cl_event = JUndef\<rparr>"

definition jopt :: "string option \<Rightarrow> jv" where
  "jopt s = (case s of None \<Rightarrow> JUndef | Some t \<Rightarrow> JStr t)"

text \<open>
  The line at the end of the handler. The refusal of the origin lock is logged with a field \<open>cacheState\<close>, which
  the filter does not know, and without the method.
\<close>

definition request_log :: "handler_env \<Rightarrow> string \<Rightarrow> string \<Rightarrow> int \<Rightarrow> int \<Rightarrow> string \<Rightarrow> cached_result option \<Rightarrow> (string \<times> jv) list list" where
  "request_log H path verb duration status cacheState out =
     (if path \<noteq> ''/health'' \<or> status \<noteq> 200 \<or> he_logHealth H then
        [commons_safeLogFields (case out of
           Some (CFailed upstreamStatus reason target) \<Rightarrow>
             no_log\<lparr>cl_route := JStr path, cl_method := JStr verb, cl_status := JInt status, cl_durationMs := Some duration, cl_cache := JStr cacheState,
               cl_reason := jopt reason, cl_upstreamStatus := JInt upstreamStatus, cl_redirectTarget := jopt target\<rparr>
         | _ \<Rightarrow> no_log\<lparr>cl_route := JStr path, cl_method := JStr verb, cl_status := JInt status, cl_durationMs := Some duration,
               cl_cache := JStr cacheState\<rparr>)]
      else [])"

definition refusal_log :: "string \<Rightarrow> int \<Rightarrow> (string \<times> jv) list list" where
  "refusal_log path duration = [commons_safeLogFields (no_log\<lparr>cl_route := JStr path, cl_status := JInt 403, cl_durationMs := Some duration\<rparr>)]"

definition revalidate_log :: "croute \<Rightarrow> int \<Rightarrow> upstream \<Rightarrow> (string \<times> jv) list list" where
  "revalidate_log r ms up =
     (if up_ok up then []
      else [commons_safeLogFields (no_log\<lparr>cl_route := JStr (case r of CFeed kind feed view auth \<Rightarrow> ''/v1/commons'' | _ \<Rightarrow> ''/v1/imgur''),
              cl_phase := JStr ''revalidate'', cl_reason := jopt (up_reason up), cl_upstreamStatus := JInt (up_status up),
              cl_redirectTarget := jopt (up_redirectTarget up), cl_durationMs := Some ms\<rparr>)])"

section \<open>The service\<close>

text \<open>
  A request that waits: its number, its path and method, what it asks for, and whether it leads the fetch.
\<close>

record waiter =
  wt_id :: nat
  wt_path :: string
  wt_method :: string
  wt_route :: croute
  wt_leader :: bool
  wt_started :: int

text \<open>
  The state of the module and its handlers, with what has been sent and logged. \<open>sv_fetched\<close> is a history:
  the fetches that have settled, each with the request it was made for.
\<close>

record service =
  sv_commons :: commons
  sv_next :: nat
  sv_waiting :: "waiter list"
  sv_sent :: "(nat \<times> croute option \<times> cresponse) list"
  sv_log :: "(string \<times> jv) list list"
  sv_fetched :: "(croute \<times> fetch_out) list"

definition service_init :: service where
  "service_init = \<lparr>sv_commons = commons_init, sv_next = 0, sv_waiting = [], sv_sent = [], sv_log = [], sv_fetched = []\<rparr>"

definition service_send :: "nat \<Rightarrow> croute option \<Rightarrow> cresponse \<Rightarrow> (string \<times> jv) list list \<Rightarrow> service \<Rightarrow> service" where
  "service_send i r resp ls S = S\<lparr>sv_sent := sv_sent S @ [(i, r, resp)], sv_log := sv_log S @ ls\<rparr>"

definition service_wait :: "reading \<Rightarrow> string \<Rightarrow> request \<Rightarrow> croute \<Rightarrow> bool \<Rightarrow> nat \<Rightarrow> service \<Rightarrow> service" where
  "service_wait rd path req r leader i S =
     S\<lparr>sv_waiting := sv_waiting S @ [\<lparr>wt_id = i, wt_path = path, wt_method = req_method req, wt_route = r, wt_leader = leader,
        wt_started = rd_now rd\<rparr>]\<rparr>"

text \<open>A request arrives: the handler up to its response or its first \<open>await\<close>.\<close>

definition service_route :: "handler_env \<Rightarrow> reading \<Rightarrow> request \<Rightarrow> string \<Rightarrow> croute \<Rightarrow> nat \<Rightarrow> service \<Rightarrow> service" where
  "service_route H rd req path r i S =
     (case route_key r of
        Some key \<Rightarrow>
          (case cached_lookup (he_config H) (rd_now rd) key (sv_commons S) of
             (Serve e st, cm) \<Rightarrow>
               service_send i (Some r)
                 (cached_response (he_config H) (route_ctype r) (rd_now rd) (CServed (ce_body e) (ce_contentType e) (ce_fetchedAt e) st))
                 (request_log H path (req_method req) (rd_spent rd) 200 st None) (S\<lparr>sv_commons := cm\<rparr>)
           | (Lead, cm) \<Rightarrow> service_wait rd path req r True i (S\<lparr>sv_commons := cm\<rparr>)
           | (Follow, cm) \<Rightarrow> service_wait rd path req r False i (S\<lparr>sv_commons := cm\<rparr>))
      | None \<Rightarrow>
          if r = CProbe then service_wait rd path req r False i S
          else (let resp = fixed_reply rd (length (cm_cache (sv_commons S))) path r in
            service_send i (Some r) resp
              (if r = CForbidden then refusal_log path (rd_spent rd) else request_log H path (req_method req) (rd_spent rd) (cr_status resp) ''-'' None) S))"

definition service_arrive :: "handler_env \<Rightarrow> reading \<Rightarrow> request \<Rightarrow> service \<Rightarrow> service" where
  "service_arrive H rd req S =
     (let i = sv_next S; S' = S\<lparr>sv_next := Suc i\<rparr> in
      case he_url H (req_url req) of
        None \<Rightarrow> service_send i None (bare 400) [] S'
      | Some (path, q) \<Rightarrow>
          service_route H rd req path
            (commons_route (he_env H) (he_sha256 H) (he_fdid H) (he_fdidHeader H) \<lparr>cq_req = req, cq_path = path, cq_query = q\<rparr>) i S')"

text \<open>The fetch of a key settles: its leader caches a good answer, and the leader and its followers respond.\<close>

definition waits_for :: "string \<Rightarrow> waiter \<Rightarrow> bool" where
  "waits_for key w \<longleftrightarrow> route_key (wt_route w) = Some key"

definition waiter_result :: "int \<Rightarrow> upstream \<Rightarrow> waiter \<Rightarrow> cached_result" where
  "waiter_result now up w = cached_result (wt_leader w) (route_ctype (wt_route w)) now up"

definition waiter_response :: "handler_env \<Rightarrow> int \<Rightarrow> upstream \<Rightarrow> waiter \<Rightarrow> cresponse" where
  "waiter_response H now up w = cached_response (he_config H) (route_ctype (wt_route w)) now (waiter_result now up w)"

definition waiter_log :: "handler_env \<Rightarrow> int \<Rightarrow> upstream \<Rightarrow> waiter \<Rightarrow> (string \<times> jv) list list" where
  "waiter_log H now up w =
     request_log H (wt_path w) (wt_method w) (now - wt_started w) (cr_status (waiter_response H now up w))
       (case waiter_result now up w of CServed body ct at st \<Rightarrow> st | CFailed status reason target \<Rightarrow> ''MISS'') (Some (waiter_result now up w))"

definition service_settle :: "handler_env \<Rightarrow> int \<Rightarrow> string \<Rightarrow> fetch_out \<Rightarrow> service \<Rightarrow> service" where
  "service_settle H now key out S =
     (case find (\<lambda>w. wt_leader w \<and> waits_for key w) (sv_waiting S) of
        None \<Rightarrow> S
      | Some l \<Rightarrow>
          (let up = route_fetch H (wt_route l) out; ws = filter (waits_for key) (sv_waiting S) in
           S\<lparr>sv_commons := lead_done (he_config H) (route_ctype (wt_route l)) now key up (sv_commons S),
             sv_waiting := filter (\<lambda>w. \<not> waits_for key w) (sv_waiting S),
             sv_sent := sv_sent S @ map (\<lambda>w. (wt_id w, Some (wt_route w), waiter_response H now up w)) ws,
             sv_log := sv_log S @ concat (map (waiter_log H now up) ws),
             sv_fetched := sv_fetched S @ [(wt_route l, out)]\<rparr>))"

text \<open>The probe's own fetch settles, and a background revalidation started for the item of \<open>r\<close>.\<close>

definition service_probe :: "handler_env \<Rightarrow> int \<Rightarrow> int \<Rightarrow> waiter \<Rightarrow> fetch_out \<Rightarrow> service \<Rightarrow> service" where
  "service_probe H now ms w out S =
     service_send (wt_id w) (Some CProbe) (probe_response H ms out)
       (request_log H (wt_path w) (wt_method w) (now - wt_started w) 200 ''-'' None)
       (S\<lparr>sv_waiting := remove1 w (sv_waiting S)\<rparr>)"

definition service_revalidate :: "handler_env \<Rightarrow> int \<Rightarrow> int \<Rightarrow> string \<Rightarrow> nat \<Rightarrow> croute \<Rightarrow> fetch_out \<Rightarrow> service \<Rightarrow> service" where
  "service_revalidate H now ms key obj r out S =
     (let up = route_fetch H r out in
      S\<lparr>sv_commons := reval_done (he_config H) (route_ctype r) now key obj up (sv_commons S),
        sv_log := sv_log S @ revalidate_log r ms up,
        sv_fetched := sv_fetched S @ [(r, out)]\<rparr>)"

inductive service_step :: "handler_env \<Rightarrow> service \<Rightarrow> service \<Rightarrow> bool" for H where
  arrive: "service_step H S (service_arrive H rd req S)"
| settle: "key \<in> set (cm_inflight (sv_commons S)) \<Longrightarrow> service_step H S (service_settle H now key out S)"
| probe: "w \<in> set (sv_waiting S) \<Longrightarrow> wt_route w = CProbe \<Longrightarrow> service_step H S (service_probe H now ms w out S)"
| revalidate: "(key, obj) \<in> set (cm_reval (sv_commons S)) \<Longrightarrow> route_ok r \<Longrightarrow> route_key r = Some key \<Longrightarrow>
     service_step H S (service_revalidate H now ms key obj r out S)"

inductive service_reachable :: "handler_env \<Rightarrow> service \<Rightarrow> bool" for H where
  init: "service_reachable H service_init"
| step: "service_reachable H S \<Longrightarrow> service_step H S S' \<Longrightarrow> service_reachable H S'"

section \<open>Invariant\<close>

definition cache_bodies :: "commons \<Rightarrow> (string \<times> bytes) set" where
  "cache_bodies s = (\<lambda>p. (fst p, ce_body (snd p))) ` set (cm_cache s)"

text \<open>Bytes that a settled fetch for the key has returned.\<close>

definition fetched_body :: "handler_env \<Rightarrow> (croute \<times> fetch_out) list \<Rightarrow> string \<Rightarrow> bytes \<Rightarrow> bool" where
  "fetched_body H F key b \<longleftrightarrow>
     (\<exists>p \<in> set F. route_ok (fst p) \<and> route_key (fst p) = Some key \<and> up_ok (route_fetch H (fst p) (snd p))
        \<and> up_body (route_fetch H (fst p) (snd p)) = b)"

definition good_type :: "cresponse \<Rightarrow> bool" where
  "good_type resp \<longleftrightarrow> map_of (cr_headers resp) ''Content-Type'' \<in> Some ` set (''application/octet-stream'' # ALLOWED_CONTENT_TYPES)"

definition answer_ok :: "handler_env \<Rightarrow> (croute \<times> fetch_out) list \<Rightarrow> croute option \<Rightarrow> cresponse \<Rightarrow> bool" where
  "answer_ok H F ro resp \<longleftrightarrow>
     (case ro of
        None \<Rightarrow> resp = bare 400
      | Some r \<Rightarrow>
          route_ok r \<and>
          (case route_key r of
             Some key \<Rightarrow> resp = upstream_unavailable ''MISS'' \<or> cr_status resp = 200 \<and> good_type resp \<and> fetched_body H F key (cr_body resp)
           | None \<Rightarrow>
               r \<in> {CHealth, CProbe} \<and> cr_status resp = 200 \<and> cr_headers resp = json_type
               \<or> r = CForbidden \<and> resp = bare 403 \<or> r = CNotFound \<and> resp = not_found
               \<or> r = CBadInput \<and> resp \<in> bad_input ` {''/v1/commons'', ''/v1/comments'', ''/v1/imgur''}))"

definition leads :: "string \<Rightarrow> waiter \<Rightarrow> bool" where
  "leads key w \<longleftrightarrow> wt_leader w \<and> waits_for key w"

definition waiters_inv :: "commons \<Rightarrow> waiter list \<Rightarrow> bool" where
  "waiters_inv cm ws \<longleftrightarrow>
     (\<forall>w \<in> set ws. route_ok (wt_route w)
        \<and> (wt_route w = CProbe \<and> \<not> wt_leader w \<or> (\<exists>key \<in> set (cm_inflight cm). waits_for key w)))
     \<and> (\<forall>key \<in> set (cm_inflight cm). length (filter (leads key) ws) = 1)"

definition ids_inv :: "service \<Rightarrow> bool" where
  "ids_inv S \<longleftrightarrow>
     distinct (map wt_id (sv_waiting S) @ map fst (sv_sent S))
     \<and> set (map wt_id (sv_waiting S) @ map fst (sv_sent S)) = {..<sv_next S}"

definition bytes_inv :: "handler_env \<Rightarrow> service \<Rightarrow> bool" where
  "bytes_inv H S \<longleftrightarrow>
     (\<forall>p \<in> cache_bodies (sv_commons S). fetched_body H (sv_fetched S) (fst p) (snd p))
     \<and> (\<forall>p \<in> set (sv_sent S). answer_ok H (sv_fetched S) (fst (snd p)) (snd (snd p)))"

definition service_inv :: "handler_env \<Rightarrow> service \<Rightarrow> bool" where
  "service_inv H S \<longleftrightarrow>
     commons_reachable (he_config H) (sv_commons S) \<and> waiters_inv (sv_commons S) (sv_waiting S) \<and> ids_inv S \<and> bytes_inv H S"

section \<open>The cache's operations\<close>

lemma fetched_body_mono: "fetched_body H F key b \<Longrightarrow> fetched_body H (F @ G) key b"
  unfolding fetched_body_def by auto

lemma answer_ok_mono: "answer_ok H F ro resp \<Longrightarrow> answer_ok H (F @ G) ro resp"
  using fetched_body_mono unfolding answer_ok_def by (auto split: option.splits)

lemma cached_lookup_cases:
  assumes "cached_lookup C now key s = (sd, cm)"
  shows "cache_bodies cm \<subseteq> cache_bodies s"
    and "sd = Lead \<Longrightarrow> key \<notin> set (cm_inflight s) \<and> cm_inflight cm = cm_inflight s @ [key]"
    and "sd = Follow \<Longrightarrow> key \<in> set (cm_inflight s) \<and> cm = s"
    and "sd = Serve e st \<Longrightarrow> cm_inflight cm = cm_inflight s \<and> (key, ce_body e) \<in> cache_bodies s"
proof -
  have stale: "cache_bodies (s\<lparr>cm_cache := jm_set key (e\<lparr>ce_revalidating := True\<rparr>) (cm_cache s), cm_reval := rs\<rparr>) \<subseteq> cache_bodies s"
    if "jm_get (cm_cache s) key = Some e" for e rs
  proof
    fix p assume "p \<in> cache_bodies (s\<lparr>cm_cache := jm_set key (e\<lparr>ce_revalidating := True\<rparr>) (cm_cache s), cm_reval := rs\<rparr>)"
    then obtain q where q: "q \<in> set (jm_set key (e\<lparr>ce_revalidating := True\<rparr>) (cm_cache s))" "p = (fst q, ce_body (snd q))"
      by (auto simp: cache_bodies_def)
    with jm_set_entries [OF q(1)] jm_get_in_set [OF that] show "p \<in> cache_bodies s"
      by (force simp: cache_bodies_def image_iff)
  qed
  have mem: "(key, ce_body e) \<in> cache_bodies s" if "jm_get (cm_cache s) key = Some e" for e
    using jm_get_in_set [OF that] by (force simp: cache_bodies_def image_iff)
  have same: "cache_bodies (s\<lparr>cm_inflight := x\<rparr>) = cache_bodies s" for x by (simp add: cache_bodies_def)
  show "cache_bodies cm \<subseteq> cache_bodies s" using assms stale
    by (auto simp: cached_lookup_def cached_miss_def Let_def same split: option.splits if_splits)
  show "sd = Lead \<Longrightarrow> key \<notin> set (cm_inflight s) \<and> cm_inflight cm = cm_inflight s @ [key]"
    and "sd = Follow \<Longrightarrow> key \<in> set (cm_inflight s) \<and> cm = s"
    and "sd = Serve e st \<Longrightarrow> cm_inflight cm = cm_inflight s \<and> (key, ce_body e) \<in> cache_bodies s"
    using assms mem by (auto simp: cached_lookup_def cached_miss_def Let_def split: option.splits if_splits)
qed

lemma store_entry_bodies:
  assumes "jm_wf (cm_cache s)"
  shows "cache_bodies (store_entry C ctype now key up s) \<subseteq> insert (key, up_body up) (cache_bodies s)"
  using cacheSet_entries [OF assms] by (force simp: cache_bodies_def store_entry_def)

lemma lead_done_bodies:
  assumes "jm_wf (cm_cache s)"
  shows "cache_bodies (lead_done C ctype now key up s) \<subseteq> (if up_ok up then {(key, up_body up)} else {}) \<union> cache_bodies s"
  using store_entry_bodies [of "s\<lparr>cm_inflight := remove1 key (cm_inflight s)\<rparr>" C ctype now key up] assms
  by (auto simp: lead_done_def Let_def cache_bodies_def)

lemma reval_done_bodies:
  assumes "jm_wf (cm_cache s)"
  shows "cache_bodies (reval_done C ctype now key obj up s) \<subseteq> (if up_ok up then {(key, up_body up)} else {}) \<union> cache_bodies s"
proof -
  have "cache_bodies (t\<lparr>cm_cache := map (\<lambda>(k, e). (k, if ce_obj e = obj then e\<lparr>ce_revalidating := False\<rparr> else e)) (cm_cache t), cm_reval := rs\<rparr>)
      = cache_bodies t" for t rs
    by (simp add: cache_bodies_def image_image case_prod_unfold) (intro image_cong refl, simp)
  then show ?thesis using store_entry_bodies [OF assms, of C ctype now key up] by (auto simp: reval_done_def Let_def)
qed

lemma inflight_simps [simp]:
  "cm_inflight (lead_done C ctype now key up s) = remove1 key (cm_inflight s)"
  "cm_inflight (reval_done C ctype now key obj up s) = cm_inflight s"
  by (simp_all add: lead_done_def reval_done_def store_entry_def Let_def)

lemma reachable_wf:
  assumes "commons_reachable C s"
  shows "jm_wf (cm_cache s)" "distinct (cm_inflight s)"
  using commons_inv_reachable [OF assms] by (simp_all add: commons_inv_def)

section \<open>Steps keep the invariant\<close>

lemma cached_response_ok:
  assumes "route_ok r" "route_key r = Some key" and "\<And>b ct t st. out = CServed b ct t st \<Longrightarrow> fetched_body H F key b"
  shows "answer_ok H F (Some r) (cached_response C (route_ctype r) now out)"
proof -
  have "route_ctype r ct \<in> set (''application/octet-stream'' # ALLOWED_CONTENT_TYPES)" for ct
    by (rule ctype_allowed) (simp add: route_ctype_def split: croute.split)
  with assms show ?thesis
    by (auto simp: answer_ok_def cached_response_def good_type_def simp del: set_simps split: cached_result.splits)
qed

lemma fixed_reply_ok:
  assumes "route_key r = None" "r \<noteq> CProbe" and "r = CBadInput \<Longrightarrow> path \<in> {''/v1/commons'', ''/v1/comments'', ''/v1/imgur''}"
  shows "answer_ok H F (Some r) (fixed_reply rd n path r)"
  using assms by (cases r) (auto simp: answer_ok_def fixed_reply_def health_response_def)

lemma commons_route_bad_input:
  "commons_route E sha256 fdid name q = CBadInput \<Longrightarrow> cq_path q \<in> {''/v1/commons'', ''/v1/comments'', ''/v1/imgur''}"
  by (auto simp: commons_route_def split: if_splits)

lemma ids_inv_send:
  assumes "ids_inv S" "sv_next S = i"
  shows "ids_inv (service_send i r resp ls (S\<lparr>sv_next := Suc i, sv_commons := cm\<rparr>))"
  using assms by (auto simp: ids_inv_def service_send_def)

lemma ids_inv_wait:
  assumes "ids_inv S" "sv_next S = i"
  shows "ids_inv (service_wait rd path req r leader i (S\<lparr>sv_next := Suc i, sv_commons := cm\<rparr>))"
  using assms by (auto simp: ids_inv_def service_wait_def)

lemma waiters_inv_wait:
  assumes inv: "waiters_inv cm ws" and r: "route_ok (wt_route w)"
    and new: "wt_route w = CProbe \<and> \<not> wt_leader w \<and> cm_inflight cm' = cm_inflight cm
      \<or> waits_for key w \<and> (if wt_leader w then key \<notin> set (cm_inflight cm) \<and> cm_inflight cm' = cm_inflight cm @ [key]
          else key \<in> set (cm_inflight cm) \<and> cm_inflight cm' = cm_inflight cm)"
  shows "waiters_inv cm' (ws @ [w])"
proof -
  have sub: "set (cm_inflight cm) \<subseteq> set (cm_inflight cm')" using new by (auto split: if_splits)
  have "filter (leads k) ws = []" if "k \<notin> set (cm_inflight cm)" for k
    using inv that unfolding waiters_inv_def leads_def waits_for_def filter_empty_conv by fastforce
  moreover have "\<not> waits_for k w" if "wt_route w = CProbe" for k using that by (simp add: waits_for_def)
  moreover have "waits_for k w \<Longrightarrow> waits_for j w \<Longrightarrow> k = j" for k j by (simp add: waits_for_def)
  ultimately have "length (filter (leads k) (ws @ [w])) = 1" if "k \<in> set (cm_inflight cm')" for k
    using inv new that unfolding waiters_inv_def leads_def by (auto split: if_splits)
  moreover have "wt_route x = CProbe \<and> \<not> wt_leader x \<or> (\<exists>k \<in> set (cm_inflight cm'). waits_for k x)" if "x \<in> set (ws @ [w])" for x
    using inv new sub that unfolding waiters_inv_def by (auto split: if_splits)
  ultimately show ?thesis using inv r unfolding waiters_inv_def by auto
qed

lemma bytes_inv_send:
  assumes "bytes_inv H S" "cache_bodies cm \<subseteq> cache_bodies (sv_commons S)" "answer_ok H (sv_fetched S) r resp"
  shows "bytes_inv H (service_send i r resp ls (S\<lparr>sv_next := n, sv_commons := cm\<rparr>))"
  using assms by (auto simp: bytes_inv_def service_send_def)

lemma bytes_inv_wait:
  assumes "bytes_inv H S" "cache_bodies cm \<subseteq> cache_bodies (sv_commons S)"
  shows "bytes_inv H (service_wait rd path req r leader i (S\<lparr>sv_next := n, sv_commons := cm\<rparr>))"
  using assms by (auto simp: bytes_inv_def service_wait_def)

lemma waiters_inv_same: "waiters_inv cm ws \<Longrightarrow> cm_inflight cm' = cm_inflight cm \<Longrightarrow> waiters_inv cm' ws"
  by (simp add: waiters_inv_def)

lemma service_sel [simp]:
  "sv_commons (service_send i r resp ls S) = sv_commons S" "sv_waiting (service_send i r resp ls S) = sv_waiting S"
  "sv_commons (service_wait rd path req r' leader i S) = sv_commons S"
  by (simp_all add: service_send_def service_wait_def)

lemma keyed_inv:
  assumes inv: "service_inv H S" and r: "route_ok r" and key: "route_key r = Some key"
  shows "service_inv H (service_route H rd req path r (sv_next S) (S\<lparr>sv_next := Suc (sv_next S)\<rparr>))"
proof -
  let ?C = "he_config H"
  from inv have i: "commons_reachable ?C (sv_commons S)" "waiters_inv (sv_commons S) (sv_waiting S)" "ids_inv S" "bytes_inv H S"
    by (simp_all add: service_inv_def)
  obtain sd cm where l: "cached_lookup ?C (rd_now rd) key (sv_commons S) = (sd, cm)" by (cases "cached_lookup ?C (rd_now rd) key (sv_commons S)")
  note lk = cached_lookup_cases [OF l]
  have reach: "commons_reachable ?C cm"
    using commons_reachable.step [OF i(1) commons_step.lookup, of "rd_now rd" key] by (simp add: l)
  have wait: "service_inv H (service_wait rd path req r b (sv_next S) (S\<lparr>sv_next := Suc (sv_next S), sv_commons := cm\<rparr>))"
    if "if b then key \<notin> set (cm_inflight (sv_commons S)) \<and> cm_inflight cm = cm_inflight (sv_commons S) @ [key]
        else key \<in> set (cm_inflight (sv_commons S)) \<and> cm_inflight cm = cm_inflight (sv_commons S)" for b
    unfolding service_inv_def using reach ids_inv_wait [OF i(3) refl] bytes_inv_wait [OF i(4) lk(1)] r key that
    by (simp add: service_wait_def) (rule waiters_inv_wait [OF i(2), where key = key], simp_all add: waits_for_def)
  show ?thesis
  proof (cases sd)
    case (Serve e st)
    have "fetched_body H (sv_fetched S) key (ce_body e)" using lk(4) [OF Serve] i(4) unfolding bytes_inv_def by fastforce
    then have ok: "answer_ok H (sv_fetched S) (Some r)
        (cached_response ?C (route_ctype r) (rd_now rd) (CServed (ce_body e) (ce_contentType e) (ce_fetchedAt e) st))"
      by (intro cached_response_ok [OF r key]) simp
    from Serve l key reach ids_inv_send [OF i(3) refl] bytes_inv_send [OF i(4) lk(1) ok] waiters_inv_same [OF i(2)] lk(4) [OF Serve]
    show ?thesis by (simp add: service_route_def service_inv_def)
  next
    case Lead
    with wait [of True] lk(2) l key show ?thesis by (simp add: service_route_def)
  next
    case Follow
    with wait [of False] lk(3) l key show ?thesis by (simp add: service_route_def)
  qed
qed

lemma arrive_inv:
  assumes inv: "service_inv H S"
  shows "service_inv H (service_arrive H rd req S)"
proof -
  let ?i = "sv_next S" and ?cm = "sv_commons S"
  let ?S = "S\<lparr>sv_next := Suc ?i\<rparr>"
  from inv have i: "commons_reachable (he_config H) ?cm" "waiters_inv ?cm (sv_waiting S)" "ids_inv S" "bytes_inv H S"
    by (simp_all add: service_inv_def)
  have send: "service_inv H (service_send ?i r resp ls ?S)" if "answer_ok H (sv_fetched S) r resp" for r resp ls
    using i ids_inv_send [OF i(3) refl, where cm = ?cm] bytes_inv_send [OF i(4) subset_refl that] by (simp add: service_inv_def)
  show ?thesis
  proof (cases "he_url H (req_url req)")
    case None
    with send [of None "bare 400" "[]"] show ?thesis by (simp add: service_arrive_def Let_def answer_ok_def)
  next
    case (Some pq)
    obtain path q where pq: "pq = (path, q)" by (cases pq)
    define r where "r = commons_route (he_env H) (he_sha256 H) (he_fdid H) (he_fdidHeader H) \<lparr>cq_req = req, cq_path = path, cq_query = q\<rparr>"
    have ok: "route_ok r" and bad: "r = CBadInput \<Longrightarrow> path \<in> {''/v1/commons'', ''/v1/comments'', ''/v1/imgur''}"
      using commons_route_ok commons_route_bad_input unfolding r_def by fastforce+
    have a: "service_arrive H rd req S = service_route H rd req path r ?i ?S"
      by (simp add: service_arrive_def Some pq r_def Let_def)
    show ?thesis
    proof (cases "route_key r")
      case (Some key)
      then show ?thesis using keyed_inv [OF inv ok] a by simp
    next
      case None
      show ?thesis
      proof (cases "r = CProbe")
        case True
        have "waiters_inv ?cm (sv_waiting (service_wait rd path req CProbe False ?i ?S))"
          unfolding service_wait_def by (simp, rule waiters_inv_wait [OF i(2)]) simp_all
        with True i ids_inv_wait [OF i(3) refl, where cm = ?cm] bytes_inv_wait [OF i(4) subset_refl] show ?thesis
          unfolding a service_route_def service_inv_def by simp
      next
        case False
        from send [OF fixed_reply_ok [OF None False bad]] None False show ?thesis
          unfolding a service_route_def by (simp add: Let_def)
      qed
    qed
  qed
qed

lemma map_remove1_distinct: "distinct (map f xs) \<Longrightarrow> x \<in> set xs \<Longrightarrow> map f (remove1 x xs) = remove1 (f x) (map f xs)"
  by (induction xs) (auto simp: image_iff)

lemma filter_remove1_irrelevant: "\<not> P x \<Longrightarrow> filter P (remove1 x xs) = filter P xs"
  by (induction xs) auto

lemma distinct_split:
  assumes "distinct (map f xs @ ys)"
  shows "distinct (map f (filter (\<lambda>x. \<not> P x) xs) @ ys @ map f (filter P xs))"
    and "set (map f (filter (\<lambda>x. \<not> P x) xs) @ ys @ map f (filter P xs)) = set (map f xs @ ys)"
  using assms by (induction xs) auto

lemma probe_inv:
  assumes inv: "service_inv H S" and w: "w \<in> set (sv_waiting S)" "wt_route w = CProbe"
  shows "service_inv H (service_probe H now ms w out S)"
proof -
  from inv have i: "commons_reachable (he_config H) (sv_commons S)" "waiters_inv (sv_commons S) (sv_waiting S)" "ids_inv S" "bytes_inv H S"
    by (simp_all add: service_inv_def)
  have "waiters_inv (sv_commons S) (remove1 w (sv_waiting S))"
    using i(2) w(2) notin_set_remove1 [of _ "sv_waiting S" w]
    by (auto simp: waiters_inv_def leads_def waits_for_def filter_remove1_irrelevant dest: set_remove1_subset [THEN subsetD])
  moreover have "ids_inv (service_probe H now ms w out S)"
    using i(3) w(1) unfolding ids_inv_def service_probe_def service_send_def
    by (auto simp: map_remove1_distinct)
  moreover have "bytes_inv H (service_probe H now ms w out S)"
    using i(4) by (auto simp: bytes_inv_def service_probe_def service_send_def answer_ok_def probe_response_def Let_def)
  ultimately show ?thesis using i(1) by (simp add: service_inv_def service_probe_def service_send_def)
qed

lemma revalidate_inv:
  assumes inv: "service_inv H S" and k: "(key, obj) \<in> set (cm_reval (sv_commons S))" "route_ok r" "route_key r = Some key"
  shows "service_inv H (service_revalidate H now ms key obj r out S)"
proof -
  let ?up = "route_fetch H r out" and ?F = "sv_fetched S @ [(r, out)]"
  let ?cm = "reval_done (he_config H) (route_ctype r) now key obj ?up (sv_commons S)"
  from inv have i: "commons_reachable (he_config H) (sv_commons S)" "waiters_inv (sv_commons S) (sv_waiting S)" "ids_inv S" "bytes_inv H S"
    by (simp_all add: service_inv_def)
  have "commons_reachable (he_config H) ?cm"
    by (rule commons_reachable.step [OF i(1) commons_step.reval [OF k(1)]]) (simp add: route_ctype_def split: croute.split)
  moreover have "fetched_body H ?F (fst p) (snd p)" if "p \<in> cache_bodies ?cm" for p
    using that reval_done_bodies [OF reachable_wf(1) [OF i(1)], of "he_config H" "route_ctype r" now key obj ?up] i(4) k(2,3) fetched_body_mono
    by (auto simp: bytes_inv_def fetched_body_def split: if_splits)
  ultimately show ?thesis using i k(2,3) answer_ok_mono
    by (auto simp: service_inv_def service_revalidate_def Let_def bytes_inv_def ids_inv_def intro: waiters_inv_same)
qed

lemma waiters_inv_leader:
  assumes "waiters_inv cm ws" "key \<in> set (cm_inflight cm)"
  obtains l where "find (\<lambda>w. wt_leader w \<and> waits_for key w) ws = Some l" "l \<in> set ws" "route_ok (wt_route l)" "waits_for key l"
proof -
  from assms have "filter (leads key) ws \<noteq> []" by (auto simp: waiters_inv_def)
  then have "find (leads key) ws \<noteq> None" by (auto simp: find_None_iff filter_empty_conv)
  then obtain l where "find (leads key) ws = Some l" by blast
  moreover from this have "l \<in> set ws" "leads key l" by (auto simp: find_Some_iff)
  ultimately show thesis using that assms(1) by (auto simp: leads_def waiters_inv_def leads_def [abs_def])
qed

lemma waiters_inv_settle:
  assumes inv: "waiters_inv cm ws" and d: "distinct (cm_inflight cm)" and cm': "cm_inflight cm' = remove1 key (cm_inflight cm)"
  shows "waiters_inv cm' (filter (\<lambda>w. \<not> waits_for key w) ws)"
proof -
  have "filter (leads k) (filter (\<lambda>w. \<not> waits_for key w) ws) = filter (leads k) ws" if "k \<noteq> key" for k
    using that by (induction ws) (auto simp: leads_def waits_for_def)
  with inv d show ?thesis by (auto simp: waiters_inv_def cm')
qed

lemma settle_inv:
  assumes inv: "service_inv H S" and key: "key \<in> set (cm_inflight (sv_commons S))"
  shows "service_inv H (service_settle H now key out S)"
proof -
  from inv have i: "commons_reachable (he_config H) (sv_commons S)" "waiters_inv (sv_commons S) (sv_waiting S)" "ids_inv S" "bytes_inv H S"
    by (simp_all add: service_inv_def)
  obtain l where l: "find (\<lambda>w. wt_leader w \<and> waits_for key w) (sv_waiting S) = Some l" "route_ok (wt_route l)" "waits_for key l"
    by (rule waiters_inv_leader [OF i(2) key])
  let ?up = "route_fetch H (wt_route l) out" and ?F = "sv_fetched S @ [(wt_route l, out)]"
  let ?cm = "lead_done (he_config H) (route_ctype (wt_route l)) now key ?up (sv_commons S)"
  have new: "fetched_body H ?F key (up_body ?up)" if "up_ok ?up"
    using l(2,3) that by (auto simp: fetched_body_def waits_for_def)
  have "commons_reachable (he_config H) ?cm"
    by (rule commons_reachable.step [OF i(1) commons_step.lead [OF key]]) (simp add: route_ctype_def split: croute.split)
  moreover have "fetched_body H ?F (fst p) (snd p)" if "p \<in> cache_bodies ?cm" for p
    using that lead_done_bodies [OF reachable_wf(1) [OF i(1)], of "he_config H" "route_ctype (wt_route l)" now key ?up] i(4) new fetched_body_mono
    by (auto simp: bytes_inv_def split: if_splits)
  moreover have "answer_ok H ?F (Some (wt_route w)) (waiter_response H now ?up w)" if "w \<in> set (sv_waiting S)" "waits_for key w" for w
    unfolding waiter_response_def using that i(2) new
    by (intro cached_response_ok) (auto simp: waits_for_def waiters_inv_def waiter_result_def cached_result_def split: if_splits)
  moreover have "ids_inv (service_settle H now key out S)"
    using i(3) distinct_split [of wt_id "sv_waiting S" "map fst (sv_sent S)" "waits_for key"]
    unfolding ids_inv_def service_settle_def l(1) Let_def option.case by (simp add: comp_def)
  moreover have "waiters_inv ?cm (filter (\<lambda>w. \<not> waits_for key w) (sv_waiting S))"
    by (rule waiters_inv_settle [OF i(2) reachable_wf(2) [OF i(1)]]) simp
  ultimately show ?thesis using i(4) answer_ok_mono
    by (auto simp: service_inv_def service_settle_def l(1) Let_def bytes_inv_def)
qed

lemma service_inv_reachable: "service_reachable H S \<Longrightarrow> service_inv H S"
proof (induction rule: service_reachable.induct)
  case init
  show ?case using commons_reachable.init [of "he_config H"]
    by (simp add: service_inv_def service_init_def waiters_inv_def ids_inv_def bytes_inv_def cache_bodies_def commons_init_def)
next
  case (step S S')
  from step.hyps(2) step.IH show ?case
    by cases (auto intro: arrive_inv settle_inv probe_inv revalidate_inv)
qed

section \<open>Properties\<close>

lemma fetchUpstream_ok:
  assumes "up_ok (fetchUpstream E url out)"
  obtains ct loc body where "out = FetchResponse 200 ct loc body" "readBoundedBody (ce_maxBody E) body = Inr (up_body (fetchUpstream E url out))"
  using assms by (auto simp: fetchUpstream_def up_failed_def up_ok_def split: fetch_out.splits if_splits sum.splits)

text \<open>What was fetched for the item of \<open>r\<close>, or for the album whose key a feed named \<open>imgur\<close> shares.\<close>

definition shares_key :: "croute \<Rightarrow> croute \<Rightarrow> bool" where
  "shares_key r r' \<longleftrightarrow>
     (\<exists>v a. r = CFeed Commons ''imgur'' v a \<and> r' = CAlbum v \<or> r' = CFeed Commons ''imgur'' v a \<and> r = CAlbum v)"


text \<open>
  C11. Every request is answered exactly once and none is forgotten: in every reachable state each request that
  arrived either waits or has exactly one answer; a request that waits for an item has a fetch of that item
  under way, which exactly one waiting request leads; and when the fetch settles, whatever its outcome,
  every request that waited for it is answered, all with the same status and the same bytes, and the key is
  free for the next fetch.
\<close>

theorem commons_answered_once:
  assumes "service_reachable H S"
  shows "distinct (map wt_id (sv_waiting S) @ map fst (sv_sent S))
    \<and> set (map wt_id (sv_waiting S) @ map fst (sv_sent S)) = {..<sv_next S}
    \<and> (\<forall>w \<in> set (sv_waiting S). wt_route w = CProbe \<or>
         (\<exists>key \<in> set (cm_inflight (sv_commons S)). waits_for key w \<and> length (filter (leads key) (sv_waiting S)) = 1
            \<and> key \<notin> set (cm_inflight (sv_commons (service_settle H now key out S)))
            \<and> (\<exists>st b. \<forall>x \<in> set (sv_waiting S). waits_for key x \<longrightarrow> x \<notin> set (sv_waiting (service_settle H now key out S))
                 \<and> (\<exists>hs. (wt_id x, Some (wt_route x), \<lparr>cr_status = st, cr_headers = hs, cr_body = b\<rparr>)
                        \<in> set (sv_sent (service_settle H now key out S))))))"
proof -
  note inv = service_inv_reachable [OF assms, unfolded service_inv_def]
  then have w: "waiters_inv (sv_commons S) (sv_waiting S)" and d: "distinct (cm_inflight (sv_commons S))"
    using reachable_wf(2) by blast+
  have settled: "\<exists>st b. \<forall>x \<in> set (sv_waiting S). waits_for key x \<longrightarrow> x \<notin> set (sv_waiting (service_settle H now key out S))
       \<and> (\<exists>hs. (wt_id x, Some (wt_route x), \<lparr>cr_status = st, cr_headers = hs, cr_body = b\<rparr>) \<in> set (sv_sent (service_settle H now key out S)))"
    and freed: "key \<notin> set (cm_inflight (sv_commons (service_settle H now key out S)))"
    if k: "key \<in> set (cm_inflight (sv_commons S))" for key
  proof -
    obtain l where l: "find (\<lambda>w. wt_leader w \<and> waits_for key w) (sv_waiting S) = Some l" by (rule waiters_inv_leader [OF w k])
    let ?up = "route_fetch H (wt_route l) out"
    have "\<exists>st b. \<forall>x. \<exists>hs. waiter_response H now ?up x = \<lparr>cr_status = st, cr_headers = hs, cr_body = b\<rparr>"
      by (cases "up_ok ?up") (auto simp: waiter_response_def waiter_result_def cached_result_def cached_response_def upstream_unavailable_def)
    then obtain st b where r: "\<And>x. \<exists>hs. waiter_response H now ?up x = \<lparr>cr_status = st, cr_headers = hs, cr_body = b\<rparr>" by blast
    have "\<exists>hs. (wt_id x, Some (wt_route x), \<lparr>cr_status = st, cr_headers = hs, cr_body = b\<rparr>) \<in> set (sv_sent (service_settle H now key out S))"
      if x: "x \<in> set (sv_waiting S)" "waits_for key x" for x
    proof -
      from r [of x] obtain hs where "waiter_response H now ?up x = \<lparr>cr_status = st, cr_headers = hs, cr_body = b\<rparr>" by blast
      moreover have "(wt_id x, Some (wt_route x), waiter_response H now ?up x) \<in> set (sv_sent (service_settle H now key out S))"
        using x by (auto simp: service_settle_def l Let_def)
      ultimately show ?thesis by metis
    qed
    then show "\<exists>st b. \<forall>x \<in> set (sv_waiting S). waits_for key x \<longrightarrow> x \<notin> set (sv_waiting (service_settle H now key out S))
       \<and> (\<exists>hs. (wt_id x, Some (wt_route x), \<lparr>cr_status = st, cr_headers = hs, cr_body = b\<rparr>) \<in> set (sv_sent (service_settle H now key out S)))"
      by (intro exI [of _ st] exI [of _ b]) (auto simp: service_settle_def l Let_def)
    show "key \<notin> set (cm_inflight (sv_commons (service_settle H now key out S)))"
      using d by (simp add: service_settle_def l Let_def)
  qed
  have "wt_route x = CProbe \<or> (\<exists>key \<in> set (cm_inflight (sv_commons S)). waits_for key x \<and> length (filter (leads key) (sv_waiting S)) = 1
            \<and> key \<notin> set (cm_inflight (sv_commons (service_settle H now key out S)))
            \<and> (\<exists>st b. \<forall>x \<in> set (sv_waiting S). waits_for key x \<longrightarrow> x \<notin> set (sv_waiting (service_settle H now key out S))
                 \<and> (\<exists>hs. (wt_id x, Some (wt_route x), \<lparr>cr_status = st, cr_headers = hs, cr_body = b\<rparr>)
                        \<in> set (sv_sent (service_settle H now key out S)))))" (is "_ \<or> (\<exists>key \<in> _. ?P key)")
    if x: "x \<in> set (sv_waiting S)" for x
  proof (cases "wt_route x = CProbe")
    case False
    with w x obtain key where k: "key \<in> set (cm_inflight (sv_commons S))" "waits_for key x" "length (filter (leads key) (sv_waiting S)) = 1"
      unfolding waiters_inv_def by blast
    have "?P key" by (intro conjI k(2,3) freed [OF k(1)] settled [OF k(1)])
    with k(1) show ?thesis by blast
  qed simp
  then show ?thesis using inv unfolding ids_inv_def by (intro conjI ballI) simp_all
qed

lemma log_lines:
  "set (request_log H path verb d st cs out) \<subseteq> range commons_safeLogFields" "set (refusal_log path d) \<subseteq> range commons_safeLogFields"
  "set (revalidate_log r ms up) \<subseteq> range commons_safeLogFields" "set (waiter_log H now up w) \<subseteq> range commons_safeLogFields"
  by (auto simp: waiter_log_def request_log_def refusal_log_def revalidate_log_def)

lemma service_log_filtered: "service_reachable H S \<Longrightarrow> set (sv_log S) \<subseteq> range commons_safeLogFields"
proof (induction rule: service_reachable.induct)
  case init
  show ?case by (simp add: service_init_def)
next
  case (step S S')
  note in_log = log_lines(1) [THEN subsetD] log_lines(2) [THEN subsetD] log_lines(3) [THEN subsetD] log_lines(4) [THEN subsetD]
  from step.hyps(2) show ?case
  proof cases
    case (arrive rd req)
    have "set (sv_log (service_route H rd req path r i T)) \<subseteq> range commons_safeLogFields" if "set (sv_log T) \<subseteq> range commons_safeLogFields"
      for path r i T using that in_log
      by (auto simp: service_route_def service_send_def service_wait_def Let_def split: option.splits prod.splits served.splits if_splits)
    with arrive step.IH show ?thesis by (auto simp: service_arrive_def service_send_def Let_def split: option.splits)
  next
    case (settle key now out)
    with step.IH in_log show ?thesis by (auto simp: service_settle_def Let_def split: option.splits)
  qed (use step.IH in_log in \<open>auto simp: service_probe_def service_send_def service_revalidate_def Let_def\<close>)
qed


section \<open>A run\<close>

text \<open>
  Two requests for one feed share a fetch, which returns two chunks; a third is served from the cache; a
  fourth names no feed and is refused.
\<close>

definition ex_handler :: handler_env where
  "ex_handler =
     \<lparr>he_env = ex_cenv, he_config = ex_commons_config, he_sha256 = id, he_fdid = [], he_fdidHeader = ''x-azure-fdid'', he_logHealth = False,
      he_template = ''/{id}/{sort}.rss'', he_comments = [], he_imgurBase = [], he_clientId = [],
      he_url = (\<lambda>u. if u = [] then None else Some (''/v1/commons'', [''id'' \<mapsto> u, ''sort'' \<mapsto> ''New''])),
      he_jparse = (\<lambda>_. None), he_jprint = (\<lambda>_. [])\<rparr>"

definition ex_get :: "string \<Rightarrow> request" where
  "ex_get u = \<lparr>req_method = ''GET'', req_url = u, req_headers = Map.empty\<rparr>"

definition ex_reading :: "int \<Rightarrow> reading" where
  "ex_reading t = \<lparr>rd_now = t, rd_iso = [], rd_uptime = 0, rd_spent = 1\<rparr>"

definition ex_waiting :: service where
  "ex_waiting = service_arrive ex_handler (ex_reading 6) (ex_get ''a'') (service_arrive ex_handler (ex_reading 5) (ex_get ''a'') service_init)"

definition ex_served :: service where
  "ex_served = service_arrive ex_handler (ex_reading 21) (ex_get ''-'') (service_arrive ex_handler (ex_reading 20) (ex_get ''a'')
     (service_settle ex_handler 15 ''a/new'' (FetchResponse 200 None None (Some ([[1], [2]], None))) ex_waiting))"

lemma ex_reachable: "service_reachable ex_handler ex_waiting" "service_reachable ex_handler ex_served"
proof -
  show w: "service_reachable ex_handler ex_waiting"
    unfolding ex_waiting_def by (intro service_reachable.step [OF _ service_step.arrive] service_reachable.init)
  have "''a/new'' \<in> set (cm_inflight (sv_commons ex_waiting))" by code_simp
  then show "service_reachable ex_handler ex_served"
    unfolding ex_served_def
    by (intro service_reachable.step [OF _ service_step.arrive] service_reachable.step [OF w service_step.settle])
qed

lemma ex_served_sent:
  "map (\<lambda>(i, r, resp). (i, r, cr_status resp, cr_body resp)) (take 3 (sv_sent ex_served)) =
     map (\<lambda>i. (i, Some (CFeed Commons ''a'' ''new'' None), 200, [1, 2])) [0, 1, 2]
   \<and> map (\<lambda>(i, r, resp). (i, r, cr_status resp)) (drop 3 (sv_sent ex_served)) = [(3, Some CBadInput, 400)]"
  by code_simp


theorem commons_answered_once_witness:
  "map wt_id (sv_waiting ex_waiting) = [0, 1] \<and> distinct (map wt_id (sv_waiting ex_waiting) @ map fst (sv_sent ex_waiting))
   \<and> (\<exists>key. length (filter (leads key) (sv_waiting ex_waiting)) = 1)"
proof -
  have v: "map (\<lambda>w. (wt_id w, wt_route w)) (sv_waiting ex_waiting) =
      [(0, CFeed Commons ''a'' ''new'' None), (1, CFeed Commons ''a'' ''new'' None)]" by code_simp
  then obtain w z where "sv_waiting ex_waiting = [w, z]" "wt_route w = CFeed Commons ''a'' ''new'' None" by auto
  then have "w \<in> set (sv_waiting ex_waiting)" "wt_route w \<noteq> CProbe" by simp_all
  with commons_answered_once [OF ex_reachable(1)] have "\<exists>key. length (filter (leads key) (sv_waiting ex_waiting)) = 1" by blast
  moreover from v have "map fst (map (\<lambda>w. (wt_id w, wt_route w)) (sv_waiting ex_waiting)) = [0, 1]" by simp
  then have "map wt_id (sv_waiting ex_waiting) = [0, 1]" by (simp add: comp_def)
  ultimately show ?thesis using commons_answered_once [OF ex_reachable(1)] by blast
qed


end
