(* ===== verification/Spec2Isabelle.thy ===== *)
theory Spec2Isabelle
  imports Fleet RedemptionStore Fixtures TokenFlow Startup RelayService CommonsHandler
begin

text \<open>
  \<^bold>\<open>Columbia: privacy-preserving access to a shared content cache.\<close>

  \<^bold>\<open>The program.\<close> Three JavaScript services and a gateway cooperate. A device proves to the \<^emph>\<open>token issuer\<close>
  (\<^verbatim>\<open>src/token-issuer\<close>) with Apple App Attest that it runs the genuine app and receives blind signatures, within a
  quota per epoch. It unblinds them to tokens and presents one with each encrypted request to the \<^emph>\<open>OHTTP relay\<close>
  (\<^verbatim>\<open>src/ohttp-relay\<close>), which checks the token against the issuer's published keys, spends it, and forwards the
  ciphertext and nothing else to the gateway. The gateway (\<^verbatim>\<open>src/ohttp-gateway\<close>, Go) decrypts and calls the
  \<^emph>\<open>commons cache\<close> (\<^verbatim>\<open>src/commons-cache\<close>), which answers from a shared cache or fetches from upstream without
  anything that identifies the client.

  \<^bold>\<open>Theories and sources.\<close>
  \<^item> \<open>Prelude\<close>, \<open>NodeRuntime\<close>, \<open>Utf8\<close>, \<open>Json\<close>: the JavaScript values, numbers, strings, insertion-ordered maps,
    buffers, UTF-8 and JSON coding the code uses, with the laws the components share.
  \<^item> \<open>StateStore\<close> and \<open>TableBackend\<close> (\<^verbatim>\<open>token-issuer/state-store.js\<close>): the device row, \<open>checked\<close>, \<open>reserve\<close>,
    \<open>getAttestedKey\<close>, the memory backend and the table backend. \<open>TableClient\<close> is the interface of the Azure
    table client with the behaviour relied on (\<open>table_service\<close>, \<open>versioned_table\<close>) and a local table that has it.
    \<open>Fleet\<close> runs any number of issuer replicas against one table.
  \<^item> \<open>EpochKeys\<close> (\<^verbatim>\<open>token-issuer/epoch-keys.js\<close>): manifest, key import, key of an epoch.
  \<^item> \<open>Cbor\<close>, \<open>Der\<close>, \<open>AppAttest\<close> (\<^verbatim>\<open>token-issuer/appattest.js\<close>): the byte-level readers, the five checks,
    \<open>validateAppAttest\<close>. The encoders of \<^verbatim>\<open>token-issuer/appattest-fixtures.js\<close> stand beside the readers, its
    certificate, attestation and assertion builders in \<open>Fixtures\<close>.
  \<^item> \<open>FrontDoor\<close>: what the three \<^verbatim>\<open>server.js\<close> files have in common: the origin lock, the draining shutdown, the
    closed log vocabulary.
  \<^item> \<open>IssuerServer\<close> (\<^verbatim>\<open>token-issuer/server.js\<close>): client-data binding, \<open>handleIssue\<close>, \<open>handleIssuerKeys\<close>, router.
  \<^item> \<open>RedemptionStore\<close> (\<^verbatim>\<open>ohttp-relay/redemption-store.js\<close>) and \<open>IssuerKeyCache\<close>
    (\<^verbatim>\<open>ohttp-relay/issuer-key-cache.js\<close>): spent tokens and the issuer's keys.
  \<^item> \<open>RelayAuth\<close>, \<open>RelayServer\<close>, \<open>RelayProxy\<close> (\<^verbatim>\<open>ohttp-relay/server.js\<close>): rate limit and credentials; guards,
    capacity slots and body; the gateway hop and the cached key configuration. \<open>RelayHandler\<close> is one exchange
    with every reply and log line; \<open>RelayService\<close> composes slots, authorisation, redemption, body and flight of any
    number of concurrent requests.
  \<^item> \<open>CommonsCache\<close>, \<open>CommonsServer\<close> (\<^verbatim>\<open>commons-cache/server.js\<close>): the shared cache; fetching, routing, answers.
    \<open>CommonsHandler\<close> is the whole request handler, with any number of requests waiting for shared fetches.
  \<^item> \<open>Startup\<close>: what each of the three \<^verbatim>\<open>server.js\<close> files reads from the environment and refuses to start with.
  \<^item> \<open>TokenFlow\<close>: where issuer, relay and commons meet.

  \<^bold>\<open>State and effects.\<close> A module's variables are a record; an operation takes it and returns it. A throw is \<open>Inl\<close>
  or \<open>None\<close>. Code between two \<open>await\<close>s, callbacks or events is one definition, and an \<open>inductive\<close> relation
  interleaves them (\<open>rsv_step\<close>, \<open>claims_step\<close>, \<open>kc_step\<close>, \<open>relay_step\<close>, \<open>fl_reachable\<close>, \<open>config_step\<close>,
  \<open>commons_step\<close>, \<open>service_step\<close>, \<open>rz_next\<close>, \<open>fleet_next\<close>, \<open>drain_step\<close>): Node runs such a piece without interruption and anything may run between two
  of them. Clocks, random identifiers and network results are inputs.

  \<^bold>\<open>Interfaces.\<close> \<open>device_backend\<close> is what \<open>reserve\<close> relies on of a backend (interpreted on the memory backend);
  \<open>versioned_table\<close> is what a replica relies on of the table service under lost and late writes, and
  \<open>issuer_fleet\<close> adds the codec and the hashes of the rows (both interpreted on the local table and the JSON codec);
  \<open>redemption_store\<close> is what the token check relies on (interpreted on the memory store); \<open>closed_log\<close> is the
  promise of a log filter (interpreted on the filters of all three services).

  \<^bold>\<open>What is shown.\<close>
  \<^item> Issuer: however reservations interleave, also those of several replicas over one table whose writes get lost
    or arrive late, no device exceeds its quota in an epoch and no assertion counter is used twice, and replicas
    with different salts never both serve; stored rows round trip, as values and as JSON text; a table write reports the truth even when acknowledgements are lost; a
    200 from \<open>/issue\<close> implies the binding, the attestation, the committed reservation and valid signatures; the
    binding determines the batch; keys are handed out for live epochs only and never share material.
  \<^item> App Attest: acceptance implies every check (soundness), and everything a genuine device builds is accepted
    (completeness, on the fixtures, for all keys, challenges and counters). The CBOR reader is bounded by its
    input and inverts the encoders; the certificate walk refines a depth-first search and returns on every
    input without a negative length, and one six-byte input on which it does not return is exhibited.
  \<^item> Relay: tokens are accepted only with a live key, a valid signature and a fresh nullifier, and are spent once,
    also over a shared table; every request the gateway sees was paid for by a token of its own; the rate limit and the capacity caps hold under every interleaving and every slot
    is given back; what the gateway sees depends on the ciphertext only; every caller of a flight gets the same
    single outcome; keys are never used past their window; the key configuration is fetched once at a time.
  \<^item> Commons: the bounded cache equals a reference recency list; fetches are shared per key and no entry is stuck;
    which requests share an entry is stated exactly; every request is answered exactly once, with the bytes of a
    successful fetch of the same item or a constant response.
  \<^item> Start-up: a service that starts has durable state where the policy demands it, a salt, a quota and key material
    that are usable, a gateway over TLS, an upstream outside the listed private ranges; the refusals are listed.
  \<^item> Composition: the document the issuer publishes is accepted by the relay's cache; all services log numbers,
    flags and words of fixed lists only; an exit with code 0 has finished all accepted work.

  \<^bold>\<open>Bounds.\<close> The recursion of the CBOR reader is bounded by the code's own depth limit of 16 and the loop counts in
  the input; that of \<open>reserve\<close> by its four attempts; that of the JSON reader by fuel of the length of the text plus
  one, since every nested call has consumed a character. The two loops of the certificate walk can run forever and
  are partial functions into \<open>option\<close>: \<open>None\<close> is not returning. Other loops carry a termination proof. DER lengths
  wrap at 32 bits as JavaScript's shifts do; other numbers of the code stay below 2^53 and are integers.

  \<^bold>\<open>Parameters.\<close> SHA-256, base64, numbers with fractions in JSON, RSA and EC keys, X.509, URL parsing and the Azure client are Node's
  or third-party code: arguments of the definitions, with the documented behaviour a theorem uses as a named
  hypothesis that a witness meets.

  \<^bold>\<open>Not modelled.\<close> The Go gateway; sockets, timers and the listening port, of which the model sees the events;
  a limit that the environment sets to something that is no number (the settings record it, the handlers have
  no such case); the exports and hooks for the tests. Header and query strings, and the text of the issuer's
  rows, are latin-1.

  \<^bold>\<open>Left for later.\<close> Several relay replicas over one redemption table, with their key caches, as \<open>Fleet\<close> has it for the
  issuer; the issuer's handlers as a step relation over the fleet.
\<close>

end
